(* ===== verification/Prelude.thy ===== *)
theory Prelude
  imports Complex_Main "HOL-Library.Word" "HOL-Library.Multiset"
begin

section \<open>Prelude: errors, loops, C++ numbers\<close>

text \<open>
  What every component shares. An operation of the program either returns or does not, and the
  ways not to return are a thrown \<open>std::runtime_error\<close> (no caller in the repository catches one, so
  the thread that throws it ends the process), an undefined behaviour (an index outside an
  array, a dereferenced dangling pointer, a conversion that does not fit) and, in the client, the
  end of the process by \<open>exit\<close> or \<open>error\<close> with its status. All are values:
  \<open>'a res\<close> is the sum of a failure and a result. \<open>andThen\<close> runs a statement after one that may
  fail, \<open>iterE\<close> is a \<open>for\<close> loop over the elements of a container whose body may fail, and
  \<open>f32\<close> is the single-precision float the messages carry.
\<close>

subsection \<open>Failures and results\<close>

datatype cxx_error = RuntimeError string | Undefined string | Exit int

type_synonym 'a res = "cxx_error + 'a"
type_synonym byte = "8 word"
type_synonym size_t = "64 word"

definition andThen :: "'a res \<Rightarrow> ('a \<Rightarrow> 'b res) \<Rightarrow> 'b res" where
  "andThen m f = (case m of Inl e \<Rightarrow> Inl e | Inr x \<Rightarrow> f x)"

lemma andThen_simps [simp]:
  "andThen (Inl e) f = Inl e"
  "andThen (Inr x) f = f x"
  by (simp_all add: andThen_def)

lemma andThen_eq_Inr: "andThen m f = Inr y \<longleftrightarrow> (\<exists>x. m = Inr x \<and> f x = Inr y)"
  by (cases m) auto

lemma andThen_assoc: "andThen (andThen m f) g = andThen m (\<lambda>x. andThen (f x) g)"
  by (cases m) auto

lemma andThen_if: "andThen (if b then m else n) f = (if b then andThen m f else andThen n f)"
  by simp

lemma andThenE [elim!]:
  assumes "andThen m f = Inr y"
  obtains x where "m = Inr x" "f x = Inr y"
  using assms by (auto simp: andThen_eq_Inr)

lemma andThen_cong [fundef_cong]:
  "m = m' \<Longrightarrow> (\<And>x. m' = Inr x \<Longrightarrow> f x = g x) \<Longrightarrow> andThen m f = andThen m' g"
  by (cases m') auto

text \<open>
  An operation that calls a function which may not return is a \<open>'a res option\<close>, with \<open>None\<close> for
  the call that runs forever; \<open>andThenO\<close> sequences those.
\<close>

definition andThenO :: "'a res option \<Rightarrow> ('a \<Rightarrow> 'b res option) \<Rightarrow> 'b res option" where
  "andThenO m f = (case m of None \<Rightarrow> None | Some (Inl e) \<Rightarrow> Some (Inl e) | Some (Inr x) \<Rightarrow> f x)"

lemma andThenO_simps [simp]:
  "andThenO None f = None"
  "andThenO (Some (Inl e)) f = Some (Inl e)"
  "andThenO (Some (Inr x)) f = f x"
  by (simp_all add: andThenO_def)

lemma andThenO_eq: "andThenO m f = Some (Inr y) \<longleftrightarrow> (\<exists>x. m = Some (Inr x) \<and> f x = Some (Inr y))"
  by (auto simp: andThenO_def split: option.splits sum.splits)

lemma andThenOE [elim!]:
  assumes "andThenO m f = Some (Inr y)"
  obtains x where "m = Some (Inr x)" "f x = Some (Inr y)"
  using assms by (auto simp: andThenO_eq)

lemma andThenO_cong:
  "m = m' \<Longrightarrow> (\<And>x. m' = Some (Inr x) \<Longrightarrow> f x = g x) \<Longrightarrow> andThenO m f = andThenO m' g"
  by (auto simp: andThenO_def split: option.split sum.split)

text \<open>A run that returns, with a result of which something holds: what a concrete evaluation shows.\<close>

definition yields :: "'a res \<Rightarrow> ('a \<Rightarrow> bool) \<Rightarrow> bool" where
  "yields m P = (case m of Inl _ \<Rightarrow> False | Inr x \<Rightarrow> P x)"

lemma yieldsE:
  assumes "yields m P"
  obtains x where "m = Inr x" "P x"
  using assms by (cases m) (auto simp: yields_def)

definition yieldsO :: "'a res option \<Rightarrow> ('a \<Rightarrow> bool) \<Rightarrow> bool" where
  "yieldsO m P = (case m of None \<Rightarrow> False | Some r \<Rightarrow> yields r P)"

lemma yieldsOE:
  assumes "yieldsO m P"
  obtains x where "m = Some (Inr x)" "P x"
  using assms by (cases m) (auto simp: yieldsO_def elim: yieldsE)

subsection \<open>Loops over a container\<close>

primrec iterE :: "('a \<Rightarrow> 's \<Rightarrow> 's res) \<Rightarrow> 'a list \<Rightarrow> 's \<Rightarrow> 's res" where
  "iterE f [] s = Inr s"
| "iterE f (x # xs) s = andThen (f x s) (iterE f xs)"

lemma iterE_append: "iterE f (xs @ ys) s = andThen (iterE f xs s) (iterE f ys)"
proof (induction xs arbitrary: s)
  case Nil
  then show ?case by simp
next
  case (Cons x xs)
  then show ?case by (cases "f x s") simp_all
qed

text \<open>A loop keeps what its body keeps.\<close>

lemma iterE_rel:
  assumes "iterE f xs s = Inr t"
    and refl: "\<And>u. R u u"
    and trans: "\<And>u v w. R u v \<Longrightarrow> R v w \<Longrightarrow> R u w"
    and body: "\<And>x u v. x \<in> set xs \<Longrightarrow> f x u = Inr v \<Longrightarrow> R u v"
  shows "R s t"
  using assms(1) body
proof (induction xs arbitrary: s)
  case Nil
  then show ?case by (simp add: refl)
next
  case (Cons x xs)
  from Cons.prems(1) obtain u where u: "f x s = Inr u" "iterE f xs u = Inr t"
    by auto
  have "R u t"
    by (rule Cons.IH [OF u(2)]) (rule Cons.prems(2), simp_all)
  moreover have "R s u"
    using u(1) by (rule Cons.prems(2) [rotated]) simp
  ultimately show ?case by (blast intro: trans)
qed

lemma iterE_inv:
  assumes "iterE f xs s = Inr t" and "P s"
    and body: "\<And>x u v. x \<in> set xs \<Longrightarrow> P u \<Longrightarrow> f x u = Inr v \<Longrightarrow> P v"
  shows "P t"
  using assms
proof (induction xs arbitrary: s)
  case Nil
  then show ?case by simp
next
  case (Cons x xs)
  from Cons.prems(1) obtain u where u: "f x s = Inr u" "iterE f xs u = Inr t"
    by auto
  have "P u" using Cons.prems(2) u(1) by (rule Cons.prems(3) [rotated]) simp
  then show ?case by (rule Cons.IH [OF u(2)]) (rule Cons.prems(3), simp_all)
qed

text \<open>A loop returns when its body returns wherever the invariant holds.\<close>

lemma iterE_total:
  assumes "P s"
    and "\<And>x u. x \<in> set xs \<Longrightarrow> P u \<Longrightarrow> \<exists>v. f x u = Inr v \<and> P v"
  shows "\<exists>t. iterE f xs s = Inr t \<and> P t"
  using assms
proof (induction xs arbitrary: s)
  case Nil
  then show ?case by simp
next
  case (Cons x xs)
  obtain u where u: "f x s = Inr u" "P u"
    using Cons.prems(2) [of x s] Cons.prems(1) by auto
  obtain t where "iterE f xs u = Inr t \<and> P t"
    using Cons.IH [OF u(2)] Cons.prems(2) by auto
  with u show ?case by auto
qed

subsection \<open>Vectors\<close>

text \<open>\<open>v.erase(v.begin() + i)\<close>, and the index \<open>std::find_if\<close> answers.\<close>

definition erase_at :: "nat \<Rightarrow> 'a list \<Rightarrow> 'a list" where
  "erase_at i xs = take i xs @ drop (Suc i) xs"

definition find_index :: "('a \<Rightarrow> bool) \<Rightarrow> 'a list \<Rightarrow> nat option" where
  "find_index P xs = find (\<lambda>i. P (xs ! i)) [0..<length xs]"

lemma length_erase_at: "length (erase_at i xs) = (if i < length xs then length xs - 1 else length xs)"
  by (auto simp: erase_at_def)

lemma find_index_Some:
  "find_index P xs = Some i \<Longrightarrow> i < length xs \<and> P (xs ! i) \<and> (\<forall>j < i. \<not> P (xs ! j))"
  by (auto simp: find_index_def find_Some_iff)

lemma find_index_None: "find_index P xs = None \<longleftrightarrow> (\<forall>x \<in> set xs. \<not> P x)"
  unfolding find_index_def find_None_iff all_set_conv_all_nth by simp

lemma find_index_hit: "i < length xs \<Longrightarrow> P (xs ! i) \<Longrightarrow> \<exists>j \<le> i. find_index P xs = Some j"
proof -
  assume i: "i < length xs" "P (xs ! i)"
  then obtain j where "find_index P xs = Some j" using find_index_None [of P xs] by fastforce
  then show ?thesis using find_index_Some [of P xs j] i(2) by (meson not_le)
qed

lemma set_erase_at: "set (erase_at i xs) \<subseteq> set xs"
  unfolding erase_at_def using set_take_subset set_drop_subset by fastforce

lemma erase_at_skip: "erase_at (length xs) (xs @ y # ys) = xs @ ys"
  by (simp add: erase_at_def)

lemma nth_erase_at: "j < i \<Longrightarrow> i < length xs \<Longrightarrow> erase_at i xs ! j = xs ! j"
  by (simp add: erase_at_def nth_append)

lemma erase_at_0 [simp]: "erase_at 0 (x # xs) = xs"
  by (simp add: erase_at_def)

subsection \<open>Numbers\<close>

text \<open>
  \<open>int\<close> is 32 bits wide. A float is a rational, an infinity or a NaN; the sign of a zero is not
  kept (no operation of the program can tell the zeros apart). \<open>floor_to_int\<close> is
  \<open>std::floor\<close> followed by the implicit conversion to \<open>int\<close>, \<open>trunc_to_int\<close> is the conversion
  \<open>int(f)\<close>; both are undefined when the value does not fit.
\<close>

datatype f32 = Fin rat | PInf | NInf | NaN

definition int32_ok :: "int \<Rightarrow> bool" where
  "int32_ok i \<longleftrightarrow> - (2 ^ 31) \<le> i \<and> i < 2 ^ 31"

definition to_int32 :: "int \<Rightarrow> int res" where
  "to_int32 i = (if int32_ok i then Inr i else Inl (Undefined ''conversion to int''))"

lemma to_int32_Inr [simp]: "to_int32 i = Inr j \<longleftrightarrow> int32_ok i \<and> j = i"
  by (auto simp: to_int32_def)

lemma to_int32_ok [simp]: "int32_ok i \<Longrightarrow> to_int32 i = Inr i"
  by simp

definition truncate_rat :: "rat \<Rightarrow> int" where
  "truncate_rat r = (if r < 0 then \<lceil>r\<rceil> else \<lfloor>r\<rfloor>)"

fun floor_to_int :: "f32 \<Rightarrow> int res" where
  "floor_to_int (Fin r) = to_int32 \<lfloor>r\<rfloor>"
| "floor_to_int _ = Inl (Undefined ''conversion to int'')"

fun trunc_to_int :: "f32 \<Rightarrow> int res" where
  "trunc_to_int (Fin r) = to_int32 (truncate_rat r)"
| "trunc_to_int _ = Inl (Undefined ''conversion to int'')"

text \<open>
  Converting an \<open>int\<close> to a float rounds to the nearest value with 24 significant bits, ties to
  even. \<open>ulp\<close> is the spacing of the floats around a non-negative number.
\<close>

function ulp :: "int \<Rightarrow> int" where
  "ulp n = (if n < 16777216 then 1 else 2 * ulp (n div 2))"
  by pat_completeness auto
termination
  by (relation "measure nat") auto

declare ulp.simps [simp del]

definition round24 :: "int \<Rightarrow> int" where
  "round24 n = (let u = ulp n; q = n div u; r = n mod u
     in if 2 * r < u \<or> 2 * r = u \<and> q mod 2 = 0 then q * u else (q + 1) * u)"

definition float_of_int :: "int \<Rightarrow> int" where
  "float_of_int i = (if i < 0 then - round24 (- i) else round24 i)"

lemma round24_small: "n < 2 ^ 24 \<Longrightarrow> round24 n = n"
  by (simp add: round24_def ulp.simps [of n])

lemma float_of_int_exact: "\<bar>i\<bar> < 2 ^ 24 \<Longrightarrow> float_of_int i = i"
  by (simp add: float_of_int_def round24_small)

lemma floor_to_int_of_int: "int32_ok i \<Longrightarrow> floor_to_int (Fin (of_int i)) = Inr i"
  by (simp add: to_int32_def)

lemma trunc_to_int_of_int: "int32_ok i \<Longrightarrow> trunc_to_int (Fin (of_int i)) = Inr i"
  by (simp add: to_int32_def truncate_rat_def)

subsection \<open>State machines\<close>

text \<open>
  The states a machine reaches from its initial ones, and the contract of an inductive
  invariant.
\<close>

inductive reach :: "('s \<Rightarrow> bool) \<Rightarrow> ('s \<Rightarrow> 'e \<Rightarrow> 's \<Rightarrow> bool) \<Rightarrow> 's \<Rightarrow> bool"
  for init :: "'s \<Rightarrow> bool" and step :: "'s \<Rightarrow> 'e \<Rightarrow> 's \<Rightarrow> bool" where
  reach_init: "init s \<Longrightarrow> reach init step s"
| reach_step: "reach init step s \<Longrightarrow> step s e t \<Longrightarrow> reach init step t"

inductive runs :: "('s \<Rightarrow> 'e \<Rightarrow> 's \<Rightarrow> bool) \<Rightarrow> 's \<Rightarrow> 'e list \<Rightarrow> 's \<Rightarrow> bool"
  for step :: "'s \<Rightarrow> 'e \<Rightarrow> 's \<Rightarrow> bool" where
  runs_done: "runs step s [] s"
| runs_more: "step s e t \<Longrightarrow> runs step t es u \<Longrightarrow> runs step s (e # es) u"

locale state_machine =
  fixes init :: "'s \<Rightarrow> bool"
    and step :: "'s \<Rightarrow> 'e \<Rightarrow> 's \<Rightarrow> bool"
    and inv :: "'s \<Rightarrow> bool"
  assumes inv_init: "init s \<Longrightarrow> inv s"
    and inv_step: "inv s \<Longrightarrow> step s e t \<Longrightarrow> inv t"
begin

lemma reach_inv: "reach init step s \<Longrightarrow> inv s"
  by (induction rule: reach.induct) (auto intro: inv_init inv_step)

lemma runs_inv: "runs step s es t \<Longrightarrow> inv s \<Longrightarrow> inv t"
  by (induction rule: runs.induct) (auto intro: inv_step)

end

text \<open>A machine with a measure of progress that no step decreases.\<close>

locale progress_machine = state_machine init step inv
  for init :: "'s \<Rightarrow> bool" and step :: "'s \<Rightarrow> 'e \<Rightarrow> 's \<Rightarrow> bool" and inv :: "'s \<Rightarrow> bool" +
  fixes stage :: "'s \<Rightarrow> 'o :: linorder"
  assumes stage_step: "inv s \<Longrightarrow> step s e t \<Longrightarrow> stage s \<le> stage t"
begin

lemma run_progress: "runs step s es t \<Longrightarrow> inv s \<Longrightarrow> inv t \<and> stage s \<le> stage t"
proof (induction rule: runs.induct)
  case (runs_more s e t es u)
  then show ?case using inv_step [of s e t] stage_step [of s e t] by auto
qed simp

end

end
