(* ===== verification/Launch.thy ===== *)
theory Launch
  imports Prelude
begin

section \<open>The entry point (\<open>Main.cpp\<close>)\<close>

text \<open>
  The command line. \<open>stoi\<close> is \<open>std::stoi\<close> of the C++ library: leading blanks, a sign, the longest
  run of digits, whatever follows; \<open>None\<close> is the exception it throws. \<open>main\<close> returns the lines it
  writes on the error stream before \<open>return 1\<close>, or which of the two programs it runs and with
  what arguments. An empty \<open>argv\<close> streams a null pointer. The set-up of the log, the ignored
  \<open>SIGPIPE\<close> and the echo of the port on the standard output are left out.
\<close>

definition is_blank :: "char \<Rightarrow> bool" where
  "is_blank c \<longleftrightarrow> c = CHR '' '' \<or> 9 \<le> (of_char c :: nat) \<and> (of_char c :: nat) \<le> 13"

definition is_digit :: "char \<Rightarrow> bool" where
  "is_digit c \<longleftrightarrow> 48 \<le> (of_char c :: nat) \<and> (of_char c :: nat) \<le> 57"

definition digit_value :: "char \<Rightarrow> int" where
  "digit_value c = int (of_char c) - 48"

definition digits_value :: "string \<Rightarrow> int" where
  "digits_value ds = foldl (\<lambda>n c. 10 * n + digit_value c) 0 ds"

definition stoi :: "string \<Rightarrow> int option" where
  "stoi s =
    (let s1 = dropWhile is_blank s;
         negative = (s1 \<noteq> [] \<and> hd s1 = CHR ''-'');
         s2 = (if s1 \<noteq> [] \<and> (hd s1 = CHR ''-'' \<or> hd s1 = CHR ''+'') then tl s1 else s1);
         ds = takeWhile is_digit s2;
         n = (if negative then - digits_value ds else digits_value ds) in
     if ds = [] then None else if int32_ok n then Some n else None)"

datatype launch =
  ReturnOne "string list"
| RunServer int
| RunClient string int

definition main_server :: "string list \<Rightarrow> launch" where
  "main_server argv =
    (let usage = ''Usage: '' @ argv ! 0 @ '' server 1234'' in
     if length argv < 3 then ReturnOne [''Expected port'', usage]
     else case stoi (argv ! 2) of
       None \<Rightarrow> ReturnOne [''Expected a port number'', usage]
     | Some port \<Rightarrow>
         if port > 65535 \<or> port < 1000 then ReturnOne [''Expected a valid port bumber'', usage]
         else RunServer port)"

definition main_client :: "string list \<Rightarrow> launch" where
  "main_client argv =
    (let usage = ''Usage: '' @ argv ! 0 @ '' client 127.0.0.1 1234'' in
     if length argv < 4 then ReturnOne [''Expected a server address and a port'', usage]
     else case stoi (argv ! 3) of
       None \<Rightarrow> ReturnOne [''Expected a valid port bumber'', usage]
     | Some port \<Rightarrow> RunClient (argv ! 2) port)"

definition main :: "string list \<Rightarrow> launch res" where
  "main argv =
    (if argv = [] then Inl (Undefined ''null pointer streamed'')
     else if length argv < 2 then
       Inr (ReturnOne [''Expected one of: server, client'',
         ''Usage: '' @ argv ! 0 @ '' client [username]/server''])
     else if argv ! 1 \<noteq> ''client'' \<and> argv ! 1 \<noteq> ''server'' then
       Inr (ReturnOne [''Expected one of: server, client'',
         ''Usage: '' @ argv ! 0 @ '' client/server''])
     else if argv ! 1 = ''server'' then Inr (main_server argv)
     else Inr (main_client argv))"

subsection \<open>Decimal numbers\<close>

text \<open>The decimal writing of a number, to state what \<open>stoi\<close> reads.\<close>

fun decimal :: "nat \<Rightarrow> string" where
  "decimal n = (if n < 10 then [char_of (48 + n)] else decimal (n div 10) @ [char_of (48 + n mod 10)])"

declare decimal.simps [simp del]

lemma digit_char:
  assumes "d < 10"
  shows "is_digit (char_of (48 + d)) \<and> digit_value (char_of (48 + d)) = int d"
proof -
  have "d \<in> {0, 1, 2, 3, 4, 5, 6, 7, 8, 9}" using assms by auto
  then show ?thesis by (auto simp: is_digit_def digit_value_def)
qed

lemma decimal_digits: "decimal n \<noteq> [] \<and> list_all is_digit (decimal n) \<and> digits_value (decimal n) = int n"
proof (induction n rule: decimal.induct)
  case (1 n)
  show ?case
  proof (cases "n < 10")
    case True
    then show ?thesis using digit_char [of n] by (simp add: decimal.simps [of n] digits_value_def)
  next
    case False
    have "int n = 10 * int (n div 10) + int (n mod 10)" by presburger
    then show ?thesis
      using False 1 digit_char [of "n mod 10"] by (simp add: decimal.simps [of n] digits_value_def)
  qed
qed

lemma not_digit_signs: "is_digit c \<Longrightarrow> \<not> is_blank c \<and> c \<noteq> CHR ''-'' \<and> c \<noteq> CHR ''+''"
  by (auto simp: is_digit_def is_blank_def)

lemma takeWhile_digits:
  "list_all is_digit ds \<Longrightarrow> rest = [] \<or> \<not> is_digit (hd rest) \<Longrightarrow> takeWhile is_digit (ds @ rest) = ds"
  by (cases rest) (induction ds, auto)+

lemma dropWhile_blanks: "list_all is_blank bs \<Longrightarrow> \<not> is_blank (hd s) \<Longrightarrow> s \<noteq> [] \<Longrightarrow>
    dropWhile is_blank (bs @ s) = s"
  by (induction bs) (auto simp: neq_Nil_conv)

text \<open>
  \<open>stoi\<close> reads back what a decimal printer writes: blanks, an optional minus sign and the
  digits of a number that fits an \<open>int\<close> give the number, whatever follows the digits (as long as it
  is not another digit).
\<close>

theorem stoi_decimal:
  assumes "list_all is_blank bs" "rest = [] \<or> \<not> is_digit (hd rest)"
    and "n < 2 ^ 31"
  shows "stoi (bs @ decimal n @ rest) = Some (int n) \<and>
    stoi (bs @ CHR ''-'' # decimal n @ rest) = Some (- int n)"
proof -
  obtain d ds where d: "decimal n = d # ds" using decimal_digits [of n] by (cases "decimal n") auto
  then have dig: "is_digit d" "list_all is_digit (d # ds)"
    using decimal_digits [of n] by auto
  have nd: "\<not> is_blank d" "d \<noteq> CHR ''-''" "d \<noteq> CHR ''+''" using not_digit_signs [OF dig(1)] by auto
  have minus: "\<not> is_blank (CHR ''-'')" by (simp add: is_blank_def)
  have ok: "int32_ok (int n)" "int32_ok (- int n)" using assms(3) by (auto simp: int32_ok_def)
  have tk: "takeWhile is_digit (d # ds @ rest) = d # ds"
    using takeWhile_digits [OF dig(2) assms(2)] by simp
  have dv: "digits_value (d # ds) = int n" using decimal_digits [of n] d by simp
  have 1: "dropWhile is_blank (bs @ d # ds @ rest) = d # ds @ rest"
    by (rule dropWhile_blanks [OF assms(1)]) (simp_all add: nd)
  have 2: "dropWhile is_blank (bs @ CHR ''-'' # d # ds @ rest) = CHR ''-'' # d # ds @ rest"
    by (rule dropWhile_blanks [OF assms(1)]) (simp_all add: minus)
  show ?thesis
    unfolding stoi_def Let_def d append_Cons 1 2 list.sel
    using nd ok tk dv by (simp del: takeWhile.simps)
qed

theorem stoi_decimal_witness: "stoi ''  4242abc'' = Some 4242 \<and> stoi ''  -4242abc'' = Some (- 4242)"
proof -
  have "decimal 4242 = ''4242''" by code_simp
  then show ?thesis
    using stoi_decimal [of "''  ''" "''abc''" 4242] by (simp add: is_blank_def is_digit_def)
qed

text \<open>
  The server runs exactly when the second argument is \<open>server\<close> and the third reads as a number
  between 1000 and 65535, and on that port; the client exactly when the second is \<open>client\<close>, there
  are two more and the last of them reads as an \<open>int\<close>: its port is not checked. In every other case
  the program writes two lines and returns 1.
\<close>

theorem main_decision:
  assumes "argv \<noteq> []"
  shows "(main argv = Inr (RunServer port) \<longleftrightarrow>
      2 < length argv \<and> argv ! 1 = ''server'' \<and> stoi (argv ! 2) = Some port \<and>
      1000 \<le> port \<and> port \<le> 65535) \<and>
    (main argv = Inr (RunClient host port') \<longleftrightarrow>
      3 < length argv \<and> argv ! 1 = ''client'' \<and> argv ! 2 = host \<and> stoi (argv ! 3) = Some port') \<and>
    ((\<exists>p. main argv = Inr (RunServer p)) \<or> (\<exists>h p. main argv = Inr (RunClient h p)) \<or>
      (\<exists>l1 l2. main argv = Inr (ReturnOne [l1, l2])))"
  using assms
  by (auto simp: main_def main_server_def main_client_def Let_def split: option.splits)

theorem main_decision_witness:
  "main [''boomberman'', ''server'', ''1234''] = Inr (RunServer 1234) \<and>
   main [''boomberman'', ''client'', ''127.0.0.1'', ''-5''] = Inr (RunClient ''127.0.0.1'' (- 5)) \<and>
   \<not> (\<exists>p. main [''boomberman'', ''server'', ''80''] = Inr (RunServer p))"
proof -
  have "stoi ''1234'' = Some 1234" "stoi ''-5'' = Some (- 5)" "stoi ''80'' = Some 80"
    by code_simp+
  then show ?thesis
    using main_decision [of "[''boomberman'', ''server'', ''1234'']" 1234]
      main_decision [of "[''boomberman'', ''client'', ''127.0.0.1'', ''-5'']" _ "''127.0.0.1''" "- 5"]
      main_decision [of "[''boomberman'', ''server'', ''80'']"]
    by simp
qed

end
