(* ===== verification/Proto.thy ===== *)
theory Proto
  imports Prelude
begin

section \<open>The messages (\<open>proto/messages.proto\<close>)\<close>

text \<open>
  The message types of the protocol. An enumeration of proto3 is open: a value outside the
  listed ones is kept, so \<open>MessageType\<close> and \<open>PlayerColor\<close> have a constructor for it. A
  \<open>GameMessage\<close> is a type and, independently of it, the \<open>oneof\<close> that is currently set; reading a
  member of the \<open>oneof\<close> that is not set gives the default instance. The encoder and decoder are
  generated by \<open>protoc\<close> and are fields of the world (theory \<open>World\<close>).
\<close>

datatype PlayerColor =
  PLAYER_RED | PLAYER_GREEN | PLAYER_BLUE | PLAYER_YELLOW | PlayerColor_other int

datatype MessageType =
  ERROR | GET_ROOM_LIST | JOIN_ROOM | I_PLACE_BOMB | I_MOVE | I_LEAVE | ROOM_LIST
| WELCOME_TO_ROOM | GAME_JOIN | GAME_START | OTHER_BOMB_PLACE | GOT_HIT | OTHER_MOVE
| OTHER_LEAVE | GAME_WON | MOVEMENT_CORRECTION | MessageType_other int

datatype GameRoom = GameRoom (gr_name: string) (gr_playerCount: int) (gr_maxPlayerCount: int)

datatype GamePlayer = GamePlayer (gp_username: string) (gp_color: PlayerColor)

datatype message_oneof =
  ErrorB string
| GetRoomListB
| JoinRoomB string "string option"
| IPlaceBombB f32 f32
| IMoveB f32 f32
| ILeaveB
| RoomListB "GameRoom list"
| WelcomeToRoomB "GamePlayer list"
| GameJoinB GamePlayer
| GameStartB
| OtherBombPlaceB string int f32 f32
| GotHitB string int int
| OtherMoveB string f32 f32
| OtherLeaveB string
| GameWonB string
| MovementCorrectionB f32 f32

record GameMessage =
  mtype :: MessageType
  oneof :: "message_oneof option"

definition GameMessage_default :: GameMessage where
  "GameMessage_default = \<lparr>mtype = ERROR, oneof = None\<rparr>"

subsection \<open>Members of the \<open>oneof\<close>\<close>

definition msg_error :: "GameMessage \<Rightarrow> string" where
  "msg_error m = (case oneof m of Some (ErrorB e) \<Rightarrow> e | _ \<Rightarrow> '''')"

definition msg_joinroom :: "GameMessage \<Rightarrow> string \<times> string option" where
  "msg_joinroom m = (case oneof m of Some (JoinRoomB u r) \<Rightarrow> (u, r) | _ \<Rightarrow> ('''', None))"

definition msg_iplacebomb :: "GameMessage \<Rightarrow> f32 \<times> f32" where
  "msg_iplacebomb m = (case oneof m of Some (IPlaceBombB x y) \<Rightarrow> (x, y) | _ \<Rightarrow> (Fin 0, Fin 0))"

definition msg_imove :: "GameMessage \<Rightarrow> f32 \<times> f32" where
  "msg_imove m = (case oneof m of Some (IMoveB x y) \<Rightarrow> (x, y) | _ \<Rightarrow> (Fin 0, Fin 0))"

definition msg_roomlist :: "GameMessage \<Rightarrow> GameRoom list" where
  "msg_roomlist m = (case oneof m of Some (RoomListB rs) \<Rightarrow> rs | _ \<Rightarrow> [])"

definition msg_welcometoroom :: "GameMessage \<Rightarrow> GamePlayer list" where
  "msg_welcometoroom m = (case oneof m of Some (WelcomeToRoomB ps) \<Rightarrow> ps | _ \<Rightarrow> [])"

definition msg_gamejoin :: "GameMessage \<Rightarrow> GamePlayer" where
  "msg_gamejoin m =
    (case oneof m of Some (GameJoinB p) \<Rightarrow> p | _ \<Rightarrow> GamePlayer '''' PLAYER_RED)"

definition msg_otherbombplace :: "GameMessage \<Rightarrow> string \<times> int \<times> f32 \<times> f32" where
  "msg_otherbombplace m =
    (case oneof m of Some (OtherBombPlaceB u t x y) \<Rightarrow> (u, t, x, y)
     | _ \<Rightarrow> ('''', 0, Fin 0, Fin 0))"

definition msg_gothit :: "GameMessage \<Rightarrow> string \<times> int \<times> int" where
  "msg_gothit m = (case oneof m of Some (GotHitB u l t) \<Rightarrow> (u, l, t) | _ \<Rightarrow> ('''', 0, 0))"

definition msg_othermove :: "GameMessage \<Rightarrow> string \<times> f32 \<times> f32" where
  "msg_othermove m =
    (case oneof m of Some (OtherMoveB u x y) \<Rightarrow> (u, x, y) | _ \<Rightarrow> ('''', Fin 0, Fin 0))"

definition msg_otherleave :: "GameMessage \<Rightarrow> string" where
  "msg_otherleave m = (case oneof m of Some (OtherLeaveB u) \<Rightarrow> u | _ \<Rightarrow> '''')"

definition msg_gamewon :: "GameMessage \<Rightarrow> string" where
  "msg_gamewon m = (case oneof m of Some (GameWonB u) \<Rightarrow> u | _ \<Rightarrow> '''')"

definition msg_movementcorrection :: "GameMessage \<Rightarrow> f32 \<times> f32" where
  "msg_movementcorrection m =
    (case oneof m of Some (MovementCorrectionB x y) \<Rightarrow> (x, y) | _ \<Rightarrow> (Fin 0, Fin 0))"

end
