(* ===== verification/World.thy ===== *)
theory World
  imports Proto
begin

section \<open>The world: clocks, sockets, random numbers, and \<open>shared/Util\<close>\<close>

text \<open>
  Everything outside the repository that the code reads or changes is one record passed
  explicitly: the system clock (\<open>clk n\<close> is what its n-th reading returns) and raylib's
  \<open>GetTime\<close>, the random numbers, the protobuf encoder and decoder, the kernel's sockets, and the
  heap of \<open>Connection\<close> objects, keyed by their address. The clocks, the random numbers and the codec are arbitrary
  functions: nothing is assumed of them unless a theorem says so.

  The kernel's answers to \<open>read\<close> and \<open>write\<close> are scripted: the events of a socket say how many
  bytes each call moves, or that it fails; once they are used up a call moves as much as it can.
  A read with nothing left to deliver returns 0, the end of the stream: an idle socket whose peer
  is still there, where the kernel waits for the timeout and then fails with -1, is a script with
  a \<open>ReadError\<close> at that place. Calls on a closed descriptor fail. \<open>out\<close> is what was written to each socket, \<open>sys\<close> the other system calls in
  the order they were made; what those whose result the code uses return (a descriptor, 0 or -1)
  are the successive values of \<open>kans\<close>. \<open>hash_order\<close> is the order in which a hash table with the
  given keys is iterated over (used where it is a permutation of them). Objects allocated on the heap get the address \<open>next_addr\<close>, and
  \<open>junk\<close> is what an uninitialised \<open>int\<close> of the object at an address happens to hold.
\<close>

datatype read_event = Deliver nat | ReadError

datatype write_event = Accept nat | WriteError

datatype syscall =
  SetTimeout int int int
| SocketCreate
| ReuseAddr int
| Bind int int
| Listen int int
| EpollCreate
| SigBlock
| SignalFd
| EpollAdd int int
| EpollDel int int
| AcceptOn int
| Shutdown int
| Close int
| TimerCreate
| TimerSet int int
| Connect int string int
| PollOn int

record connection =
  sock :: int
  msg :: GameMessage
  inboundQueue :: "GameMessage list"

record world =
  clk :: "nat \<Rightarrow> int"
  tick :: nat
  gtime :: "nat \<Rightarrow> rat"
  gtick :: nat
  rnd :: "nat \<Rightarrow> nat"
  rtick :: nat
  SerializeToArray :: "GameMessage \<Rightarrow> byte list"
  ParseFromArray :: "byte list \<Rightarrow> int \<Rightarrow> GameMessage"
  fd_open :: "int \<Rightarrow> bool"
  rd_pending :: "int \<Rightarrow> byte list"
  rd_events :: "int \<Rightarrow> read_event list"
  wr_events :: "int \<Rightarrow> write_event list"
  out :: "int \<Rightarrow> byte list"
  sys :: "syscall list"
  conns :: "int \<Rightarrow> connection option"
  kans :: "nat \<Rightarrow> int"
  ktick :: nat
  hash_order :: "string list \<Rightarrow> string list"
  next_addr :: nat
  junk :: "nat \<Rightarrow> int"

subsection \<open>\<open>shared/Util.cpp\<close>\<close>

definition TimestampMillis :: "world \<Rightarrow> int \<times> world" where
  "TimestampMillis w = (clk w (tick w), w\<lparr>tick := Suc (tick w)\<rparr>)"

text \<open>\<open>std::uniform_int_distribution (lo, hi)\<close>: a number between the two bounds, both included.\<close>

definition uniform_int :: "nat \<Rightarrow> nat \<Rightarrow> world \<Rightarrow> nat \<times> world" where
  "uniform_int lo hi w = (lo + rnd w (rtick w) mod (Suc hi - lo), w\<lparr>rtick := Suc (rtick w)\<rparr>)"

definition chrs :: string where
  "chrs = ''0123456789abcdefghijklmnopqrstuvwxyzABCDEFGHIJKLMNOPQRSTUVWXYZ''"

text \<open>\<open>pick(0, sizeof(chrs) - 2)\<close>: the array holds the terminating zero too.\<close>

fun RandomString_loop :: "nat \<Rightarrow> string \<Rightarrow> world \<Rightarrow> string \<times> world" where
  "RandomString_loop 0 result w = (result, w)"
| "RandomString_loop (Suc n) result w =
    (let (k, w1) = uniform_int 0 (Suc (length chrs) - 2) w
     in RandomString_loop n (result @ [chrs ! k]) w1)"

definition RandomString :: "nat \<Rightarrow> world \<Rightarrow> string \<times> world" where
  "RandomString n w = RandomString_loop n [] w"

definition iteration :: "world \<Rightarrow> string list \<Rightarrow> string list" where
  "iteration w ks = (if mset (hash_order w ks) = mset ks then hash_order w ks else ks)"

subsection \<open>System calls\<close>

text \<open>The result \<open>-1\<close> of a failing call, stored in a \<open>size_t\<close> as the code does.\<close>

abbreviation (input) minus_one :: size_t where "minus_one \<equiv> - 1"

definition sys_read :: "int \<Rightarrow> nat \<Rightarrow> world \<Rightarrow> size_t \<times> byte list \<times> world" where
  "sys_read fd n w =
    (if \<not> fd_open w fd then (minus_one, [], w)
     else case rd_events w fd of
       [] \<Rightarrow> (let d = take n (rd_pending w fd) in
         (of_nat (length d), d,
          w\<lparr>rd_pending := (rd_pending w)(fd := drop n (rd_pending w fd))\<rparr>))
     | Deliver k # es \<Rightarrow> (let d = take (min n k) (rd_pending w fd) in
         (of_nat (length d), d,
          w\<lparr>rd_pending := (rd_pending w)(fd := drop (min n k) (rd_pending w fd)),
            rd_events := (rd_events w)(fd := es)\<rparr>))
     | ReadError # es \<Rightarrow> (minus_one, [], w\<lparr>rd_events := (rd_events w)(fd := es)\<rparr>))"

definition sys_write :: "int \<Rightarrow> byte list \<Rightarrow> world \<Rightarrow> size_t \<times> world" where
  "sys_write fd bs w =
    (if \<not> fd_open w fd then (minus_one, w)
     else case wr_events w fd of
       [] \<Rightarrow> (of_nat (length bs), w\<lparr>out := (out w)(fd := out w fd @ bs)\<rparr>)
     | Accept k # es \<Rightarrow> (of_nat (min k (length bs)),
         w\<lparr>out := (out w)(fd := out w fd @ take k bs),
           wr_events := (wr_events w)(fd := es)\<rparr>)
     | WriteError # es \<Rightarrow> (minus_one, w\<lparr>wr_events := (wr_events w)(fd := es)\<rparr>))"

definition syscall :: "syscall \<Rightarrow> world \<Rightarrow> world" where
  "syscall c w = w\<lparr>sys := sys w @ [c]\<rparr>"

text \<open>A call whose result the code looks at.\<close>

definition sys_call :: "syscall \<Rightarrow> world \<Rightarrow> int \<times> world" where
  "sys_call c w = (kans w (ktick w), syscall c (w\<lparr>ktick := Suc (ktick w)\<rparr>))"

text \<open>A call that returns a new descriptor, or -1. A connection that is accepted starts with empty streams.\<close>

definition sys_open :: "syscall \<Rightarrow> world \<Rightarrow> int \<times> world" where
  "sys_open c w = (let (fd, w1) = sys_call c w in
     (fd, if fd = - 1 then w1 else w1\<lparr>fd_open := (fd_open w1)(fd := True)\<rparr>))"

definition sys_accept :: "int \<Rightarrow> world \<Rightarrow> int \<times> world" where
  "sys_accept srv w = (let (fd, w1) = sys_open (AcceptOn srv) w in
     (fd, if fd = - 1 then w1
       else w1\<lparr>rd_pending := (rd_pending w1)(fd := []), rd_events := (rd_events w1)(fd := []),
         wr_events := (wr_events w1)(fd := []), out := (out w1)(fd := [])\<rparr>))"

definition sys_close :: "int \<Rightarrow> world \<Rightarrow> world" where
  "sys_close fd w = syscall (Close fd) (w\<lparr>fd_open := (fd_open w)(fd := False)\<rparr>)"

subsection \<open>Random strings are alphanumeric and of the length asked for\<close>

lemma length_chrs: "length chrs = 62"
  by (simp add: chrs_def)

lemma uniform_int_bounds: "lo \<le> hi \<Longrightarrow> uniform_int lo hi w = (k, w') \<Longrightarrow> lo \<le> k \<and> k \<le> hi"
proof -
  assume le: "lo \<le> hi" and u: "uniform_int lo hi w = (k, w')"
  have "rnd w (rtick w) mod (Suc hi - lo) < Suc hi - lo" using le by simp
  moreover have "k = lo + rnd w (rtick w) mod (Suc hi - lo)"
    using u by (simp add: uniform_int_def)
  ultimately show ?thesis using le by linarith
qed

lemma RandomString_loop_chars:
  "RandomString_loop n acc w = (s, w') \<Longrightarrow>
    length s = length acc + n \<and> (set acc \<subseteq> set chrs \<longrightarrow> set s \<subseteq> set chrs)"
proof (induction n arbitrary: acc w)
  case 0
  then show ?case by simp
next
  case (Suc n)
  obtain k w1 where k: "uniform_int 0 (Suc (length chrs) - 2) w = (k, w1)"
    by fastforce
  have "k < length chrs"
    using uniform_int_bounds [OF _ k] by (simp add: length_chrs)
  moreover have "RandomString_loop n (acc @ [chrs ! k]) w1 = (s, w')"
    using Suc.prems k by simp
  ultimately show ?case using Suc.IH by fastforce
qed

text \<open>
  A random string has the length asked for and consists of the 62 alphanumeric characters:
  the pick never indexes the terminating zero of the character array or beyond it.
\<close>

theorem RandomString_alnum:
  "length (fst (RandomString n w)) = n \<and> set (fst (RandomString n w)) \<subseteq> set chrs"
  using RandomString_loop_chars [of n "[]" w]
  by (cases "RandomString_loop n [] w") (simp add: RandomString_def)

subsection \<open>A concrete world\<close>

text \<open>
  The world the witnesses run in: a clock that advances by 100 milliseconds at every reading,
  open sockets with nothing to read, and an encoder that gives every message two bytes.
\<close>

definition sample_world :: world where
  "sample_world =
    \<lparr>clk = (\<lambda>n. 1000 + 100 * int n), tick = 0, gtime = (\<lambda>_. 0), gtick = 0, rnd = (\<lambda>_. 0), rtick = 0,
     SerializeToArray = (\<lambda>_. [8, 1]), ParseFromArray = (\<lambda>_ _. GameMessage_default),
     fd_open = (\<lambda>_. True), rd_pending = (\<lambda>_. []), rd_events = (\<lambda>_. []),
     wr_events = (\<lambda>_. []), out = (\<lambda>_. []), sys = [], conns = (\<lambda>_. None), kans = (\<lambda>_. 0),
     ktick = 0, hash_order = id, next_addr = 1, junk = (\<lambda>_. 0)\<rparr>"

lemma sample_world_simps [simp]:
  "clk sample_world n = 1000 + 100 * int n" "tick sample_world = 0"
  "SerializeToArray sample_world m = [8, 1]" "fd_open sample_world fd"
  "rd_pending sample_world fd = []" "rd_events sample_world fd = []"
  "wr_events sample_world fd = []" "out sample_world fd = []" "sys sample_world = []"
  "conns sample_world fd = None" "next_addr sample_world = 1" "kans sample_world n = 0" "junk sample_world a = 0"
  by (simp_all add: sample_world_def)

end
