(* ===== verification/Connection.thy ===== *)
theory Connection
  imports World
begin

section \<open>The connection (\<open>shared/msg/Connection.h\<close>, \<open>shared/msg/Connection.cpp\<close>)\<close>

text \<open>
  A connection frames messages on a TCP stream: one byte with the length of the encoded
  message, then the encoded message. \<open>Receive\<close> reads up to 256 bytes, cuts them into messages
  and queues what it does not return; \<open>send\<close> writes one frame, resuming after short writes.
  Lengths and system call results live in \<open>size_t\<close>, as in the code, so the \<open>-1\<close> of a failing
  call is the largest \<open>size_t\<close>; the length byte is read through a \<open>char\<close>, which is signed on
  the platform the server is written for (x86-64 Linux, epoll).
\<close>

subsection \<open>Construction\<close>

abbreviation (input) CONN_TIMEOUT_MILLIS :: int where "CONN_TIMEOUT_MILLIS \<equiv> 1500"

text \<open>
  The constructor, on a new object, whose address it returns; setting the timeouts fails on a
  closed descriptor.
\<close>

definition Connection_new :: "int \<Rightarrow> world \<Rightarrow> (int \<times> world) res" where
  "Connection_new s w =
    (let sec = CONN_TIMEOUT_MILLIS mod 1000; usec = 1000 * (CONN_TIMEOUT_MILLIS mod 1000);
         p = int (next_addr w) in
     if \<not> fd_open w s then Inl (RuntimeError ''set read timeout on sock'')
     else let w1 = syscall (SetTimeout s sec usec) (syscall (SetTimeout s sec usec) w) in
       Inr (p, w1\<lparr>next_addr := Suc (next_addr w), conns := (conns w1)(p \<mapsto>
         \<lparr>sock = s, msg = GameMessage_default, inboundQueue = []\<rparr>)\<rparr>))"

subsection \<open>Receiving\<close>

text \<open>\<open>static_cast<size_t>(buf[0])\<close>: sign extension of the signed \<open>char\<close>.\<close>

definition size_of_char :: "byte \<Rightarrow> size_t" where
  "size_of_char b = signed b"

text \<open>The conversion of a \<open>size_t\<close> to the \<open>int\<close> parameter of \<open>ParseFromArray\<close>.\<close>

definition int_of_size :: "size_t \<Rightarrow> int" where
  "int_of_size n = sint (ucast n :: 32 word)"

text \<open>
  \<open>memmove(buf, buf + n, 256 - n)\<close> on a buffer of 256 bytes, for an \<open>n\<close> of at most 256. The loop below
  calls it with no other: \<open>n = msg_size + 1\<close> is at most \<open>bytes_received\<close>, which is at most 256 after a
  read that gave bytes; after a failed one the buffer is zero and \<open>n\<close> is 1. With the length byte
  \<open>0xFF\<close> the sum wraps around to 0 in the source too, and all 256 bytes are moved onto themselves.
\<close>

definition memmove :: "byte list \<Rightarrow> nat \<Rightarrow> byte list" where
  "memmove buf n = drop n buf @ drop (length buf - n) buf"

text \<open>
  The loop over the complete messages in the buffer. It need not stop: with the length byte
  \<open>0xFF\<close> the increment \<open>msg_size + 1\<close> is 0.
\<close>

partial_function (option) recv_drain ::
  "(byte list \<Rightarrow> int \<Rightarrow> GameMessage) \<Rightarrow> byte list \<Rightarrow> size_t \<Rightarrow> size_t \<Rightarrow> GameMessage list
    \<Rightarrow> (byte list \<times> size_t \<times> size_t \<times> GameMessage list) option" where
  "recv_drain parse buf msg_size bytes_received q =
    (if msg_size + 1 \<le> bytes_received then
       (let q' = q @ [parse (drop 1 buf) (int_of_size msg_size)];
            br = bytes_received - (msg_size + 1) in
        if br = 0 then Some (buf, msg_size, br, q')
        else (let buf' = memmove buf (unat (msg_size + 1)) in
          recv_drain parse buf' (size_of_char (hd buf')) br q'))
     else Some (buf, msg_size, bytes_received, q))"

declare recv_drain.simps [code]

text \<open>
  The loop that reads the rest of a partial message, a byte at a time; \<open>None\<close> is the return of
  \<open>std::nullopt\<close>. A byte stored past the end of the buffer is undefined.
\<close>

function recv_rest ::
  "int \<Rightarrow> byte list \<Rightarrow> size_t \<Rightarrow> size_t \<Rightarrow> world \<Rightarrow> (byte list option \<times> world) res" where
  "recv_rest fd buf read_total target w =
    (if target \<le> read_total then Inr (Some buf, w)
     else case sys_read fd 1 w of (n, d, w1) \<Rightarrow>
       if n = 0 then Inr (None, w1)
       else if d \<noteq> [] \<and> length buf \<le> unat read_total
         then Inl (Undefined ''read past the end of the buffer'')
       else recv_rest fd (if d = [] then buf else buf[unat read_total := hd d])
         (read_total + n) target w1)"
  by pat_completeness auto

lemma sys_read_one_cases:
  assumes "sys_read fd 1 w = (n, d, w1)" "n \<noteq> 0"
  shows "(\<not> fd_open w fd \<and> n = - 1 \<and> w1 = w) \<or>
    (fd_open w fd \<and> fd_open w1 fd \<and> length (rd_events w1 fd) < length (rd_events w fd) \<and>
      length (rd_pending w1 fd) \<le> length (rd_pending w fd)) \<or>
    (fd_open w fd \<and> fd_open w1 fd \<and> rd_events w1 fd = rd_events w fd \<and>
      length (rd_pending w1 fd) < length (rd_pending w fd))"
  using assms
  by (cases "rd_pending w fd")
    (auto simp: sys_read_def Let_def split: if_splits list.splits read_event.splits)

lemma size_pred_less: "(t::size_t) \<noteq> 0 \<Longrightarrow> unat (t - 1) < unat t"
  by (simp add: unat_minus_one unat_gt_0)

lemma size_pred_zero: "t = (0::size_t) \<Longrightarrow> t - 1 = - 1"
  by simp

lemma recv_rest_decreases:
  assumes r: "(n, d, w1) = sys_read fd (Suc 0) w" and n: "n \<noteq> 0" and lt: "\<not> u \<le> t"
  shows "((fd, buf', t + n, u, w1), (fd, buf, t, u, w)) \<in>
    measures [\<lambda>(fd, buf, t, u, w). length (rd_events w fd) + length (rd_pending w fd),
      \<lambda>(fd, buf, t, u, w). if u \<le> t then 0 else Suc (unat t)]"
proof -
  have "sys_read fd 1 w = (n, d, w1)" using r by simp
  from sys_read_one_cases [OF this n] consider
      "n = - 1" "w1 = w"
    | "length (rd_events w1 fd) + length (rd_pending w1 fd)
        < length (rd_events w fd) + length (rd_pending w fd)"
    by (elim disjE) auto
  then show ?thesis
  proof cases
    case 1
    have "u \<le> - 1" by (rule word_order.extremum)
    then show ?thesis
      using 1 lt size_pred_less [of t] by (cases "t = 0") auto
  qed simp
qed

termination recv_rest
  by (relation "measures [\<lambda>(fd, buf, t, u, w). length (rd_events w fd) + length (rd_pending w fd),
      \<lambda>(fd, buf, t, u, w). if u \<le> t then 0 else Suc (unat t)]")
    (auto simp del: in_measures intro!: recv_rest_decreases)

declare recv_rest.simps [simp del]

text \<open>
  \<open>Receive\<close>. The outer option is whether it returns at all, the sum whether it is free of
  undefined behaviour, the inner option the result of the code. \<open>p\<close> is the connection.
\<close>

definition set_queue :: "int \<Rightarrow> GameMessage list \<Rightarrow> world \<Rightarrow> world" where
  "set_queue p q w = (case conns w p of None \<Rightarrow> w
    | Some c \<Rightarrow> w\<lparr>conns := (conns w)(p \<mapsto> c\<lparr>inboundQueue := q\<rparr>)\<rparr>)"

definition pop_front :: "int \<Rightarrow> GameMessage list \<Rightarrow> world \<Rightarrow> (GameMessage option \<times> world) res" where
  "pop_front p q w = (case q of [] \<Rightarrow> Inl (Undefined ''front of an empty queue'')
    | m # ms \<Rightarrow> Inr (Some m, set_queue p ms w))"

definition Receive :: "int \<Rightarrow> world \<Rightarrow> (GameMessage option \<times> world) res option" where
  "Receive p w = (case conns w p of
     None \<Rightarrow> Some (Inl (Undefined ''use of a destroyed connection''))
   | Some c \<Rightarrow>
     if inboundQueue c \<noteq> [] then Some (pop_front p (inboundQueue c) w)
     else (case sys_read (sock c) 256 w of (bytes_received, d, w1) \<Rightarrow>
       if bytes_received = 0 then Some (Inr (None, w1))
       else let buf = d @ replicate (256 - length d) 0;
                msg_size = size_of_char (hd buf) in
         if bytes_received = msg_size + 1
         then Some (Inr (Some (ParseFromArray w (drop 1 buf) (int_of_size msg_size)), w1))
         else (case recv_drain (ParseFromArray w) buf msg_size bytes_received [] of
           None \<Rightarrow> None
         | Some (buf, msg_size, bytes_received, q) \<Rightarrow>
           Some (if bytes_received = 0 then pop_front p q w1
             else andThen (recv_rest (sock c) buf bytes_received (msg_size + 1) w1)
               (\<lambda>(r, w2). case r of
                  None \<Rightarrow> Inr (None, set_queue p q w2)
                | Some buf \<Rightarrow> pop_front p
                    (q @ [ParseFromArray w (drop 1 buf) (int_of_size msg_size)]) w2)))))"

definition HasMoreMessages :: "int \<Rightarrow> world \<Rightarrow> bool res" where
  "HasMoreMessages p w = (case conns w p of
     None \<Rightarrow> Inl (Undefined ''use of a destroyed connection'')
   | Some c \<Rightarrow> Inr (inboundQueue c \<noteq> []))"

text \<open>\<open>conn->sock\<close>.\<close>

definition conn_sock :: "int \<Rightarrow> world \<Rightarrow> int res" where
  "conn_sock c w = (case conns w c of
     None \<Rightarrow> Inl (Undefined ''use of a destroyed connection'') | Some cn \<Rightarrow> Inr (sock cn))"

subsection \<open>Sending\<close>

text \<open>The loop that resumes a short write, from \<open>total_sent\<close> on.\<close>

function send_rest :: "int \<Rightarrow> byte list \<Rightarrow> size_t \<Rightarrow> world \<Rightarrow> (int option \<times> world) res" where
  "send_rest fd frame total_sent w =
    (if length frame < unat total_sent \<or> 256 < length frame
       then Inl (Undefined ''write from outside the buffer'')
     else if unat total_sent = length frame then Inr (Some (int_of_size total_sent), w)
     else case sys_write fd (drop (unat total_sent) frame) w of (n, w1) \<Rightarrow>
       if n = 0 then Inr (None, w1) else send_rest fd frame (total_sent + n) w1)"
  by pat_completeness auto

lemma sys_write_cases:
  assumes "sys_write fd bs w = (n, w1)"
  shows "(\<not> fd_open w fd \<and> n = - 1 \<and> w1 = w) \<or>
    (fd_open w fd \<and> fd_open w1 fd \<and> length (wr_events w1 fd) < length (wr_events w fd)) \<or>
    (fd_open w fd \<and> fd_open w1 fd \<and> wr_events w1 fd = wr_events w fd \<and>
      n = of_nat (length bs))"
  using assms by (auto simp: sys_write_def split: if_splits list.splits write_event.splits)

lemma unat_size_small: "l \<le> 256 \<Longrightarrow> unat (of_nat l :: size_t) = l"
  by (simp add: unat_of_nat)

lemma size_add_rest:
  assumes "unat (t::size_t) \<le> l"
  shows "t + of_nat (l - unat t) = of_nat l"
proof -
  have "t + of_nat (l - unat t) = of_nat (unat t + (l - unat t))"
    by simp
  also have "\<dots> = of_nat l" using assms by simp
  finally show ?thesis .
qed

lemma unat_max_size: "unat (- 1 :: size_t) = 2 ^ 64 - 1"
  by (simp add: unsigned_minus_1_eq_mask mask_eq_exp_minus_1)

lemma send_rest_decreases:
  assumes r: "(n, w1) = sys_write fd (drop (unat t) frame) w"
    and lt: "unat t \<noteq> length frame" "\<not> length frame < unat t" "\<not> 256 < length frame"
  shows "((fd, frame, t + n, w1), (fd, frame, t, w)) \<in>
    measures [\<lambda>(fd, frame, t, w). length (wr_events w fd),
      \<lambda>(fd, frame, t, w). if length frame \<le> unat t then 0 else Suc (unat t)]"
proof -
  have "sys_write fd (drop (unat t) frame) w = (n, w1)" using r by simp
  from sys_write_cases [OF this] consider
      "n = - 1" "w1 = w"
    | "length (wr_events w1 fd) < length (wr_events w fd)"
    | "wr_events w1 fd = wr_events w fd" "n = of_nat (length frame - unat t)"
    by (elim disjE) auto
  then show ?thesis
  proof cases
    case 1
    have "length frame \<le> unat (- 1 :: size_t)" using lt by (simp add: unat_max_size)
    then show ?thesis using 1 lt size_pred_less [of t] by (cases "t = 0") auto
  next
    case 2
    then show ?thesis by simp
  next
    case 3
    have "unat (t + n) = length frame"
      using 3 lt size_add_rest [of t "length frame"] unat_size_small [of "length frame"] by simp
    then show ?thesis using 3 lt by simp
  qed
qed

termination send_rest
  by (relation "measures [\<lambda>(fd, frame, t, w). length (wr_events w fd),
      \<lambda>(fd, frame, t, w). if length frame \<le> unat t then 0 else Suc (unat t)]")
    (auto simp del: in_measures intro!: send_rest_decreases)

declare send_rest.simps [simp del]

text \<open>\<open>Connection::send\<close>: the encoded message in \<open>msg\<close>, behind its length byte.\<close>

definition send :: "int \<Rightarrow> world \<Rightarrow> (int option \<times> world) res" where
  "send p w = (case conns w p of
     None \<Rightarrow> Inl (Undefined ''use of a destroyed connection'')
   | Some c \<Rightarrow>
     (let payload = SerializeToArray w (msg c); msg_size = length payload in
      if msg_size > 255 then Inl (RuntimeError ''incorrect message size'')
      else let frame = of_nat msg_size # payload in
        (case sys_write (sock c) frame w of (bytes_sent, w1) \<Rightarrow>
          if bytes_sent = 0 \<or> bytes_sent > 255 then Inr (None, w1)
          else if unat bytes_sent = msg_size + 1 then Inr (Some (int_of_size bytes_sent), w1)
          else send_rest (sock c) frame bytes_sent w1)))"

text \<open>
  The \<open>Send\<close> functions set the type of the connection's message and all but two of them a
  member of the \<open>oneof\<close>; \<open>SendILeave\<close> and \<open>SendGameStart\<close> leave the previous one in place.
\<close>

definition send_with :: "int \<Rightarrow> (GameMessage \<Rightarrow> GameMessage) \<Rightarrow> world \<Rightarrow> (int option \<times> world) res" where
  "send_with p f w = (case conns w p of
     None \<Rightarrow> Inl (Undefined ''use of a destroyed connection'')
   | Some c \<Rightarrow> send p (w\<lparr>conns := (conns w)(p \<mapsto> c\<lparr>msg := f (msg c)\<rparr>)\<rparr>))"

definition SendError :: "string \<Rightarrow> int \<Rightarrow> world \<Rightarrow> (int option \<times> world) res" where
  "SendError e p = send_with p (\<lambda>m. m\<lparr>mtype := ERROR, oneof := Some (ErrorB e)\<rparr>)"

definition SendGetRoomList :: "int \<Rightarrow> world \<Rightarrow> (int option \<times> world) res" where
  "SendGetRoomList p = send_with p (\<lambda>m. m\<lparr>mtype := GET_ROOM_LIST, oneof := Some GetRoomListB\<rparr>)"

definition SendJoinRoom :: "string \<Rightarrow> string option \<Rightarrow> int \<Rightarrow> world \<Rightarrow> (int option \<times> world) res" where
  "SendJoinRoom name roomName p =
    send_with p (\<lambda>m. m\<lparr>mtype := JOIN_ROOM, oneof := Some (JoinRoomB name roomName)\<rparr>)"

definition SendIPlaceBomb :: "f32 \<Rightarrow> f32 \<Rightarrow> int \<Rightarrow> world \<Rightarrow> (int option \<times> world) res" where
  "SendIPlaceBomb x y p =
    send_with p (\<lambda>m. m\<lparr>mtype := I_PLACE_BOMB, oneof := Some (IPlaceBombB x y)\<rparr>)"

definition SendIMove :: "f32 \<Rightarrow> f32 \<Rightarrow> int \<Rightarrow> world \<Rightarrow> (int option \<times> world) res" where
  "SendIMove x y p = send_with p (\<lambda>m. m\<lparr>mtype := I_MOVE, oneof := Some (IMoveB x y)\<rparr>)"

definition SendILeave :: "int \<Rightarrow> world \<Rightarrow> (int option \<times> world) res" where
  "SendILeave p = send_with p (\<lambda>m. m\<lparr>mtype := I_LEAVE\<rparr>)"

definition SendRoomList :: "(string \<times> int \<times> int) list \<Rightarrow> int \<Rightarrow> world \<Rightarrow> (int option \<times> world) res" where
  "SendRoomList rs p = send_with p (\<lambda>m. m\<lparr>mtype := ROOM_LIST,
    oneof := Some (RoomListB (map (\<lambda>(n, k, mx). GameRoom n k mx) rs))\<rparr>)"

definition SendWelcomeToRoom ::
  "(string \<times> PlayerColor) list \<Rightarrow> int \<Rightarrow> world \<Rightarrow> (int option \<times> world) res" where
  "SendWelcomeToRoom ps p = send_with p (\<lambda>m. m\<lparr>mtype := WELCOME_TO_ROOM,
    oneof := Some (WelcomeToRoomB (map (\<lambda>(u, c). GamePlayer u c) ps))\<rparr>)"

definition SendGameJoin :: "string \<times> PlayerColor \<Rightarrow> int \<Rightarrow> world \<Rightarrow> (int option \<times> world) res" where
  "SendGameJoin pl p = send_with p (\<lambda>m. m\<lparr>mtype := GAME_JOIN,
    oneof := Some (GameJoinB (GamePlayer (fst pl) (snd pl)))\<rparr>)"

definition SendGameStart :: "int \<Rightarrow> world \<Rightarrow> (int option \<times> world) res" where
  "SendGameStart p = send_with p (\<lambda>m. m\<lparr>mtype := GAME_START\<rparr>)"

definition SendOtherBombPlace ::
  "string \<Rightarrow> int \<Rightarrow> f32 \<Rightarrow> f32 \<Rightarrow> int \<Rightarrow> world \<Rightarrow> (int option \<times> world) res" where
  "SendOtherBombPlace u t x y p = send_with p (\<lambda>m. m\<lparr>mtype := OTHER_BOMB_PLACE,
    oneof := Some (OtherBombPlaceB u t x y)\<rparr>)"

definition SendGotHit :: "string \<Rightarrow> int \<Rightarrow> int \<Rightarrow> int \<Rightarrow> world \<Rightarrow> (int option \<times> world) res" where
  "SendGotHit u l t p =
    send_with p (\<lambda>m. m\<lparr>mtype := GOT_HIT, oneof := Some (GotHitB u l t)\<rparr>)"

definition SendOtherMove :: "string \<Rightarrow> f32 \<Rightarrow> f32 \<Rightarrow> int \<Rightarrow> world \<Rightarrow> (int option \<times> world) res" where
  "SendOtherMove u x y p =
    send_with p (\<lambda>m. m\<lparr>mtype := OTHER_MOVE, oneof := Some (OtherMoveB u x y)\<rparr>)"

definition SendOtherLeave :: "string \<Rightarrow> int \<Rightarrow> world \<Rightarrow> (int option \<times> world) res" where
  "SendOtherLeave u p =
    send_with p (\<lambda>m. m\<lparr>mtype := OTHER_LEAVE, oneof := Some (OtherLeaveB u)\<rparr>)"

definition SendGameWon :: "string \<Rightarrow> int \<Rightarrow> world \<Rightarrow> (int option \<times> world) res" where
  "SendGameWon u p = send_with p (\<lambda>m. m\<lparr>mtype := GAME_WON, oneof := Some (GameWonB u)\<rparr>)"

definition SendMovementCorrection :: "f32 \<Rightarrow> f32 \<Rightarrow> int \<Rightarrow> world \<Rightarrow> (int option \<times> world) res" where
  "SendMovementCorrection x y p = send_with p (\<lambda>m. m\<lparr>mtype := MOVEMENT_CORRECTION,
    oneof := Some (MovementCorrectionB x y)\<rparr>)"

end
