(* ===== verification/ConnectionFacts.thy ===== *)
theory ConnectionFacts
  imports Connection
begin

section \<open>What sending and receiving do\<close>

text \<open>
  The lemmas about the connection: \<open>send\<close> changes only the socket's output and the connection's
  message (\<open>io_frame\<close>), writes exactly one frame however the kernel splits it, and \<open>Receive\<close>
  implements a queue of messages over the byte stream. The locale \<open>message_sender\<close> is the
  contract of the \<open>Send\<close> functions the room relies on.
\<close>

subsection \<open>The frame of a send\<close>

definition same_conn :: "connection \<Rightarrow> connection \<Rightarrow> bool" where
  "same_conn c c' \<longleftrightarrow> sock c' = sock c \<and> inboundQueue c' = inboundQueue c"

definition io_frame :: "world \<Rightarrow> world \<Rightarrow> bool" where
  "io_frame w w' \<longleftrightarrow> (\<exists>bs es cs. w' = w\<lparr>out := bs, wr_events := es, conns := cs\<rparr>) \<and>
    (\<forall>k. rel_option same_conn (conns w k) (conns w' k))"

lemma same_conn_refl [simp, intro]: "same_conn c c"
  by (simp add: same_conn_def)

lemma io_frame_refl [simp, intro]: "io_frame w w"
proof -
  have "w = w\<lparr>out := out w, wr_events := wr_events w, conns := conns w\<rparr>" by simp
  then show ?thesis unfolding io_frame_def by (blast intro: option.rel_refl)
qed

lemma io_frame_trans: "io_frame u v \<Longrightarrow> io_frame v w \<Longrightarrow> io_frame u w"
proof -
  assume uv: "io_frame u v" and vw: "io_frame v w"
  have "rel_option same_conn (conns u k) (conns w k)" for k
  proof -
    have "rel_option same_conn (conns u k) (conns v k)" "rel_option same_conn (conns v k) (conns w k)"
      using uv vw by (auto simp: io_frame_def)
    then show ?thesis
      by (auto simp: rel_option_iff same_conn_def split: option.splits)
  qed
  moreover have "\<exists>bs es cs. w = u\<lparr>out := bs, wr_events := es, conns := cs\<rparr>"
    using uv vw unfolding io_frame_def by force
  ultimately show ?thesis by (simp add: io_frame_def)
qed

lemma io_frame_fields:
  assumes "io_frame w w'"
  shows "clk w' = clk w" "tick w' = tick w" "gtime w' = gtime w" "gtick w' = gtick w"
    "rnd w' = rnd w" "rtick w' = rtick w" "SerializeToArray w' = SerializeToArray w"
    "ParseFromArray w' = ParseFromArray w" "fd_open w' = fd_open w" "rd_pending w' = rd_pending w"
    "rd_events w' = rd_events w" "sys w' = sys w" "next_addr w' = next_addr w" "junk w' = junk w"
  using assms by (auto simp: io_frame_def)

lemma io_frame_rel: "io_frame w w' \<Longrightarrow> rel_option same_conn (conns w k) (conns w' k)"
  unfolding io_frame_def by blast

lemma io_frame_conns:
  assumes "io_frame w w'"
  shows "conns w k = Some c \<Longrightarrow> \<exists>c'. conns w' k = Some c' \<and> sock c' = sock c"
    and "conns w' k = None \<longleftrightarrow> conns w k = None"
  using io_frame_rel [OF assms, of k]
  by (cases "conns w k"; cases "conns w' k"; simp add: same_conn_def)+

lemma io_frameI:
  "(\<And>k. rel_option same_conn (conns w k) (cs k)) \<Longrightarrow>
    io_frame w (w\<lparr>out := bs, wr_events := es, conns := cs\<rparr>)"
  by (auto simp: io_frame_def)

lemma io_frame_same_conns: "io_frame w (w\<lparr>out := bs, wr_events := es\<rparr>)"
proof -
  have "io_frame w (w\<lparr>out := bs, wr_events := es, conns := conns w\<rparr>)"
    by (rule io_frameI) (simp add: option.rel_refl)
  then show ?thesis by simp
qed

lemma io_frame_out: "io_frame w (w\<lparr>out := bs\<rparr>)"
  using io_frame_same_conns [where es = "wr_events w" and w = w and bs = bs] by simp

lemma io_frame_events: "io_frame w (w\<lparr>wr_events := es\<rparr>)"
  using io_frame_same_conns [where bs = "out w" and w = w and es = es] by simp

lemma sys_write_frame:
  "sys_write fd bs w = (n, w') \<Longrightarrow> io_frame w w' \<and> conns w' = conns w"
  by (auto simp: sys_write_def io_frame_same_conns io_frame_out io_frame_events
      split: if_splits list.splits write_event.splits)

lemma send_rest_frame:
  "send_rest fd frame t w = Inr (r, w') \<Longrightarrow> io_frame w w' \<and> conns w' = conns w"
proof (induction fd frame t w rule: send_rest.induct)
  case (1 fd frame t w)
  obtain n w1 where n: "sys_write fd (drop (unat t) frame) w = (n, w1)" by fastforce
  show ?case
    using "1.prems" "1.IH" [OF _ _ n [symmetric]] sys_write_frame [OF n]
    by (auto simp: send_rest.simps [of fd frame t w] n intro: io_frame_trans split: if_splits)
qed

lemma send_frame:
  "send p w = Inr (r, w') \<Longrightarrow> io_frame w w' \<and> conns w' = conns w"
  unfolding send_def
  by (auto simp: Let_def split: option.splits if_splits prod.splits
      dest!: sys_write_frame send_rest_frame intro: io_frame_trans)

lemma send_with_frame:
  assumes "send_with p f w = Inr (r, w')"
  shows "io_frame w w'"
proof -
  obtain c where c: "conns w p = Some c"
      "send p (w\<lparr>conns := (conns w)(p \<mapsto> c\<lparr>msg := f (msg c)\<rparr>)\<rparr>) = Inr (r, w')"
    using assms by (auto simp: send_with_def split: option.splits)
  have "io_frame w (w\<lparr>out := out w, wr_events := wr_events w,
      conns := (conns w)(p \<mapsto> c\<lparr>msg := f (msg c)\<rparr>)\<rparr>)"
    by (rule io_frameI) (use c(1) in \<open>auto simp: same_conn_def option.rel_refl\<close>)
  then have "io_frame w (w\<lparr>conns := (conns w)(p \<mapsto> c\<lparr>msg := f (msg c)\<rparr>)\<rparr>)" by simp
  then show ?thesis using send_frame [OF c(2)] io_frame_trans by blast
qed

subsection \<open>The contract of the \<open>Send\<close> functions\<close>

text \<open>
  What the room relies on: whatever a \<open>Send\<close> function answers, it has only written to sockets
  and set the message of connections; no connection appears, disappears or changes its socket.
\<close>

locale message_sender =
  fixes f :: "int \<Rightarrow> world \<Rightarrow> (int option \<times> world) res"
  assumes frame: "f c w = Inr (b, w') \<Longrightarrow> io_frame w w'"

lemma message_sender_send_with: "message_sender (\<lambda>p. send_with p g)"
  by unfold_locales (rule send_with_frame)

interpretation snd_error: message_sender "SendError e" for e
  unfolding SendError_def [abs_def] by (rule message_sender_send_with)

interpretation snd_roomlist: message_sender "SendRoomList rs" for rs
  unfolding SendRoomList_def [abs_def] by (rule message_sender_send_with)

interpretation snd_welcome: message_sender "SendWelcomeToRoom ps" for ps
  unfolding SendWelcomeToRoom_def [abs_def] by (rule message_sender_send_with)

interpretation snd_gamejoin: message_sender "SendGameJoin pl" for pl
  unfolding SendGameJoin_def [abs_def] by (rule message_sender_send_with)

interpretation snd_gamestart: message_sender SendGameStart
  unfolding SendGameStart_def [abs_def] by (rule message_sender_send_with)

interpretation snd_bomb: message_sender "SendOtherBombPlace u t x y" for u t x y
  unfolding SendOtherBombPlace_def [abs_def] by (rule message_sender_send_with)

interpretation snd_hit: message_sender "SendGotHit u l t" for u l t
  unfolding SendGotHit_def [abs_def] by (rule message_sender_send_with)

interpretation snd_move: message_sender "SendOtherMove u x y" for u x y
  unfolding SendOtherMove_def [abs_def] by (rule message_sender_send_with)

interpretation snd_leave: message_sender "SendOtherLeave u" for u
  unfolding SendOtherLeave_def [abs_def] by (rule message_sender_send_with)

interpretation snd_won: message_sender "SendGameWon u" for u
  unfolding SendGameWon_def [abs_def] by (rule message_sender_send_with)

interpretation snd_correction: message_sender "SendMovementCorrection x y" for x y
  unfolding SendMovementCorrection_def [abs_def] by (rule message_sender_send_with)

lemmas senders [intro, simp] =
  snd_error.message_sender_axioms snd_roomlist.message_sender_axioms
  snd_welcome.message_sender_axioms snd_gamejoin.message_sender_axioms
  snd_gamestart.message_sender_axioms snd_bomb.message_sender_axioms
  snd_hit.message_sender_axioms snd_move.message_sender_axioms
  snd_leave.message_sender_axioms snd_won.message_sender_axioms
  snd_correction.message_sender_axioms

subsection \<open>Sending writes one frame\<close>

definition frame_of :: "byte list \<Rightarrow> byte list" where
  "frame_of payload = of_nat (length payload) # payload"

definition accepts :: "write_event \<Rightarrow> bool" where
  "accepts e \<longleftrightarrow> (case e of Accept k \<Rightarrow> 1 \<le> k | WriteError \<Rightarrow> False)"

lemma sint_byte: "sint (of_nat n :: byte) = signed_take_bit 7 (int n)"
  using sint_sbintrunc' [where 'a = 8, of "int n"] by simp

lemma int_of_size_small:
  assumes "n \<le> 256"
  shows "int_of_size (of_nat n) = int n"
proof -
  have n: "take_bit 64 n = n"
    using assms by (simp add: take_bit_nat_eq_self_iff)
  have "sint (word_of_int (int n) :: 32 word) = signed_take_bit 31 (int n)"
    using sint_sbintrunc' [where 'a = 32, of "int n"] by simp
  also have "\<dots> = int n" using assms by (simp add: signed_take_bit_int_eq_self)
  finally show ?thesis by (simp add: int_of_size_def unsigned_of_nat n)
qed

lemma int_of_size_unat: "unat t \<le> 256 \<Longrightarrow> int_of_size t = int (unat t)"
  using int_of_size_small [of "unat t"] by simp

lemma size_of_char_small:
  assumes "n \<le> 127"
  shows "size_of_char (of_nat n) = of_nat n"
proof -
  have "sint (of_nat n :: byte) = int n"
    unfolding sint_byte using assms by (simp add: signed_take_bit_int_eq_self)
  then have "(signed (of_nat n :: byte) :: size_t) = of_int (int n)"
    by (metis of_int_sint)
  then show ?thesis by (simp add: size_of_char_def)
qed

text \<open>From 128 on the sign is extended: the size is \<open>n - 256\<close> modulo \<open>2 ^ 64\<close>.\<close>

lemma size_of_char_large:
  assumes "128 \<le> n" "n \<le> 255"
  shows "size_of_char (of_nat n) = - of_nat (256 - n)"
proof -
  have "signed_take_bit 7 (int n) = signed_take_bit 7 (int n - 256)"
    by (simp add: signed_take_bit_eq_iff_take_bit_eq take_bit_eq_mod)
  also have "\<dots> = int n - 256"
    using assms by (simp add: signed_take_bit_int_eq_self)
  finally have "sint (of_nat n :: byte) = - int (256 - n)"
    unfolding sint_byte using assms by simp
  then have "(signed (of_nat n :: byte) :: size_t) = of_int (- int (256 - n))"
    by (metis of_int_sint)
  then show ?thesis by (simp add: size_of_char_def)
qed

lemma of_nat_size_nonzero: "1 \<le> n \<Longrightarrow> n \<le> 256 \<Longrightarrow> (of_nat n :: size_t) \<noteq> 0"
proof
  assume "1 \<le> n" "n \<le> 256" "(of_nat n :: size_t) = 0"
  then show False using unat_size_small [of n] by simp
qed

text \<open>Short writes are resumed until the frame is out.\<close>

lemma send_rest_delivers:
  assumes "fd_open w fd" "list_all accepts (wr_events w fd)" "unat t \<le> length frame" "length frame \<le> 256"
  shows "\<exists>w'. send_rest fd frame t w = Inr (Some (int (length frame)), w') \<and>
    out w' = (out w)(fd := out w fd @ drop (unat t) frame)"
  using assms
proof (induction fd frame t w rule: send_rest.induct)
  case (1 fd frame t w)
  show ?case
  proof (cases "unat t = length frame")
    case True
    then show ?thesis using int_of_size_unat [of t] "1.prems"(3,4)
      by (simp add: send_rest.simps [of fd frame t w])
  next
    case False
    then have lt: "unat t < length frame" using "1.prems"(3) by simp
    show ?thesis
    proof (cases "wr_events w fd")
      case Nil
      let ?w1 = "w\<lparr>out := (out w)(fd := out w fd @ drop (unat t) frame)\<rparr>"
      have wr: "sys_write fd (drop (unat t) frame) w = (of_nat (length frame - unat t), ?w1)"
        using "1.prems"(1) Nil by (simp add: sys_write_def)
      have t': "unat (t + of_nat (length frame - unat t)) = length frame"
        using size_add_rest [of t "length frame"] lt unat_size_small [of "length frame"] "1.prems"(4)
        by simp
      have nz: "(of_nat (length frame - unat t) :: size_t) \<noteq> 0"
        using lt "1.prems"(4) by (intro of_nat_size_nonzero) simp_all
      have IH: "\<exists>w'. send_rest fd frame (t + of_nat (length frame - unat t)) ?w1 =
          Inr (Some (int (length frame)), w') \<and>
          out w' = (out ?w1)(fd := out ?w1 fd @ drop (unat (t + of_nat (length frame - unat t))) frame)"
        by (rule "1.IH" [OF _ False wr [symmetric] nz])
          (use "1.prems" lt t' Nil in auto)
      then obtain w' where w': "send_rest fd frame (t + of_nat (length frame - unat t)) ?w1 =
          Inr (Some (int (length frame)), w')"
          "out w' = (out w)(fd := out w fd @ drop (unat t) frame)"
        unfolding t' by auto
      have "send_rest fd frame t w = Inr (Some (int (length frame)), w')"
        using wr lt nz w'(1) "1.prems"(4) by (simp add: send_rest.simps [of fd frame t w] del: of_nat_diff)
      with w'(2) show ?thesis by blast
    next
      case (Cons e es)
      then obtain k where e: "e = Accept k" "1 \<le> k"
        using "1.prems"(2) by (auto simp: accepts_def split: write_event.splits)
      let ?k = "min k (length frame - unat t)"
      let ?w1 = "w\<lparr>out := (out w)(fd := out w fd @ take k (drop (unat t) frame)),
          wr_events := (wr_events w)(fd := es)\<rparr>"
      have wr: "sys_write fd (drop (unat t) frame) w = (of_nat ?k, ?w1)"
        using "1.prems"(1) Cons e by (simp add: sys_write_def)
      have t': "unat (t + of_nat ?k) = unat t + ?k"
      proof -
        have "t + of_nat ?k = of_nat (unat t + ?k)" by simp
        then show ?thesis using unat_size_small [of "unat t + ?k"] lt "1.prems"(4) by simp
      qed
      have nz: "(of_nat ?k :: size_t) \<noteq> 0"
        using lt e "1.prems"(4) by (intro of_nat_size_nonzero) simp_all
      have IH: "\<exists>w'. send_rest fd frame (t + of_nat ?k) ?w1 = Inr (Some (int (length frame)), w') \<and>
          out w' = (out ?w1)(fd := out ?w1 fd @ drop (unat (t + of_nat ?k)) frame)"
        by (rule "1.IH" [OF _ False wr [symmetric] nz])
          (use "1.prems" lt t' Cons in auto)
      then obtain w' where w': "send_rest fd frame (t + of_nat ?k) ?w1 =
          Inr (Some (int (length frame)), w')"
          "out w' = (out w)(fd := (out w fd @ take k (drop (unat t) frame)) @ drop (unat t + ?k) frame)"
        unfolding t' by auto
      have "take k (drop (unat t) frame) @ drop (unat t + ?k) frame = drop (unat t) frame"
        by (cases "k \<le> length frame - unat t")
          (simp_all add: min_def add.commute flip: drop_drop)
      then have out: "out w' = (out w)(fd := out w fd @ drop (unat t) frame)"
        using w'(2) by simp
      have "send_rest fd frame t w = Inr (Some (int (length frame)), w')"
        using wr lt nz w'(1) "1.prems"(4) by (simp add: send_rest.simps [of fd frame t w])
      with out show ?thesis by blast
    qed
  qed
qed

text \<open>The state of a connection that can send: its object exists and its socket is open.\<close>

definition can_send :: "int \<Rightarrow> world \<Rightarrow> byte list \<Rightarrow> bool" where
  "can_send p w payload \<longleftrightarrow> (case conns w p of None \<Rightarrow> False
    | Some c \<Rightarrow> fd_open w (sock c) \<and> list_all accepts (wr_events w (sock c)) \<and>
        payload = SerializeToArray w (msg c))"

definition sock_of :: "int \<Rightarrow> world \<Rightarrow> int" where
  "sock_of p w = (case conns w p of None \<Rightarrow> - 1 | Some c \<Rightarrow> sock c)"

lemma send_delivers:
  assumes "can_send p w payload" "length payload \<le> 254"
  shows "\<exists>w'. send p w = Inr (Some (int (length payload) + 1), w') \<and>
    out w' = (out w)(sock_of p w := out w (sock_of p w) @ frame_of payload)"
proof -
  obtain c where c: "conns w p = Some c" "fd_open w (sock c)"
      "list_all accepts (wr_events w (sock c))" "payload = SerializeToArray w (msg c)"
    using assms(1) by (auto simp: can_send_def split: option.splits)
  let ?fr = "frame_of payload"
  have len: "length ?fr = Suc (length payload)" "length ?fr \<le> 256"
    using assms(2) by (simp_all add: frame_of_def)
  have s: "sock_of p w = sock c" using c(1) by (simp add: sock_of_def)
  have unfold: "send p w = (case sys_write (sock c) ?fr w of (bytes_sent, w1) \<Rightarrow>
      if bytes_sent = 0 \<or> bytes_sent > 255 then Inr (None, w1)
      else if unat bytes_sent = length payload + 1 then Inr (Some (int_of_size bytes_sent), w1)
      else send_rest (sock c) ?fr bytes_sent w1)"
    using c(1) assms(2) unfolding send_def frame_of_def c(4) by (simp add: Let_def)
  show ?thesis
  proof (cases "wr_events w (sock c)")
    case Nil
    have wr: "sys_write (sock c) ?fr w = (of_nat (length ?fr), w\<lparr>out := (out w)(sock c := out w (sock c) @ ?fr)\<rparr>)"
      using c(2) Nil by (simp add: sys_write_def)
    have u: "unat (of_nat (length ?fr) :: size_t) = length ?fr" by (rule unat_size_small [OF len(2)])
    have nz: "(of_nat (length ?fr) :: size_t) \<noteq> 0"
      using len by (intro of_nat_size_nonzero) simp_all
    have small: "\<not> (255 < (of_nat (length ?fr) :: size_t))"
      using u len assms(2) by (simp add: word_less_nat_alt)
    show ?thesis
      using s unfold wr nz small u len int_of_size_small [OF len(2)] by simp
  next
    case (Cons e es)
    then obtain k where e: "e = Accept k" "1 \<le> k" "list_all accepts es"
      using c(3) by (auto simp: accepts_def split: write_event.splits)
    let ?k = "min k (length ?fr)"
    let ?w1 = "w\<lparr>out := (out w)(sock c := out w (sock c) @ take k ?fr),
        wr_events := (wr_events w)(sock c := es)\<rparr>"
    have wr: "sys_write (sock c) ?fr w = (of_nat ?k, ?w1)"
      using c(2) Cons e by (simp add: sys_write_def)
    have u: "unat (of_nat ?k :: size_t) = ?k" using len by (intro unat_size_small) simp
    have nz: "(of_nat ?k :: size_t) \<noteq> 0"
      using len e by (intro of_nat_size_nonzero) simp_all
    have small: "\<not> (255 < (of_nat ?k :: size_t))"
      using u len assms(2) by (simp add: word_less_nat_alt)
    show ?thesis
    proof (cases "?k = length payload + 1")
      case True
      then have "take k ?fr = ?fr" using len by simp
      then show ?thesis
        using s unfold wr nz small u True len int_of_size_small [OF len(2)] by simp
    next
      case False
      obtain w' where "send_rest (sock c) ?fr (of_nat ?k) ?w1 = Inr (Some (int (length ?fr)), w')"
          "out w' = (out ?w1)(sock c := out ?w1 (sock c) @ drop ?k ?fr)"
        using send_rest_delivers [of ?w1 "sock c" "of_nat ?k" ?fr] c(2) e(3) u len by auto
      moreover have "take k ?fr @ drop ?k ?fr = ?fr"
        by (metis append_take_drop_id min.absorb1 min.absorb2 nle_le take_all drop_all append_Nil2)
      ultimately show ?thesis using s unfold wr nz small u False len by auto
    qed
  qed
qed

text \<open>
  Sending writes exactly one frame. On an open socket, however the kernel splits the write
  (every write that takes at least one byte and does not fail), a message of at most 254
  encoded bytes goes out as its length byte followed by its encoding, once, and \<open>send\<close> answers
  with the number of bytes.
\<close>

theorem send_writes_one_frame:
  assumes "can_send p w payload" and "length payload \<le> 254"
  shows "\<exists>w'. send p w = Inr (Some (int (length payload) + 1), w') \<and>
    out w' = (out w)(sock_of p w := out w (sock_of p w) @ of_nat (length payload) # payload)"
  using send_delivers [OF assms] by (simp add: frame_of_def)

theorem send_writes_one_frame_witness:
  "\<exists>w'. send 5 (sample_world\<lparr>conns := [5 \<mapsto> \<lparr>sock = 5, msg = GameMessage_default, inboundQueue = []\<rparr>],
      wr_events := (\<lambda>_. [Accept 1])\<rparr>) = Inr (Some 3, w') \<and> out w' 5 = [2, 8, 1]"
  using send_writes_one_frame [of 5 "sample_world\<lparr>conns := [5 \<mapsto> \<lparr>sock = 5, msg = GameMessage_default,
      inboundQueue = []\<rparr>], wr_events := (\<lambda>_. [Accept 1])\<rparr>" "[8, 1]"]
  by (auto simp: can_send_def accepts_def sock_of_def)

text \<open>
  C36. The limits of \<open>send\<close>. A message of more than 255 encoded bytes makes \<open>send\<close> throw; one of
  exactly 255 bytes, the largest it means to accept, is written completely when the kernel
  takes it in one write, and reported as a failure all the same.
\<close>

theorem send_limits:
  assumes "can_send p w payload"
  shows "(255 < length payload \<longrightarrow> send p w = Inl (RuntimeError ''incorrect message size'')) \<and>
    (length payload = 255 \<and> wr_events w (sock_of p w) = [] \<longrightarrow>
      (\<exists>w'. send p w = Inr (None, w') \<and>
        out w' = (out w)(sock_of p w := out w (sock_of p w) @ 255 # payload)))"
proof -
  obtain c where c: "conns w p = Some c" "fd_open w (sock c)" "payload = SerializeToArray w (msg c)"
    using assms by (auto simp: can_send_def split: option.splits)
  have "send p w = Inl (RuntimeError ''incorrect message size'')" if "255 < length payload"
    using that c by (simp add: send_def Let_def)
  moreover have "\<exists>w'. send p w = Inr (None, w') \<and>
      out w' = (out w)(sock_of p w := out w (sock_of p w) @ 255 # payload)"
    if "length payload = 255" "wr_events w (sock_of p w) = []"
    using that c by (simp add: send_def Let_def sys_write_def sock_of_def)
  ultimately show ?thesis by blast
qed

theorem send_limits_witness:
  "send 5 (sample_world\<lparr>conns := [5 \<mapsto> \<lparr>sock = 5, msg = GameMessage_default, inboundQueue = []\<rparr>],
      SerializeToArray := (\<lambda>_. replicate 256 0)\<rparr>) = Inl (RuntimeError ''incorrect message size'')"
  using send_limits [of 5 "sample_world\<lparr>conns := [5 \<mapsto> \<lparr>sock = 5, msg = GameMessage_default,
      inboundQueue = []\<rparr>], SerializeToArray := (\<lambda>_. replicate 256 0)\<rparr>" "replicate 256 0"]
  by (simp add: can_send_def)


subsection \<open>What a \<open>Receive\<close> can change\<close>

text \<open>A relation between worlds that reading and queueing keep is kept by \<open>Receive\<close>.\<close>

lemma recv_rest_rel:
  assumes "recv_rest fd buf t u w = Inr (r, w')"
    and refl: "\<And>u. R u u" and trans: "\<And>u v w. R u v \<Longrightarrow> R v w \<Longrightarrow> R u w"
    and read: "\<And>fd n u k d v. sys_read fd n u = (k, d, v) \<Longrightarrow> R u v"
  shows "R w w'"
  using assms(1)
proof (induction fd buf t u w rule: recv_rest.induct)
  case (1 fd buf t u w)
  obtain n d w1 where n: "sys_read fd 1 w = (n, d, w1)" by (metis prod_cases3)
  show ?case
    using "1.prems" "1.IH" [OF _ n [symmetric]] read [OF n] n refl trans
    by (subst (asm) recv_rest.simps) (auto split: if_splits)
qed

lemma Receive_rel:
  assumes run: "Receive p w = Some (Inr (m, w'))"
    and refl: "\<And>u. R u u" and trans: "\<And>u v w. R u v \<Longrightarrow> R v w \<Longrightarrow> R u w"
    and read: "\<And>fd n u k d v. sys_read fd n u = (k, d, v) \<Longrightarrow> R u v"
    and queue: "\<And>q u. R u (set_queue p q u)"
  shows "R w w'"
proof -
  obtain c where c: "conns w p = Some c" using run by (auto simp: Receive_def split: option.splits)
  have pop: "pop_front p q u = Inr (x, v) \<Longrightarrow> R u v" for q u x v
    by (auto simp: pop_front_def queue split: list.splits)
  show ?thesis
  proof (cases "inboundQueue c = []")
    case False
    then show ?thesis using run c pop by (auto simp: Receive_def)
  next
    case True
    obtain br d w1 where rd: "sys_read (sock c) 256 w = (br, d, w1)" by (metis prod_cases3)
    let ?buf = "d @ replicate (256 - length d) 0"
    have "R w1 w'"
    proof (cases "br = 0 \<or> br = size_of_char (hd ?buf) + 1")
      case True
      then show ?thesis using run c rd \<open>inboundQueue c = []\<close> refl
        by (auto simp: Receive_def Let_def split: if_splits)
    next
      case more: False
      then obtain buf n b q where dr:
          "recv_drain (ParseFromArray w) ?buf (size_of_char (hd ?buf)) br [] = Some (buf, n, b, q)"
        using run c rd True
        by (cases "recv_drain (ParseFromArray w) ?buf (size_of_char (hd ?buf)) br []")
          (auto simp: Receive_def Let_def)
      then have r: "(if b = 0 then pop_front p q w1
          else andThen (recv_rest (sock c) buf b (n + 1) w1) (\<lambda>(r, w2). case r of
            None \<Rightarrow> Inr (None, set_queue p q w2)
          | Some buf \<Rightarrow> pop_front p (q @ [ParseFromArray w (drop 1 buf) (int_of_size n)]) w2))
          = Inr (m, w')"
        using run c rd True more by (simp add: Receive_def Let_def split: if_splits)
      show ?thesis
      proof (cases "b = 0")
        case True
        then show ?thesis using r pop by simp
      next
        case False
        then obtain x w2 where w2: "recv_rest (sock c) buf b (n + 1) w1 = Inr (x, w2)"
            "(case x of None \<Rightarrow> Inr (None, set_queue p q w2)
              | Some buf \<Rightarrow> pop_front p (q @ [ParseFromArray w (drop 1 buf) (int_of_size n)]) w2) = Inr (m, w')"
          using r by auto
        have "R w1 w2" by (rule recv_rest_rel [OF w2(1), where R = R]) (use refl trans read in blast)+
        moreover have "R w2 w'" using w2(2) queue pop by (cases x) auto
        ultimately show ?thesis by (rule trans)
      qed
    qed
    then show ?thesis using trans [OF read [OF rd]] by simp
  qed
qed

lemma sys_read_out: "sys_read fd n w = (k, d, w') \<Longrightarrow> out w' = out w"
  by (auto simp: sys_read_def Let_def split: if_splits list.splits read_event.splits)

lemma Receive_out: "Receive p w = Some (Inr (m, w')) \<Longrightarrow> out w' = out w"
  by (erule Receive_rel [where R = "\<lambda>u v. out v = out u"])
    (auto simp: set_queue_def sys_read_out split: option.splits)

end
