(* ===== verification/ReceiveFacts.thy ===== *)
theory ReceiveFacts
  imports ConnectionFacts
begin

section \<open>Receiving is a queue of messages\<close>

text \<open>
  The specification of \<open>Receive\<close>: over a byte stream that is the concatenation of the frames of
  messages of at most 127 bytes, however the kernel cuts it, \<open>Receive\<close> is the removal of the
  first message of a queue (\<open>incoming\<close>). The locale \<open>message_source\<close> states that contract for
  its clients. The last part shows what happens outside it: the sign of the length byte and the
  value \<open>-1\<close> of a failing read.
\<close>

subsection \<open>The contract of a source of messages\<close>

fun take_messages :: "('w \<Rightarrow> ('m option \<times> 'w) res option) \<Rightarrow> nat \<Rightarrow> 'w \<Rightarrow> ('m list \<times> 'w) option" where
  "take_messages recv 0 w = Some ([], w)"
| "take_messages recv (Suc n) w =
    (case recv w of
       Some (Inr (Some m, w')) \<Rightarrow>
         (case take_messages recv n w' of Some (ms, w'') \<Rightarrow> Some (m # ms, w'') | None \<Rightarrow> None)
     | _ \<Rightarrow> None)"

locale message_source =
  fixes recv :: "'w \<Rightarrow> ('m option \<times> 'w) res option"
    and holds :: "'w \<Rightarrow> 'm list \<Rightarrow> bool"
  assumes next_message: "holds w (m # ms) \<Longrightarrow> \<exists>w'. recv w = Some (Inr (Some m, w')) \<and> holds w' ms"
    and no_message: "holds w [] \<Longrightarrow> \<exists>w'. recv w = Some (Inr (None, w')) \<and> holds w' []"
begin

lemma in_order:
  "holds w (ms @ ms') \<Longrightarrow> \<exists>w'. take_messages recv (length ms) w = Some (ms, w') \<and> holds w' ms'"
proof (induction ms arbitrary: w)
  case Nil
  then show ?case by simp
next
  case (Cons m ms)
  then obtain w1 where w1: "recv w = Some (Inr (Some m, w1))" "holds w1 (ms @ ms')"
    using next_message [of w m "ms @ ms'"] by auto
  with Cons.IH [OF w1(2)] show ?case by auto
qed

lemma never_invents:
  assumes "holds w ms" "length ms < n"
  shows "take_messages recv n w = None"
  using assms
proof (induction n arbitrary: w ms)
  case (Suc n)
  show ?case
  proof (cases ms)
    case Nil
    then show ?thesis using no_message [of w] Suc.prems by auto
  next
    case (Cons m ms1)
    then obtain w1 where "recv w = Some (Inr (Some m, w1))" "holds w1 ms1"
      using next_message [of w m ms1] Suc.prems by auto
    then show ?thesis using Suc.IH [of w1 ms1] Suc.prems Cons by simp
  qed
qed simp

end

subsection \<open>The byte stream\<close>

definition decodable :: "world \<Rightarrow> GameMessage \<Rightarrow> bool" where
  "decodable w m \<longleftrightarrow> length (SerializeToArray w m) \<le> 127 \<and>
    (\<forall>rest. ParseFromArray w (SerializeToArray w m @ rest) (int (length (SerializeToArray w m))) = m)"

definition wire :: "world \<Rightarrow> GameMessage list \<Rightarrow> byte list" where
  "wire w ms = concat (map (\<lambda>m. frame_of (SerializeToArray w m)) ms)"

lemma wire_simps [simp]:
  "wire w [] = []" "wire w (m # ms) = frame_of (SerializeToArray w m) @ wire w ms"
  "wire w (ms @ ms') = wire w ms @ wire w ms'"
  by (simp_all add: wire_def)

lemma frame_of_simps [simp]:
  "length (frame_of bs) = Suc (length bs)" "frame_of bs \<noteq> []" "hd (frame_of bs) = of_nat (length bs)"
  "drop (Suc 0) (frame_of bs) = bs"
  by (simp_all add: frame_of_def)

lemma frame_part_hd:
  "part @ rest = frame_of bs \<Longrightarrow> part \<noteq> [] \<Longrightarrow> hd part = of_nat (length bs)"
  by (metis frame_of_simps(3) hd_append2)

text \<open>A prefix of the stream is a number of complete frames and possibly the start of another.\<close>

lemma take_wire:
  "\<exists>ms1 ms2 part. ms = ms1 @ ms2 \<and> take n (wire w ms) = wire w ms1 @ part \<and>
    (part = [] \<or> (\<exists>m ms3 rest. ms2 = m # ms3 \<and> rest \<noteq> [] \<and> part @ rest = frame_of (SerializeToArray w m)))"
proof (induction ms arbitrary: n)
  case Nil
  then show ?case by simp
next
  case (Cons m ms)
  let ?f = "frame_of (SerializeToArray w m)"
  show ?case
  proof (cases "length ?f \<le> n")
    case True
    obtain ms1 ms2 part where IH: "ms = ms1 @ ms2" "take (n - length ?f) (wire w ms) = wire w ms1 @ part"
        "part = [] \<or> (\<exists>m ms3 rest. ms2 = m # ms3 \<and> rest \<noteq> [] \<and> part @ rest = frame_of (SerializeToArray w m))"
      using Cons.IH by blast
    have "take n (wire w (m # ms)) = wire w (m # ms1) @ part"
      using True IH(2) by simp
    with IH(1,3) show ?thesis by (metis append_Cons)
  next
    case False
    then have "take n (wire w (m # ms)) = wire w [] @ take n ?f" "drop n ?f \<noteq> []" by simp_all
    then show ?thesis by (metis append_Nil append_take_drop_id)
  qed
qed

definition delivers :: "read_event \<Rightarrow> bool" where
  "delivers e \<longleftrightarrow> (case e of Deliver k \<Rightarrow> 1 \<le> k | ReadError \<Rightarrow> False)"

abbreviation consumed :: "int \<Rightarrow> byte list \<Rightarrow> read_event list \<Rightarrow> world \<Rightarrow> world" where
  "consumed fd left es w \<equiv>
    w\<lparr>rd_pending := (rd_pending w)(fd := left), rd_events := (rd_events w)(fd := es)\<rparr>"

lemma sys_read_delivers:
  assumes "fd_open w fd" "list_all delivers (rd_events w fd)" "rd_pending w fd \<noteq> []" "1 \<le> n"
  shows "\<exists>k es. 1 \<le> k \<and> k \<le> n \<and> k \<le> length (rd_pending w fd) \<and> list_all delivers es \<and>
    sys_read fd n w = (of_nat k, take k (rd_pending w fd), consumed fd (drop k (rd_pending w fd)) es w)"
proof -
  let ?p = "rd_pending w fd"
  have p: "1 \<le> length ?p" using assms(3) by (cases ?p) auto
  show ?thesis
  proof (cases "rd_events w fd")
    case Nil
    then have "sys_read fd n w = (of_nat (min n (length ?p)), take (min n (length ?p)) ?p,
        consumed fd (drop (min n (length ?p)) ?p) [] w)"
      using assms(1) by (cases "n \<le> length ?p") (simp_all add: sys_read_def Let_def min_def fun_upd_idem)
    then show ?thesis using p assms(4) by (intro exI [of _ "min n (length ?p)"] exI [of _ "[]"]) auto
  next
    case (Cons e es)
    then obtain j where j: "e = Deliver j" "1 \<le> j" "list_all delivers es"
      using assms(2) by (auto simp: delivers_def split: read_event.splits)
    let ?k = "min (min n j) (length ?p)"
    have "take (min n j) ?p = take ?k ?p" "drop (min n j) ?p = drop ?k ?p"
      by (cases "min n j \<le> length ?p"; simp add: min_def)+
    then have "sys_read fd n w = (of_nat ?k, take ?k ?p, consumed fd (drop ?k ?p) es w)"
      using assms(1) Cons j by (simp add: sys_read_def Let_def min.commute)
    then show ?thesis using p assms(4) j by (intro exI [of _ ?k] exI [of _ es]) auto
  qed
qed

subsection \<open>The loop over complete messages\<close>

lemma length_memmove: "n \<le> length buf \<Longrightarrow> length (memmove buf n) = length buf"
  by (simp add: memmove_def)

lemma take_memmove: "n + k \<le> length buf \<Longrightarrow> take k (memmove buf n) = take k (drop n buf)"
  by (simp add: memmove_def)

lemma size_Suc: "(of_nat n :: size_t) + 1 = of_nat (Suc n)"
  by simp

lemma size_le: "a \<le> 256 \<Longrightarrow> b \<le> 256 \<Longrightarrow> (of_nat a :: size_t) \<le> of_nat b \<longleftrightarrow> a \<le> b"
  by (simp add: word_le_nat_alt unat_size_small)

lemma size_eq: "a \<le> 256 \<Longrightarrow> b \<le> 256 \<Longrightarrow> (of_nat a :: size_t) = of_nat b \<longleftrightarrow> a = b"
  by (metis unat_size_small)

lemma recv_drain_frames:
  assumes "\<forall>m\<in>set ms. decodable w m" "length buf = 256" "n \<le> 256"
    "take n buf = wire w ms @ part" "n = length (wire w ms @ part)" "ms \<noteq> [] \<or> part \<noteq> []"
    "part = [] \<or> (\<exists>bs rest. length bs \<le> 127 \<and> rest \<noteq> [] \<and> part @ rest = frame_of bs)"
  shows "\<exists>buf' size. recv_drain (ParseFromArray w) buf (size_of_char (hd buf)) (of_nat n) q =
      Some (buf', size, of_nat (length part), q @ ms) \<and> length buf' = 256 \<and>
      take (length part) buf' = part \<and> (part \<noteq> [] \<longrightarrow> size = size_of_char (hd part))"
  using assms
proof (induction ms arbitrary: buf n q)
  case Nil
  then obtain bs rest where bs: "length bs \<le> 127" "rest \<noteq> []" "part @ rest = frame_of bs" by auto
  have hd: "hd buf = hd part" using Nil.prems(4,5,6) by (metis append_Nil hd_append2 append_take_drop_id wire_simps(1))
  have size: "size_of_char (hd part) = of_nat (length bs)"
    using frame_part_hd [OF bs(3)] Nil.prems(6) bs(1) by (simp add: size_of_char_small)
  have "length part + length rest = Suc (length bs)" using bs(3) by (metis length_append frame_of_simps(1))
  then have "length part \<le> length bs" using bs(2) by (cases rest) simp_all
  then have "\<not> Suc (length bs) \<le> n" using Nil.prems(5) by simp
  then have "\<not> size_of_char (hd buf) + 1 \<le> of_nat n"
    unfolding hd size size_Suc using bs(1) Nil.prems(3) by (subst size_le) simp_all
  then show ?case using Nil.prems hd size
    by (simp add: recv_drain.simps [of _ buf])
next
  case (Cons m ms)
  let ?bs = "SerializeToArray w m"
  let ?k = "Suc (length ?bs)"
  have len: "length ?bs \<le> 127"
    and parse: "\<And>rest. ParseFromArray w (?bs @ rest) (int (length ?bs)) = m"
    using Cons.prems(1) by (auto simp: decodable_def)
  have n: "n = ?k + length (wire w ms @ part)" using Cons.prems(5) by simp
  have buf: "buf = frame_of ?bs @ wire w ms @ part @ drop n buf"
    using Cons.prems(4) by (metis append_assoc append_take_drop_id wire_simps(2))
  have size: "size_of_char (hd buf) = of_nat (length ?bs)"
    by (subst buf) (use len in \<open>simp add: size_of_char_small\<close>)
  have le: "(of_nat (length ?bs) :: size_t) + 1 \<le> of_nat n"
    unfolding size_Suc using n len Cons.prems(3) by (subst size_le) simp_all
  have msg: "ParseFromArray w (drop (Suc 0) buf) (int_of_size (of_nat (length ?bs))) = m"
    by (subst buf) (use len parse in \<open>simp add: int_of_size_small\<close>)
  have br: "(of_nat n :: size_t) - (of_nat (length ?bs) + 1) = of_nat (length (wire w ms @ part))"
    unfolding n by simp
  have step: "recv_drain (ParseFromArray w) buf (size_of_char (hd buf)) (of_nat n) q =
      (if (of_nat (length (wire w ms @ part)) :: size_t) = 0
       then Some (buf, of_nat (length ?bs), 0, q @ [m])
       else recv_drain (ParseFromArray w) (memmove buf (unat (of_nat ?k :: size_t)))
         (size_of_char (hd (memmove buf (unat (of_nat ?k :: size_t)))))
         (of_nat (length (wire w ms @ part))) (q @ [m]))"
    by (subst recv_drain.simps) (simp add: size le msg br Let_def size_Suc [symmetric] del: of_nat_Suc length_append)
  show ?case
  proof (cases "ms = [] \<and> part = []")
    case True
    then show ?thesis using step Cons.prems(2) by simp
  next
    case False
    let ?r = "length (wire w ms @ part)"
    have r: "?r \<le> 256" using n Cons.prems(3) by simp
    have nz: "(of_nat ?r :: size_t) \<noteq> 0"
    proof -
      have "1 \<le> ?r" using False by (cases ms; cases part) auto
      then show ?thesis using r by (rule of_nat_size_nonzero)
    qed
    let ?buf = "memmove buf (unat (of_nat ?k :: size_t))"
    have k: "unat (of_nat ?k :: size_t) = ?k" using len by (intro unat_size_small) simp
    have len': "length ?buf = 256" using len Cons.prems(2) by (simp only: k) (simp add: length_memmove)
    have drop: "drop ?k buf = wire w ms @ part @ drop n buf"
      by (subst buf) simp
    have take: "take ?r ?buf = wire w ms @ part"
      unfolding k using n Cons.prems(2,3) drop by (subst take_memmove) simp_all
    have "\<exists>buf' size. recv_drain (ParseFromArray w) ?buf (size_of_char (hd ?buf)) (of_nat ?r) (q @ [m]) =
        Some (buf', size, of_nat (length part), (q @ [m]) @ ms) \<and> length buf' = 256 \<and>
        take (length part) buf' = part \<and> (part \<noteq> [] \<longrightarrow> size = size_of_char (hd part))"
      by (rule Cons.IH) (use Cons.prems(1,7) False len' r take in auto)
    then show ?thesis unfolding step using nz by simp
  qed
qed

subsection \<open>The rest of a partial message\<close>

lemma recv_rest_completes:
  assumes "fd_open w fd" "list_all delivers (rd_events w fd)" "rd_pending w fd = rest @ left"
    "length buf = 256" "take t buf = part" "t = length part" "t + length rest \<le> 256"
  shows "\<exists>buf' es. recv_rest fd buf (of_nat t) (of_nat (t + length rest)) w =
      Inr (Some buf', consumed fd left es w) \<and> list_all delivers es \<and>
      length buf' = 256 \<and> take (t + length rest) buf' = part @ rest"
  using assms
proof (induction rest arbitrary: w buf t part)
  case Nil
  then have "recv_rest fd buf (of_nat t) (of_nat (t + length [])) w = Inr (Some buf, w)"
    by (simp add: recv_rest.simps [of fd buf])
  moreover have "consumed fd left (rd_events w fd) w = w" using Nil.prems(3) by (simp add: fun_upd_idem)
  ultimately have "recv_rest fd buf (of_nat t) (of_nat (t + length [])) w =
      Inr (Some buf, consumed fd left (rd_events w fd) w)" by simp
  moreover have "take (t + length []) buf = part @ []" using Nil.prems(5) by simp
  ultimately show ?case using Nil.prems(2,4)
    by (intro exI [of _ buf] exI [of _ "rd_events w fd"] conjI)
next
  case (Cons b rest)
  have lt: "\<not> (of_nat (t + length (b # rest)) :: size_t) \<le> of_nat t"
    using Cons.prems(7) by (subst size_le) simp_all
  have "rd_pending w fd \<noteq> []" using Cons.prems(3) by simp
  then obtain k es where k: "1 \<le> k" "k \<le> 1" "list_all delivers es"
      "sys_read fd 1 w = (of_nat k, take k (rd_pending w fd), consumed fd (drop k (rd_pending w fd)) es w)"
    using sys_read_delivers [OF Cons.prems(1,2) _ order.refl] by blast
  then have rd: "sys_read fd (Suc 0) w = (1, [b], consumed fd (rest @ left) es w)"
    using Cons.prems(3) le_antisym [OF k(2,1)] by simp
  let ?buf = "buf[t := b]" and ?w = "consumed fd (rest @ left) es w"
  have t: "unat (of_nat t :: size_t) = t" using Cons.prems(7) by (intro unat_size_small) simp
  have part: "take (Suc t) ?buf = part @ [b]"
    using Cons.prems(4-7) by (simp add: take_Suc_conv_app_nth)
  have "\<exists>buf' es'. recv_rest fd ?buf (of_nat (Suc t)) (of_nat (Suc t + length rest)) ?w =
      Inr (Some buf', consumed fd left es' ?w) \<and> list_all delivers es' \<and>
      length buf' = 256 \<and> take (Suc t + length rest) buf' = (part @ [b]) @ rest"
  proof (rule Cons.IH)
    show "fd_open ?w fd" using Cons.prems(1) by simp
    show "list_all delivers (rd_events ?w fd)" using k(3) by simp
    show "rd_pending ?w fd = rest @ left" by simp
    show "length ?buf = 256" using Cons.prems(4) by simp
    show "take (Suc t) ?buf = part @ [b]" by (rule part)
    show "Suc t = length (part @ [b])" using Cons.prems(6) by simp
    show "Suc t + length rest \<le> 256" using Cons.prems(7) by simp
  qed
  then obtain buf' es' where IH:
      "recv_rest fd ?buf (of_nat (Suc t)) (of_nat (Suc t + length rest)) ?w =
        Inr (Some buf', consumed fd left es' ?w)" "list_all delivers es'" "length buf' = 256"
      "take (Suc t + length rest) buf' = (part @ [b]) @ rest" by blast
  have "consumed fd left es' ?w = consumed fd left es' w" by simp
  moreover have "recv_rest fd buf (of_nat t) (of_nat (t + length (b # rest))) w =
      recv_rest fd ?buf (of_nat t + 1) (of_nat (t + length (b # rest))) ?w"
    using lt rd t Cons.prems(4,7) by (subst recv_rest.simps) (simp del: of_nat_add of_nat_Suc length_Cons)
  ultimately have "recv_rest fd buf (of_nat t) (of_nat (t + length (b # rest))) w =
      Inr (Some buf', consumed fd left es' w)"
    using IH(1) by (simp add: add.commute add.left_commute)
  moreover have "take (t + length (b # rest)) buf' = part @ b # rest" using IH(4) by simp
  ultimately show ?case using IH(2,3)
    by (intro exI [of _ buf'] exI [of _ es'] conjI)
qed

subsection \<open>Receive\<close>

text \<open>
  The messages on their way to the connection at \<open>p\<close>: those it has queued, then those whose
  frames are still in the socket.
\<close>

definition incoming :: "int \<Rightarrow> world \<Rightarrow> GameMessage list \<Rightarrow> bool" where
  "incoming p w ms \<longleftrightarrow> (case conns w p of None \<Rightarrow> False
    | Some c \<Rightarrow> fd_open w (sock c) \<and> list_all delivers (rd_events w (sock c)) \<and>
      (\<exists>ms2. ms = inboundQueue c @ ms2 \<and> (\<forall>m\<in>set ms2. decodable w m) \<and>
        rd_pending w (sock c) = wire w ms2))"

text \<open>What a \<open>Receive\<close> may change: one socket's input and one connection's queue.\<close>

definition recv_frame :: "int \<Rightarrow> world \<Rightarrow> world \<Rightarrow> bool" where
  "recv_frame p w w' \<longleftrightarrow> (\<exists>ps es cs. w' = w\<lparr>rd_pending := ps, rd_events := es, conns := cs\<rparr> \<and>
    (\<forall>q. q \<noteq> p \<longrightarrow> cs q = conns w q) \<and> rel_option (\<lambda>c c'. sock c' = sock c) (conns w p) (cs p) \<and>
    (\<forall>fd. fd \<noteq> sock_of p w \<longrightarrow> ps fd = rd_pending w fd \<and> es fd = rd_events w fd))"

lemma recv_frameI:
  assumes "conns w p = Some c" "cs = (conns w)(p := Some c')" "sock c' = sock c"
    "\<And>fd. fd \<noteq> sock c \<Longrightarrow> ps fd = rd_pending w fd \<and> es fd = rd_events w fd"
  shows "recv_frame p w (w\<lparr>rd_pending := ps, rd_events := es, conns := cs\<rparr>)"
  unfolding recv_frame_def using assms by (intro exI conjI) (auto simp: sock_of_def)

lemma decodable_cong: "SerializeToArray w' = SerializeToArray w \<Longrightarrow> ParseFromArray w' = ParseFromArray w \<Longrightarrow>
    decodable w' m = decodable w m"
  by (simp add: decodable_def)

lemma wire_cong: "SerializeToArray w' = SerializeToArray w \<Longrightarrow> wire w' ms = wire w ms"
  by (simp add: wire_def)

text \<open>The state after a \<open>Receive\<close>: the rest of the stream, and a new queue.\<close>

abbreviation received :: "int \<Rightarrow> connection \<Rightarrow> byte list \<Rightarrow> read_event list \<Rightarrow> GameMessage list \<Rightarrow> world \<Rightarrow> world" where
  "received p c left es q w \<equiv> w\<lparr>rd_pending := (rd_pending w)(sock c := left),
    rd_events := (rd_events w)(sock c := es), conns := (conns w)(p \<mapsto> c\<lparr>inboundQueue := q\<rparr>)\<rparr>"

lemma received_incoming:
  assumes "conns w p = Some c" "fd_open w (sock c)" "list_all delivers es"
    "\<forall>m\<in>set ms. decodable w m"
  shows "incoming p (received p c (wire w ms) es q w) (q @ ms) \<and>
    recv_frame p w (received p c (wire w ms) es q w)"
proof
  show "incoming p (received p c (wire w ms) es q w) (q @ ms)"
    using assms by (auto simp: incoming_def decodable_def wire_def)
  show "recv_frame p w (received p c (wire w ms) es q w)"
    by (rule recv_frameI [where c' = "c\<lparr>inboundQueue := q\<rparr>"]) (use assms(1) in auto)
qed

lemma pop_received:
  assumes "conns w p = Some c"
  shows "pop_front p (m # q) (consumed (sock c) left es w) = Inr (Some m, received p c left es q w)"
  using assms by (simp add: pop_front_def set_queue_def)

lemma Receive_queue:
  assumes "incoming p w ms" "conns w p = Some c" "inboundQueue c = m # q"
  shows "\<exists>ms'. ms = m # ms' \<and> (\<exists>w'. Receive p w = Some (Inr (Some m, w')) \<and> incoming p w' ms' \<and> recv_frame p w w')"
proof -
  obtain ms2 where ms2: "ms = m # q @ ms2" "fd_open w (sock c)" "list_all delivers (rd_events w (sock c))"
      "\<forall>m\<in>set ms2. decodable w m" "rd_pending w (sock c) = wire w ms2"
    using assms by (auto simp: incoming_def)
  have same: "consumed (sock c) (wire w ms2) (rd_events w (sock c)) w = w"
    using ms2(5) by (simp add: fun_upd_idem)
  have "Receive p w = Some (pop_front p (m # q) w)" using assms(2,3) by (simp add: Receive_def)
  then have "Receive p w = Some (Inr (Some m, received p c (wire w ms2) (rd_events w (sock c)) q w))"
    using pop_received [OF assms(2), where m = m and q = q and left = "wire w ms2"
      and es = "rd_events w (sock c)"] unfolding same by simp
  with received_incoming [OF assms(2) ms2(2,3,4)] ms2(1) show ?thesis by blast
qed

lemma Receive_empty:
  assumes "incoming p w []"
  shows "\<exists>w'. Receive p w = Some (Inr (None, w')) \<and> incoming p w' [] \<and> recv_frame p w w'"
proof -
  obtain c where c: "conns w p = Some c" "inboundQueue c = []" "fd_open w (sock c)"
      "list_all delivers (rd_events w (sock c))" "rd_pending w (sock c) = []"
    using assms by (auto simp: incoming_def split: option.splits)
  have "\<exists>es. list_all delivers es \<and> sys_read (sock c) 256 w = (0, [], consumed (sock c) [] es w)"
  proof (cases "rd_events w (sock c)")
    case Nil
    then show ?thesis using c(3,5)
      by (intro exI [of _ "[]"]) (simp add: sys_read_def fun_upd_idem)
  next
    case (Cons e es)
    then show ?thesis using c(3-5)
      by (intro exI [of _ es])
        (auto simp: sys_read_def Let_def delivers_def fun_upd_idem split: read_event.splits)
  qed
  then obtain es where es: "list_all delivers es"
      "sys_read (sock c) 256 w = (0, [], consumed (sock c) [] es w)" by blast
  have "consumed (sock c) [] es w = received p c (wire w []) es [] w"
    using c(1,2) by (simp add: fun_upd_idem)
  moreover have "Receive p w = Some (Inr (None, consumed (sock c) [] es w))"
    using c(1,2) es(2) by (simp add: Receive_def)
  ultimately have "Receive p w = Some (Inr (None, received p c (wire w []) es [] w))"
    by (simp only:)
  moreover have "incoming p (received p c (wire w []) es [] w) ([] @ []) \<and>
      recv_frame p w (received p c (wire w []) es [] w)"
    by (rule received_incoming [OF c(1,3) es(1)]) simp
  ultimately show ?thesis by (metis append_Nil)
qed

text \<open>An empty queue and a non-empty stream: one read, the complete frames, and the rest of the last.\<close>

lemma Receive_stream:
  assumes c: "conns w p = Some c" "inboundQueue c = []" "fd_open w (sock c)"
      "list_all delivers (rd_events w (sock c))" "rd_pending w (sock c) = wire w (m # ms)"
      "\<forall>x\<in>set (m # ms). decodable w x"
  shows "\<exists>w'. Receive p w = Some (Inr (Some m, w')) \<and> incoming p w' ms \<and> recv_frame p w w'"
proof -
  let ?P = "ParseFromArray w" and ?p = "rd_pending w (sock c)"
  have "?p \<noteq> []" using c(5) by simp
  then obtain k es where k: "1 \<le> k" "k \<le> 256" "k \<le> length ?p" "list_all delivers es"
      "sys_read (sock c) 256 w = (of_nat k, take k ?p, consumed (sock c) (drop k ?p) es w)"
    using sys_read_delivers [OF c(3,4), of 256] by auto
  let ?w1 = "consumed (sock c) (drop k ?p) es w"
  obtain ms1 ms2 part where split: "m # ms = ms1 @ ms2" "take k ?p = wire w ms1 @ part"
      "part = [] \<or> (\<exists>m ms3 rest. ms2 = m # ms3 \<and> rest \<noteq> [] \<and> part @ rest = frame_of (SerializeToArray w m))"
    using take_wire [of "m # ms" k w] unfolding c(5) by blast
  let ?buf = "take k ?p @ replicate (256 - k) 0"
  have n: "k = length (wire w ms1 @ part)" using k(3) split(2) by (metis length_take min.absorb2)
  have buf: "length ?buf = 256" "take k ?buf = wire w ms1 @ part" using k(2,3)
    by (simp, simp add: split(2) [symmetric])
  have decode: "\<forall>x\<in>set ms1. decodable w x" "\<forall>x\<in>set ms2. decodable w x"
    using c(6) unfolding split(1) by auto
  have partial: "part = [] \<or> (\<exists>bs rest. length bs \<le> 127 \<and> rest \<noteq> [] \<and> part @ rest = frame_of bs)"
    using split(3) decode(2) by (auto simp: decodable_def)
  have some: "ms1 \<noteq> [] \<or> part \<noteq> []" using n k(1) by (cases ms1; cases part) auto
  have left: "wire w ms1 @ part @ drop k ?p = wire w (m # ms)"
    using split(2) c(5) by (metis append_assoc append_take_drop_id)
  have hd: "hd ?buf = of_nat (length (SerializeToArray w m))"
  proof -
    have "hd ?buf = hd ?p" using k(1) \<open>?p \<noteq> []\<close> by (simp add: hd_append)
    then show ?thesis using c(5) by simp
  qed
  obtain buf' size where drain: "recv_drain ?P ?buf (size_of_char (hd ?buf)) (of_nat k) [] =
      Some (buf', size, of_nat (length part), ms1)" "length buf' = 256" "take (length part) buf' = part"
      "part \<noteq> [] \<longrightarrow> size = size_of_char (hd part)"
    using recv_drain_frames [OF decode(1) buf(1) k(2) buf(2) n some partial, of "[]"] by auto
  have k0: "(of_nat k :: size_t) \<noteq> 0" using k(1,2) by (rule of_nat_size_nonzero)
  define single where "single \<longleftrightarrow> k = Suc (length (SerializeToArray w m))"
  have len: "length (SerializeToArray w m) \<le> 127" using c(6) by (simp add: decodable_def)
  have single: "(of_nat k :: size_t) = size_of_char (hd ?buf) + 1 \<longleftrightarrow> single"
    unfolding hd single_def size_of_char_small [OF len] size_Suc using k(2) len by (subst size_eq) simp_all
  have Rcv: "Receive p w = (if single
      then Some (Inr (Some (?P (drop 1 ?buf) (int_of_size (size_of_char (hd ?buf)))), ?w1))
      else Some (if (of_nat (length part) :: size_t) = 0 then pop_front p ms1 ?w1
        else andThen (recv_rest (sock c) buf' (of_nat (length part)) (size + 1) ?w1)
          (\<lambda>(r, w2). case r of None \<Rightarrow> Inr (None, set_queue p ms1 w2)
            | Some buf \<Rightarrow> pop_front p (ms1 @ [?P (drop 1 buf) (int_of_size size)]) w2)))"
    using c(1,2) k(3,5) k0 drain(1) single by (simp add: Receive_def Let_def)
  have fin: "\<exists>w'. Receive p w = Some (Inr (Some m, w')) \<and> incoming p w' ms \<and> recv_frame p w w'"
    if "Receive p w = Some (Inr (Some m, received p c (wire w ms4) es' q w))" "ms = q @ ms4"
      "list_all delivers es'" for q ms4 es'
  proof -
    have "\<forall>x\<in>set ms4. decodable w x" using c(6) that(2) by simp
    from received_incoming [OF c(1,3) that(3) this] that(1,2) show ?thesis by blast
  qed
  consider single | "\<not> single" "part = []" | "\<not> single" "part \<noteq> []" by blast
  then show ?thesis
  proof cases
    case 1
    have k': "k = length (frame_of (SerializeToArray w m))" using 1 by (simp add: single_def)
    have "drop k ?p = wire w ms" unfolding c(5) k' by simp
    moreover have "?P (drop 1 ?buf) (int_of_size (size_of_char (hd ?buf))) = m"
    proof -
      have "drop 1 ?buf = SerializeToArray w m @ replicate (256 - k) 0" unfolding c(5) k' by simp
      then show ?thesis using c(6) len unfolding hd size_of_char_small [OF len]
        by (simp add: decodable_def int_of_size_small)
    qed
    moreover have "consumed (sock c) (wire w ms) es w = received p c (wire w ms) es [] w"
      using c(1,2) by (simp add: fun_upd_idem)
    ultimately have "Receive p w = Some (Inr (Some m, received p c (wire w ms) es [] w))"
      using Rcv 1 by (simp only: if_True)
    then show ?thesis by (rule fin) (simp_all add: k(4))
  next
    case 2
    then obtain q where q: "ms1 = m # q" "ms = q @ ms2" using some split(1) by (cases ms1) auto
    have "drop k ?p = wire w ms2" using left 2 q by simp
    then have "Receive p w = Some (Inr (Some m, received p c (wire w ms2) es q w))"
      using Rcv 2 pop_received [OF c(1), where m = m and q = q and left = "wire w ms2" and es = es] q(1) by simp
    then show ?thesis using k(4) q(2) by (intro fin)
  next
    case 3
    then obtain m2 ms3 rest where m2: "ms2 = m2 # ms3" "rest \<noteq> []"
        "part @ rest = frame_of (SerializeToArray w m2)" using split(3) by blast
    have m2d: "decodable w m2" using decode(2) m2(1) by simp
    then have len2: "length (SerializeToArray w m2) \<le> 127" by (simp add: decodable_def)
    have total: "length part + length rest = Suc (length (SerializeToArray w m2))"
      using m2(3) by (metis length_append frame_of_simps(1))
    have size: "size = of_nat (length (SerializeToArray w m2))"
      using drain(4) 3 frame_part_hd [OF m2(3)] size_of_char_small [OF len2] by simp
    have pend: "drop k ?p = rest @ wire w ms3"
    proof -
      have "part @ drop k ?p = part @ rest @ wire w ms3"
        using left split(1) m2(1,3) by (metis append_assoc same_append_eq wire_simps(2,3))
      then show ?thesis by simp
    qed
    obtain buf2 es2 where rest: "recv_rest (sock c) buf' (of_nat (length part))
        (of_nat (length part + length rest)) ?w1 = Inr (Some buf2, consumed (sock c) (wire w ms3) es2 ?w1)"
        "list_all delivers es2" "length buf2 = 256" "take (length part + length rest) buf2 = part @ rest"
      using recv_rest_completes [of ?w1 "sock c" rest "wire w ms3" buf' "length part" part]
        c(3) k(4) pend drain(2,3) total len2 by auto
    have dec: "?P (drop 1 buf2) (int_of_size size) = m2"
    proof -
      have "buf2 = frame_of (SerializeToArray w m2) @ drop (length part + length rest) buf2"
        using rest(4) m2(3) by (metis append_take_drop_id)
      then have "drop 1 buf2 = SerializeToArray w m2 @ drop (length part + length rest) buf2"
        by (metis One_nat_def frame_of_def append_Cons drop0 drop_Suc_Cons)
      then show ?thesis using m2d len2 unfolding size by (simp add: decodable_def int_of_size_small)
    qed
    obtain q where q: "ms1 @ [m2] = m # q" "ms = q @ ms3" using split(1) m2(1) by (cases ms1) auto
    have "1 \<le> length part" "length part \<le> 256" using 3 total len2 by (cases part, simp_all)
    then have nz: "(of_nat (length part) :: size_t) \<noteq> 0" by (rule of_nat_size_nonzero)
    have target: "size + 1 = of_nat (length part + length rest)" unfolding size total by simp
    have "consumed (sock c) (wire w ms3) es2 ?w1 = consumed (sock c) (wire w ms3) es2 w" by simp
    then have "Receive p w = Some (pop_front p (m # q) (consumed (sock c) (wire w ms3) es2 w))"
      using Rcv 3 nz rest(1) dec q(1) unfolding target by simp
    then have "Receive p w = Some (Inr (Some m, received p c (wire w ms3) es2 q w))"
      unfolding pop_received [OF c(1)] .
    then show ?thesis using q(2) rest(2) by (intro fin)
  qed
qed

lemma Receive_next:
  assumes "incoming p w (m # ms)"
  shows "\<exists>w'. Receive p w = Some (Inr (Some m, w')) \<and> incoming p w' ms \<and> recv_frame p w w'"
proof -
  obtain c where c: "conns w p = Some c" using assms by (auto simp: incoming_def split: option.splits)
  show ?thesis
  proof (cases "inboundQueue c")
    case Nil
    then show ?thesis
      by (intro Receive_stream [OF c]) (use assms c in \<open>auto simp: incoming_def\<close>)
  next
    case (Cons m' q)
    then show ?thesis using Receive_queue [OF assms c Cons] by auto
  qed
qed

interpretation rcv: message_source "Receive p" "incoming p" for p
  by unfold_locales (use Receive_next Receive_empty in blast)+

text \<open>
  C3. \<open>Receive\<close> refines the removal of the first message of a queue. Whatever is queued in the
  connection and however the kernel cuts the stream of frames into reads (every read that
  returns at least one byte, between one and all the bytes there are), \<open>Receive\<close> returns, and
  returns the next message; what is still on its way afterwards is exactly the rest; with
  nothing on its way it answers \<open>nullopt\<close>. It touches no other connection or socket.
\<close>

theorem Receive_refines_queue:
  assumes "incoming p w ms"
  shows "\<exists>w'. Receive p w = Some (Inr (case ms of [] \<Rightarrow> None | m # _ \<Rightarrow> Some m, w')) \<and>
    incoming p w' (tl ms) \<and> recv_frame p w w'"
  using assms Receive_next Receive_empty by (cases ms) auto

definition err_message :: "string \<Rightarrow> GameMessage" where
  "err_message s = GameMessage_default\<lparr>oneof := Some (ErrorB s)\<rparr>"

text \<open>
  A stream of two messages, the codec of the world encoding an error by its text; the kernel
  delivers four bytes first, the whole first frame and a part of the second.
\<close>

definition two_messages :: world where
  "two_messages = sample_world\<lparr>
    SerializeToArray := (\<lambda>m. replicate (length (msg_error m)) 7),
    ParseFromArray := (\<lambda>_ n. GameMessage_default\<lparr>oneof := Some (ErrorB (replicate (nat n) CHR ''x''))\<rparr>),
    rd_pending := (\<lambda>_. [2, 7, 7, 1, 7]), rd_events := (\<lambda>_. [Deliver 4]),
    wr_events := (\<lambda>_. [Accept 1]),
    conns := [5 \<mapsto> \<lparr>sock = 5, msg = err_message [], inboundQueue = []\<rparr>]\<rparr>"

lemma two_messages_incoming: "incoming 5 two_messages [err_message ''xx'', err_message ''x'']"
  by (simp add: incoming_def two_messages_def err_message_def decodable_def wire_def frame_of_def
      delivers_def msg_error_def eval_nat_numeral)

theorem Receive_refines_queue_witness:
  "\<exists>w'. Receive 5 two_messages = Some (Inr (Some (err_message ''xx''), w')) \<and>
    incoming 5 w' [err_message ''x'']"
  using Receive_refines_queue [OF two_messages_incoming] by auto

text \<open>
  Messages arrive in the order they were sent, each once: receiving as many times as there
  are messages on their way returns them all, in order, and one more \<open>Receive\<close> finds nothing.
\<close>

theorem Receive_in_order:
  assumes "incoming p w ms"
  shows "(\<exists>w'. take_messages (Receive p) (length ms) w = Some (ms, w') \<and>
      (\<exists>w''. Receive p w' = Some (Inr (None, w'')))) \<and>
    take_messages (Receive p) (Suc (length ms)) w = None"
  using rcv.in_order [of p w ms "[]"] rcv.no_message rcv.never_invents [of p w ms "Suc (length ms)"]
    assms by (metis append_Nil2 lessI)

theorem Receive_in_order_witness:
  "\<exists>w'. take_messages (Receive 5) 2 two_messages = Some ([err_message ''xx'', err_message ''x''], w')"
  using Receive_in_order [OF two_messages_incoming] by (auto simp: eval_nat_numeral)

subsection \<open>Sending and receiving\<close>

text \<open>The network: what was written at \<open>p\<close>'s socket becomes readable at \<open>q\<close>'s.\<close>

definition transmit :: "int \<Rightarrow> int \<Rightarrow> world \<Rightarrow> world" where
  "transmit p q w = w\<lparr>out := (out w)(sock_of p w := []),
    rd_pending := (rd_pending w)(sock_of q w := rd_pending w (sock_of q w) @ out w (sock_of p w))\<rparr>"

lemma transmit_incoming:
  assumes "incoming q w ms" "out w (sock_of p w) = wire w ms'" "\<forall>m\<in>set ms'. decodable w m"
  shows "incoming q (transmit p q w) (ms @ ms')"
proof -
  obtain c ms2 where c: "conns w q = Some c" "fd_open w (sock c)" "list_all delivers (rd_events w (sock c))"
      "ms = inboundQueue c @ ms2" "\<forall>m\<in>set ms2. decodable w m" "rd_pending w (sock c) = wire w ms2"
    using assms(1) by (auto simp: incoming_def split: option.splits)
  have s: "sock_of q w = sock c" using c(1) by (simp add: sock_of_def)
  have "rd_pending (transmit p q w) (sock c) = wire (transmit p q w) (ms2 @ ms')"
    using s c(6) assms(2) by (simp add: transmit_def wire_def)
  moreover have "\<forall>m\<in>set (ms2 @ ms'). decodable (transmit p q w) m"
    using c(5) assms(3) by (auto simp: transmit_def decodable_def)
  moreover have "conns (transmit p q w) q = Some c" "fd_open (transmit p q w) (sock c)"
      "list_all delivers (rd_events (transmit p q w) (sock c))"
    using c(1-3) by (simp_all add: transmit_def)
  ultimately show ?thesis using c(4) by (auto simp: incoming_def)
qed

lemma io_frame_incoming:
  assumes "io_frame w w'" "conns w' = conns w" "incoming p w ms"
  shows "incoming p w' ms"
proof -
  have "decodable w' = decodable w" "wire w' = wire w"
    using io_frame_fields [OF assms(1)] by (auto simp: fun_eq_iff decodable_def wire_def)
  then show ?thesis using assms io_frame_fields [OF assms(1)]
    by (auto simp: incoming_def split: option.splits)
qed

text \<open>
  C21. Sending and receiving round trip: a message of at most 127 encoded bytes that the
  connection \<open>p\<close> sends is what \<open>q\<close> receives at the other end, after the messages that were
  already on their way, whatever the short writes and short reads on the way.
\<close>

theorem send_receive_roundtrip:
  assumes "can_send p w (SerializeToArray w m)" and "msg (the (conns w p)) = m"
    and "decodable w m" and "out w (sock_of p w) = []" and "incoming q w ms"
  shows "\<exists>n w1 w2. send p w = Inr (Some n, w1) \<and>
    take_messages (Receive q) (Suc (length ms)) (transmit p q w1) = Some (ms @ [m], w2)"
proof -
  have len: "length (SerializeToArray w m) \<le> 254" using assms(3) by (simp add: decodable_def)
  obtain n w1 where w1: "send p w = Inr (Some n, w1)"
      "out w1 = (out w)(sock_of p w := frame_of (SerializeToArray w m))"
    using send_delivers [OF assms(1) len] assms(4) by auto
  have fr: "io_frame w w1" "conns w1 = conns w" using send_frame [OF w1(1)] by simp_all
  have "out w1 (sock_of p w1) = wire w1 [m]" "\<forall>x\<in>set [m]. decodable w1 x"
    using w1(2) fr(2) io_frame_fields [OF fr(1)] assms(3)
    by (simp_all add: sock_of_def wire_def decodable_def)
  then have "incoming q (transmit p q w1) (ms @ [m])"
    using transmit_incoming io_frame_incoming [OF fr assms(5)] by blast
  with rcv.in_order [of q _ "ms @ [m]" "[]"] w1(1) show ?thesis by fastforce
qed

theorem send_receive_roundtrip_witness:
  "\<exists>n w1 w2. send 5 two_messages = Inr (Some n, w1) \<and>
    take_messages (Receive 5) 3 (transmit 5 5 w1) =
      Some ([err_message ''xx'', err_message ''x'', err_message []], w2)"
proof -
  have "SerializeToArray two_messages (err_message []) = []" "out two_messages 5 = []"
      "conns two_messages 5 = Some \<lparr>sock = 5, msg = err_message [], inboundQueue = []\<rparr>"
      "wr_events two_messages 5 = [Accept 1]" "fd_open two_messages 5"
    by (simp_all add: two_messages_def msg_error_def err_message_def)
  moreover from this have "decodable two_messages (err_message [])"
    by (simp add: decodable_def) (simp add: two_messages_def err_message_def)
  ultimately show ?thesis
    using send_receive_roundtrip [of 5 two_messages "err_message []" 5, OF _ _ _ _ two_messages_incoming]
    by (simp add: can_send_def sock_of_def accepts_def eval_nat_numeral)
qed

subsection \<open>Outside the contract\<close>

lemma unat_minus_size:
  assumes "1 \<le> k" "k \<le> 256"
  shows "unat (- of_nat k :: size_t) = 2 ^ 64 - k"
proof -
  have "(of_nat (2 ^ 64 - k) :: size_t) = of_nat (2 ^ 64) - of_nat k"
    using assms(2) by (intro of_nat_diff) simp
  also have "\<dots> = - of_nat k" by simp
  finally have "unat (- of_nat k :: size_t) = unat (of_nat (2 ^ 64 - k) :: size_t)" by simp
  also have "\<dots> = 2 ^ 64 - k" using assms by (simp only: unat_of_nat) simp
  finally show ?thesis .
qed

text \<open>
  A frame that asks for more than the buffer holds is never completed: the stream ends first, or the
  257th byte is stored past the end of the buffer.
\<close>

lemma sys_read_ends:
  assumes "fd_open w fd" "list_all delivers (rd_events w fd)" "rd_pending w fd = []"
  shows "\<exists>es. sys_read fd n w = (0, [], consumed fd [] es w) \<and> list_all delivers es"
proof (cases "rd_events w fd")
  case Nil
  then have "sys_read fd n w = (0, [], consumed fd [] [] w)"
    using assms(1,3) by (simp add: sys_read_def fun_upd_idem)
  then show ?thesis by auto
next
  case (Cons e es)
  then obtain j where "e = Deliver j" "list_all delivers es"
    using assms(2) by (auto simp: delivers_def split: read_event.splits)
  then show ?thesis using assms(1,3) Cons by (auto simp: sys_read_def)
qed

lemma recv_rest_starves:
  assumes "fd_open w fd" "list_all delivers (rd_events w fd)" "rd_pending w fd = rest" "t \<le> 256"
    "length buf = 256" "256 < unat target"
  shows "if t + length rest \<le> 256
    then \<exists>es. recv_rest fd buf (of_nat t) target w = Inr (None, consumed fd [] es w)
    else recv_rest fd buf (of_nat t) target w = Inl (Undefined ''read past the end of the buffer'')"
  using assms
proof (induction rest arbitrary: w buf t)
  case Nil
  then have "\<not> target \<le> (of_nat t :: size_t)" by (simp add: word_le_nat_alt unat_size_small)
  then show ?case using Nil.prems sys_read_ends [OF Nil.prems(1-3), of 1]
    by (subst (1 2) recv_rest.simps) auto
next
  case (Cons b rest)
  have t: "unat (of_nat t :: size_t) = t" using Cons.prems(4) by (intro unat_size_small)
  then have le: "\<not> target \<le> (of_nat t :: size_t)" using Cons.prems(4,6) by (simp add: word_le_nat_alt)
  have "rd_pending w fd \<noteq> []" using Cons.prems(3) by simp
  then obtain k es where k: "1 \<le> k" "k \<le> 1" "list_all delivers es"
      "sys_read fd 1 w = (of_nat k, take k (rd_pending w fd), consumed fd (drop k (rd_pending w fd)) es w)"
    using sys_read_delivers [OF Cons.prems(1,2) _ order.refl] by blast
  let ?w = "consumed fd rest es w"
  have rd: "sys_read fd (Suc 0) w = (1, [b], ?w)" using k(4) Cons.prems(3) le_antisym [OF k(2,1)] by simp
  show ?case
  proof (cases "t = 256")
    case True
    then have "recv_rest fd buf (of_nat t) target w = Inl (Undefined ''read past the end of the buffer'')"
      using rd le t Cons.prems(5) by (subst recv_rest.simps) simp
    then show ?thesis using True by simp
  next
    case False
    then have "recv_rest fd buf (of_nat t) target w = recv_rest fd (buf[t := b]) (of_nat t + 1) target ?w"
      using rd le t Cons.prems(4,5) by (subst recv_rest.simps) simp
    then have step: "recv_rest fd buf (of_nat t) target w = recv_rest fd (buf[t := b]) (of_nat (Suc t)) target ?w"
      by (simp add: add.commute)
    have IH: "if Suc t + length rest \<le> 256
      then \<exists>es. recv_rest fd (buf[t := b]) (of_nat (Suc t)) target ?w = Inr (None, consumed fd [] es ?w)
      else recv_rest fd (buf[t := b]) (of_nat (Suc t)) target ?w = Inl (Undefined ''read past the end of the buffer'')"
      by (rule Cons.IH) (use Cons.prems False k(3) in simp_all)
    show ?thesis
    proof (cases "Suc t + length rest \<le> 256")
      case True
      obtain es' where "recv_rest fd (buf[t := b]) (of_nat (Suc t)) target ?w = Inr (None, consumed fd [] es' ?w)"
        using IH [unfolded if_P [OF True]] by blast
      moreover have "consumed fd [] es' ?w = consumed fd [] es' w" by simp
      ultimately have "\<exists>es. recv_rest fd buf (of_nat t) target w = Inr (None, consumed fd [] es w)"
        unfolding step by (intro exI [of _ es']) (simp only:)
      then show ?thesis using True by simp
    next
      case False
      then show ?thesis using IH [unfolded if_not_P [OF False]] unfolding step by simp
    qed
  qed
qed

text \<open>
  C33. A message of 128 to 254 encoded bytes is sent (\<open>send\<close> writes its frame like any other) but never
  received. Whenever its frame is the next one in the stream, however the kernel cuts the stream
  and whatever follows the frame, the receiver reads the length byte through a signed \<open>char\<close>,
  takes the size for one near \<open>2 ^ 64\<close> and reads on: when the stream ends within the 256 bytes of
  the buffer, \<open>Receive\<close> consumes all of it, the messages behind included, and answers
  \<open>nullopt\<close> with nothing queued; when more bytes come, it stores the 257th past the end of the buffer.
\<close>

theorem long_message_lost:
  assumes "conns w p = Some c" and "inboundQueue c = []" and "fd_open w (sock c)"
    and "list_all delivers (rd_events w (sock c))" and "rd_pending w (sock c) = frame_of payload @ rest"
    and "128 \<le> length payload" and "length payload \<le> 254"
  shows "if length (frame_of payload @ rest) \<le> 256
    then \<exists>w' c'. Receive p w = Some (Inr (None, w')) \<and> rd_pending w' (sock c) = [] \<and>
      conns w' p = Some c' \<and> inboundQueue c' = []
    else Receive p w = Some (Inl (Undefined ''read past the end of the buffer''))"
proof -
  let ?n = "length payload"
  define stream where "stream = frame_of payload @ rest"
  have "rd_pending w (sock c) \<noteq> []" using assms(5) by simp
  then obtain k es where k: "1 \<le> k" "k \<le> 256" "k \<le> length stream" "list_all delivers es"
      "sys_read (sock c) 256 w = (of_nat k, take k stream, consumed (sock c) (drop k stream) es w)"
    using sys_read_delivers [OF assms(3,4), of 256] assms(5) by (auto simp: stream_def)
  let ?w1 = "consumed (sock c) (drop k stream) es w"
  define d where "d = take k stream"
  let ?buf = "d @ replicate (256 - k) 0"
  have d: "length d = k" using k(3) by (simp add: d_def)
  have "hd d = of_nat ?n" using k(1) by (simp add: d_def stream_def frame_of_def)
  moreover have "d \<noteq> []" using d k(1) by auto
  ultimately have buf: "length ?buf = 256" "hd ?buf = of_nat ?n" using d k(2) by simp_all
  have k0: "(of_nat k :: size_t) \<noteq> 0" using k(1,2) by (rule of_nat_size_nonzero)
  have small: "unat (of_nat k :: size_t) = k" using k(2) by (rule unat_size_small)
  have "256 - ?n = Suc (255 - ?n)" using assms(7) by simp
  then have size: "size_of_char (hd ?buf) + 1 = - of_nat (255 - ?n)"
    unfolding buf(2) using assms(6,7) by (simp add: size_of_char_large)
  have "unat (- of_nat (255 - ?n) :: size_t) = 2 ^ 64 - (255 - ?n)"
    using assms(6,7) by (intro unat_minus_size) simp_all
  then have big: "256 < unat (size_of_char (hd ?buf) + 1)" unfolding size by simp
  then have le: "\<not> size_of_char (hd ?buf) + 1 \<le> of_nat k"
    unfolding word_le_nat_alt small using k(2) by simp
  then have ne: "of_nat k \<noteq> size_of_char (hd ?buf) + 1" by (metis order.refl)
  have drain: "recv_drain (ParseFromArray w) ?buf (size_of_char (hd ?buf)) (of_nat k) [] =
      Some (?buf, size_of_char (hd ?buf), of_nat k, [])"
    using le by (subst recv_drain.simps) simp
  have R: "Receive p w = Some (andThen (recv_rest (sock c) ?buf (of_nat k) (size_of_char (hd ?buf) + 1) ?w1)
      (\<lambda>(r, w2). case r of None \<Rightarrow> Inr (None, set_queue p [] w2)
        | Some buf \<Rightarrow> pop_front p ([] @ [ParseFromArray w (drop 1 buf) (int_of_size (size_of_char (hd ?buf)))]) w2))"
    using assms(1,2) k0 ne drain unfolding Receive_def by (simp add: k(5) [folded d_def] d Let_def)
  have len: "k + length (drop k stream) = length stream" using k(3) by simp
  have rest: "if length stream \<le> 256
      then \<exists>es. recv_rest (sock c) ?buf (of_nat k) (size_of_char (hd ?buf) + 1) ?w1 =
        Inr (None, consumed (sock c) [] es ?w1)
      else recv_rest (sock c) ?buf (of_nat k) (size_of_char (hd ?buf) + 1) ?w1 =
        Inl (Undefined ''read past the end of the buffer'')"
    unfolding len [symmetric]
    by (rule recv_rest_starves [OF _ _ _ k(2) buf(1) big]) (simp_all add: assms(3) k(4))
  show ?thesis
  proof (cases "length stream \<le> 256")
    case True
    then obtain es' where "recv_rest (sock c) ?buf (of_nat k) (size_of_char (hd ?buf) + 1) ?w1 =
        Inr (None, consumed (sock c) [] es' ?w1)" using rest by auto
    then have "Receive p w = Some (Inr (None, set_queue p [] (consumed (sock c) [] es' ?w1)))"
      unfolding R by simp
    then show ?thesis using True assms(1) by (simp add: set_queue_def stream_def)
  next
    case False
    then show ?thesis using rest unfolding R by (simp add: stream_def)
  qed
qed

text \<open>A frame of 200 bytes in two pieces; and the same with 60 more bytes behind it.\<close>

definition long_stream :: "nat \<Rightarrow> world" where
  "long_stream extra = sample_world\<lparr>conns := [5 \<mapsto> \<lparr>sock = 5, msg = GameMessage_default, inboundQueue = []\<rparr>],
    rd_pending := (\<lambda>_. frame_of (replicate 200 7) @ replicate extra 1), rd_events := (\<lambda>_. [Deliver 90, Deliver 3])\<rparr>"

theorem long_message_lost_witness:
  "(\<exists>w'. Receive 5 (long_stream 10) = Some (Inr (None, w')) \<and> rd_pending w' 5 = []) \<and>
    Receive 5 (long_stream 60) = Some (Inl (Undefined ''read past the end of the buffer''))"
proof -
  let ?c = "\<lparr>sock = 5, msg = GameMessage_default, inboundQueue = []\<rparr>"
  have "if length (frame_of (replicate 200 7) @ replicate n 1) \<le> 256
      then \<exists>w' c'. Receive 5 (long_stream n) = Some (Inr (None, w')) \<and> rd_pending w' (sock ?c) = [] \<and>
        conns w' 5 = Some c' \<and> inboundQueue c' = []
      else Receive 5 (long_stream n) = Some (Inl (Undefined ''read past the end of the buffer''))" for n
    by (rule long_message_lost) (simp_all add: long_stream_def delivers_def)
  from this [of 10] this [of 60] show ?thesis by auto
qed

text \<open>With the length byte \<open>0xFF\<close> the loop over the complete messages makes no progress.\<close>

lemma recv_drain_stuck:
  assumes "recv_drain parse buf n br q = Some r" "hd buf = 255" "length buf = 256" "n = - 1" "br \<noteq> 0"
  shows False
proof -
  have sz: "size_of_char 255 = - 1" using size_of_char_large [of 255] by simp
  have "hd buf = 255 \<longrightarrow> length buf = 256 \<longrightarrow> n = - 1 \<longrightarrow> br = 0"
  proof (rule recv_drain.raw_induct
      [of "\<lambda>parse buf n br q r. hd buf = 255 \<longrightarrow> length buf = 256 \<longrightarrow> n = - 1 \<longrightarrow> br = 0", OF _ assms(1)])
    fix rec and parse :: "byte list \<Rightarrow> int \<Rightarrow> GameMessage" and buf n br q r
    assume IH: "\<And>parse buf n br q r. rec parse buf n br q = Some r \<Longrightarrow>
        hd buf = 255 \<longrightarrow> length buf = 256 \<longrightarrow> n = - 1 \<longrightarrow> br = 0"
      and step: "(if n + 1 \<le> br
        then let q' = q @ [parse (drop 1 buf) (int_of_size n)]; br = br - (n + 1)
          in if br = 0 then Some (buf, n, br, q')
            else let buf' = memmove buf (unat (n + 1))
              in rec parse buf' (size_of_char (hd buf')) br q'
        else Some (buf, n, br, q)) = Some r"
    show "hd buf = 255 \<longrightarrow> length buf = 256 \<longrightarrow> n = - 1 \<longrightarrow> br = 0"
    proof (intro impI)
      assume a: "hd buf = 255" "length buf = 256" "n = - 1"
      have m: "memmove buf (unat (0 :: size_t)) = buf" using a(2) by (simp add: memmove_def)
      show "br = 0"
      proof (rule ccontr)
        assume nz: "br \<noteq> 0"
        then have "rec parse buf (- 1) br (q @ [parse (drop 1 buf) (int_of_size (- 1))]) = Some r"
          using step a m sz by (simp add: Let_def)
        from IH [OF this] a nz show False by blast
      qed
    qed
  qed
  with assms(2-5) show False by blast
qed

text \<open>
  C34. A length byte of 255 makes \<open>Receive\<close> run forever. Any peer can send it: whenever the
  first byte of a read is \<open>0xFF\<close>, \<open>Receive\<close> does not return (it queues a message per round,
  without end).
\<close>

theorem Receive_length_255_diverges:
  assumes "conns w p = Some c" and "inboundQueue c = []" and "fd_open w (sock c)"
    and "rd_events w (sock c) = []" and "rd_pending w (sock c) = 255 # bs"
  shows "Receive p w = None"
proof -
  let ?p = "take 256 (255 # bs)" and ?k = "min 256 (Suc (length bs))"
  let ?buf = "?p @ replicate (256 - ?k) 0"
  have rd: "\<exists>w1. sys_read (sock c) 256 w = (of_nat ?k, ?p, w1)"
    using assms(3-5) by (simp add: sys_read_def Let_def min.commute)
  have k0: "(of_nat ?k :: size_t) \<noteq> 0" by (rule of_nat_size_nonzero) simp_all
  have hd: "hd ?buf = 255" by (simp add: hd_append)
  have sz: "size_of_char 255 = - 1" using size_of_char_large [of 255] by simp
  have len: "length ?buf = 256" by simp
  have drain: "recv_drain (ParseFromArray w) ?buf (- 1) (of_nat ?k) [] = None"
    using recv_drain_stuck [OF _ hd len refl k0] by (cases "recv_drain (ParseFromArray w) ?buf (- 1) (of_nat ?k) []") blast+
  obtain w1 where rd: "sys_read (sock c) 256 w = (of_nat ?k, ?p, w1)" using rd by blast
  define br where "br = (of_nat ?k :: size_t)"
  have "sys_read (sock c) 256 w = (br, ?p, w1)" "256 - length ?p = 256 - ?k" using rd by (simp_all add: br_def)
  then show ?thesis
    using assms(1,2) k0 [folded br_def] drain [folded br_def] hd sz
    by (simp add: Receive_def Let_def del: take_Suc_Cons length_take)
qed

theorem Receive_length_255_diverges_witness:
  "Receive 5 (sample_world\<lparr>conns := [5 \<mapsto> \<lparr>sock = 5, msg = GameMessage_default, inboundQueue = []\<rparr>],
      rd_pending := (\<lambda>_. [255])\<rparr>) = None"
  by (rule Receive_length_255_diverges
    [where c = "\<lparr>sock = 5, msg = GameMessage_default, inboundQueue = []\<rparr>" and bs = "[]"]) simp_all

text \<open>Draining a buffer of zeros: a message of no bytes per round.\<close>

lemma recv_drain_zeros:
  assumes "br \<noteq> 0" "parse (replicate 255 0) 0 = m"
  shows "\<exists>r. recv_drain parse (replicate 256 0) 0 br q = Some (replicate 256 0, 0, 0, r) \<and>
    r = q @ replicate (unat br) m"
  using assms
proof (induction "unat br" arbitrary: br q)
  case 0
  then show ?case by (simp add: unat_eq_0)
next
  case (Suc n)
  have le: "(1 :: size_t) \<le> br" using Suc.prems(1) by (simp add: word_le_nat_alt unat_gt_0 Suc_leI)
  have drop: "drop 1 (replicate 256 (0 :: byte)) = replicate 255 0" by simp
  have z: "int_of_size 0 = 0" using int_of_size_small [of 0] by simp
  have sz: "size_of_char 0 = 0" using size_of_char_small [of 0] by simp
  have mm: "memmove (replicate 256 0) 1 = replicate 256 (0 :: byte)"
    unfolding memmove_def length_replicate drop_replicate replicate_add [symmetric] by simp
  have step: "recv_drain parse (replicate 256 0) 0 br q =
      (if br - 1 = 0 then Some (replicate 256 0, 0, br - 1, q @ [m])
       else recv_drain parse (replicate 256 0) 0 (br - 1) (q @ [m]))"
    using le Suc.prems(2) mm sz by (subst recv_drain.simps) (simp only: Let_def drop z if_True add_0, simp)
  have u: "n = unat (br - 1)" using Suc.hyps(2) Suc.prems(1) by (simp add: unat_minus_one)
  show ?case
  proof (cases "br - 1 = 0")
    case True
    then show ?thesis using step u Suc.hyps(2) by simp
  next
    case False
    then show ?thesis
      using Suc.hyps(1) [OF u False Suc.prems(2), of "q @ [m]"] step Suc.hyps(2) u
      by (simp flip: Suc.hyps(2))
  qed
qed

text \<open>
  C35. A failing \<open>read\<close> is taken for \<open>2 ^ 64 - 1\<close> received bytes. When the read times out (it
  returns \<open>-1\<close>), \<open>Receive\<close> does not answer \<open>nullopt\<close>: it parses empty messages out of the
  zeroed buffer, returns the first and queues the other \<open>2 ^ 64 - 2\<close>.
\<close>

theorem Receive_read_error_floods:
  assumes "conns w p = Some c" and "inboundQueue c = []"
    and "fd_open w (sock c) \<longrightarrow> (\<exists>es. rd_events w (sock c) = ReadError # es)"
  shows "\<exists>w' c'. Receive p w = Some (Inr (Some (ParseFromArray w (replicate 255 0) 0), w')) \<and>
    conns w' p = Some c' \<and>
    inboundQueue c' = replicate (2 ^ 64 - 2) (ParseFromArray w (replicate 255 0) 0)"
proof -
  let ?m = "ParseFromArray w (replicate 255 0) 0" and ?b = "replicate 256 (0 :: byte)"
  obtain w1 where rd: "sys_read (sock c) 256 w = (- 1, [], w1)" "conns w1 = conns w"
    using assms(3) by (cases "fd_open w (sock c)") (auto simp: sys_read_def)
  have sz: "size_of_char 0 = 0" using size_of_char_small [of 0] by simp
  have q: "replicate (unat (- 1 :: size_t)) ?m = ?m # replicate (2 ^ 64 - 2) ?m"
  proof -
    have "unat (- 1 :: size_t) = Suc (2 ^ 64 - 2)" unfolding unat_max_size by simp
    then show ?thesis by (simp only: replicate_Suc)
  qed
  have "recv_drain (ParseFromArray w) ?b 0 (- 1) [] = Some (?b, 0, 0, ?m # replicate (2 ^ 64 - 2) ?m)"
    using recv_drain_zeros [of "- 1" "ParseFromArray w" ?m "[]"] unfolding q by simp
  moreover have "hd ([] @ replicate (256 - length ([] :: byte list)) (0 :: byte)) = 0"
    "[] @ replicate (256 - length ([] :: byte list)) (0 :: byte) = ?b" by simp_all
  ultimately have "Receive p w = Some (pop_front p (?m # replicate (2 ^ 64 - 2) ?m) w1)"
    using assms(1,2) rd(1) sz by (simp only: Receive_def Let_def option.case prod.case if_True if_False) simp
  then show ?thesis using assms(1) rd(2)
    by (simp only: pop_front_def list.case set_queue_def option.case) simp
qed

theorem Receive_read_error_floods_witness:
  "\<exists>w' c'. Receive 5 (sample_world\<lparr>conns := [5 \<mapsto> \<lparr>sock = 5, msg = GameMessage_default, inboundQueue = []\<rparr>],
      rd_events := (\<lambda>_. [ReadError])\<rparr>) = Some (Inr (Some GameMessage_default, w')) \<and>
    conns w' 5 = Some c' \<and> inboundQueue c' = replicate (2 ^ 64 - 2) GameMessage_default"
proof -
  let ?c = "\<lparr>sock = 5, msg = GameMessage_default, inboundQueue = []\<rparr>"
  let ?w = "sample_world\<lparr>conns := [5 \<mapsto> ?c], rd_events := (\<lambda>_. [ReadError])\<rparr>"
  have "ParseFromArray ?w (replicate 255 0) 0 = GameMessage_default" by (simp add: sample_world_def)
  then show ?thesis using Receive_read_error_floods [of ?w 5 ?c] by (simp only:) simp
qed

end
