(* ===== verification/TileMap.thy ===== *)
theory TileMap
  imports Prelude
begin

section \<open>The tile map (\<open>shared/game/Map.h\<close>, \<open>shared/game/Map.cpp\<close>)\<close>

text \<open>
  The board is an \<open>int\<close> array of 17 columns and 11 rows: 0 is floor, 1 an indestructible
  wall, 2 a crate. \<open>getSquareState\<close> and \<open>setSquareState\<close> index it without a bounds check, so an
  index outside the array is an undefined behaviour of the model. \<open>map_wf\<close> is the
  well-formedness every operation keeps, and the locale \<open>tile_grid\<close> is the contract of the map
  the explosion relies on.
\<close>

abbreviation (input) MAP_WIDTH :: int where "MAP_WIDTH \<equiv> 17"
abbreviation (input) MAP_HEIGHT :: int where "MAP_HEIGHT \<equiv> 11"
abbreviation (input) NOTHIN :: int where "NOTHIN \<equiv> 0"

record tmap =
  grid :: "int list list"
  cols :: int
  rows :: int
  offset :: int
  start_x :: int
  start_y :: int
  tsize :: int

text \<open>The array's initialiser, one list per column.\<close>

definition initial_grid :: "int list list" where
  "initial_grid =
    [[1, 1, 1, 1, 1, 1, 1, 1, 1, 1, 1], [1, 0, 0, 2, 2, 2, 2, 2, 0, 0, 1],
     [1, 0, 1, 2, 1, 2, 1, 2, 1, 0, 1], [1, 2, 2, 2, 2, 2, 2, 2, 2, 2, 1],
     [1, 2, 1, 2, 1, 2, 1, 2, 1, 2, 1], [1, 2, 2, 2, 2, 2, 2, 2, 2, 2, 1],
     [1, 2, 1, 2, 1, 2, 1, 2, 1, 2, 1], [1, 2, 2, 2, 2, 2, 2, 2, 2, 2, 1],
     [1, 2, 1, 2, 1, 2, 1, 2, 1, 2, 1], [1, 2, 2, 2, 2, 2, 2, 2, 2, 2, 1],
     [1, 2, 1, 2, 1, 2, 1, 2, 1, 2, 1], [1, 2, 2, 2, 2, 2, 2, 2, 2, 2, 1],
     [1, 2, 1, 2, 1, 2, 1, 2, 1, 2, 1], [1, 2, 2, 2, 2, 2, 2, 2, 2, 2, 1],
     [1, 0, 1, 2, 1, 2, 1, 2, 1, 0, 1], [1, 0, 0, 2, 2, 2, 2, 2, 0, 0, 1],
     [1, 1, 1, 1, 1, 1, 1, 1, 1, 1, 1]]"

text \<open>
  The constructor. \<open>cols / 2\<close> and \<open>rows / 2\<close> divide \<open>int\<close>s; \<open>width / 2\<close> is a float division
  and the difference a double one, which are exact for the sizes the program passes
  (17 by 11 on the server, 800 by 450 in the client).
\<close>

definition Map_new :: "int \<Rightarrow> rat \<Rightarrow> rat \<Rightarrow> tmap res" where
  "Map_new sz width height =
    (let off = truncate_rat (of_int (sz * 4) / 3) in
     andThen (to_int32 (truncate_rat (width / 2 - of_int (MAP_WIDTH div 2) * of_int off))) (\<lambda>sx.
     andThen (to_int32 (truncate_rat (height / 2 - of_int (MAP_HEIGHT div 2) * of_int off))) (\<lambda>sy.
     Inr \<lparr>grid = initial_grid, cols = MAP_WIDTH, rows = MAP_HEIGHT, offset = off,
          start_x = sx, start_y = sy, tsize = sz\<rparr>)))"

definition in_array :: "int \<Rightarrow> int \<Rightarrow> bool" where
  "in_array x y \<longleftrightarrow> 0 \<le> x \<and> x < MAP_WIDTH \<and> 0 \<le> y \<and> y < MAP_HEIGHT"

definition getSquareState :: "tmap \<Rightarrow> int \<Rightarrow> int \<Rightarrow> int res" where
  "getSquareState m x y =
    (if in_array x y then Inr (grid m ! nat x ! nat y)
     else Inl (Undefined ''map index out of bounds''))"

definition setSquareState :: "tmap \<Rightarrow> int \<Rightarrow> int \<Rightarrow> int \<Rightarrow> tmap res" where
  "setSquareState m x y v =
    (if in_array x y then
       Inr (m\<lparr>grid := (grid m)[nat x := (grid m ! nat x)[nat y := v]]\<rparr>)
     else Inl (Undefined ''map index out of bounds''))"

subsection \<open>Well-formed maps\<close>

definition tile :: "tmap \<Rightarrow> int \<Rightarrow> int \<Rightarrow> int" where
  "tile m x y = grid m ! nat x ! nat y"

definition on_border :: "int \<Rightarrow> int \<Rightarrow> bool" where
  "on_border x y \<longleftrightarrow> x = 0 \<or> x = MAP_WIDTH - 1 \<or> y = 0 \<or> y = MAP_HEIGHT - 1"

definition interior :: "int \<Rightarrow> int \<Rightarrow> bool" where
  "interior x y \<longleftrightarrow> 0 < x \<and> x < MAP_WIDTH - 1 \<and> 0 < y \<and> y < MAP_HEIGHT - 1"

definition map_wf :: "tmap \<Rightarrow> bool" where
  "map_wf m \<longleftrightarrow> length (grid m) = 17 \<and> (\<forall>c \<in> set (grid m). length c = 11) \<and>
    (\<forall>x y. in_array x y \<longrightarrow> tile m x y \<in> {0, 1, 2}) \<and>
    (\<forall>x y. in_array x y \<longrightarrow> on_border x y \<longrightarrow> tile m x y = 1)"

lemma interior_in_array [simp, intro]: "interior x y \<Longrightarrow> in_array x y"
  by (simp add: interior_def in_array_def)

lemma interior_iff: "interior x y \<longleftrightarrow> in_array x y \<and> \<not> on_border x y"
  by (auto simp: interior_def in_array_def on_border_def)

lemma getSquareState_in: "in_array x y \<Longrightarrow> getSquareState m x y = Inr (tile m x y)"
  by (simp add: getSquareState_def tile_def)

lemma getSquareState_out: "\<not> in_array x y \<Longrightarrow> \<exists>e. getSquareState m x y = Inl e"
  by (simp add: getSquareState_def)

lemma getSquareState_InrD: "getSquareState m x y = Inr v \<Longrightarrow> in_array x y \<and> v = tile m x y"
  by (auto simp: getSquareState_def tile_def split: if_splits)

lemma map_wf_tile: "map_wf m \<Longrightarrow> in_array x y \<Longrightarrow> tile m x y = 0 \<or> tile m x y = 1 \<or> tile m x y = 2"
  unfolding map_wf_def by blast

lemma map_wf_border: "map_wf m \<Longrightarrow> in_array x y \<Longrightarrow> tile m x y \<noteq> 1 \<Longrightarrow> interior x y"
  unfolding map_wf_def interior_iff by blast

lemma tile_set:
  assumes "map_wf m" "interior x y" "setSquareState m x y v = Inr m'"
  shows "tile m' x' y' = (if x' = x \<and> y' = y then v else tile m x' y')"
proof -
  have x: "nat x < length (grid m)"
    using assms by (auto simp: map_wf_def interior_def)
  then have "length (grid m ! nat x) = 11"
    using assms(1) unfolding map_wf_def by simp
  then have y: "nat y < length (grid m ! nat x)"
    using assms(2) by (simp add: interior_def nat_less_iff)
  have "nat x' = nat x \<longleftrightarrow> x' = x" "nat y' = nat y \<longleftrightarrow> y' = y"
    using assms(2) by (auto simp: interior_def nat_eq_iff)
  moreover have "m' = m\<lparr>grid := (grid m)[nat x := (grid m ! nat x)[nat y := v]]\<rparr>"
    using assms(2,3) by (auto simp: setSquareState_def)
  ultimately show ?thesis
    using x y by (cases "x' = x"; cases "y' = y") (simp_all add: tile_def)
qed

text \<open>Writing 0 or 2 to an interior tile keeps a map well-formed.\<close>

lemma setSquareState_wf:
  assumes wf: "map_wf m" and inr: "interior x y" and v: "v \<in> {0, 1, 2}"
  obtains m' where "setSquareState m x y v = Inr m'" "map_wf m'"
proof -
  let ?m' = "m\<lparr>grid := (grid m)[nat x := (grid m ! nat x)[nat y := v]]\<rparr>"
  have set: "setSquareState m x y v = Inr ?m'"
    using inr by (auto simp: setSquareState_def)
  have len: "nat x < length (grid m)"
    using wf inr by (auto simp: map_wf_def interior_def)
  have cols: "\<forall>c \<in> set (grid ?m'). length c = 11"
    using wf len set_update_subset_insert [of "grid m" "nat x" "(grid m ! nat x)[nat y := v]"]
    by (auto simp: map_wf_def)
  have tiles: "tile ?m' a b = (if a = x \<and> b = y then v else tile m a b)" for a b
    using tile_set [OF wf inr set] .
  have "map_wf ?m'"
    unfolding map_wf_def using wf cols tiles v inr
    by (auto simp: map_wf_def interior_iff)
  with set show ?thesis using that by blast
qed

subsection \<open>The contract of the map\<close>

text \<open>
  What a scan over the tiles may rely on: reads inside the array return the tile, a write to a
  tile that is not a wall changes that tile only, and the board is walled in: every
  neighbour of a tile that is not a wall is inside the array.
\<close>

locale tile_grid =
  fixes get :: "'m \<Rightarrow> int \<Rightarrow> int \<Rightarrow> int res"
    and put :: "'m \<Rightarrow> int \<Rightarrow> int \<Rightarrow> int \<Rightarrow> 'm res"
    and tl_of :: "'m \<Rightarrow> int \<Rightarrow> int \<Rightarrow> int"
    and ok :: "'m \<Rightarrow> bool"
    and inside :: "int \<Rightarrow> int \<Rightarrow> bool"
  assumes get_inside: "ok m \<Longrightarrow> inside x y \<Longrightarrow> get m x y = Inr (tl_of m x y)"
    and put_inside: "ok m \<Longrightarrow> inside x y \<Longrightarrow> tl_of m x y \<noteq> 1 \<Longrightarrow>
      \<exists>m'. put m x y 0 = Inr m' \<and> ok m' \<and>
        (\<forall>a b. tl_of m' a b = (if a = x \<and> b = y then 0 else tl_of m a b))"
    and walled: "ok m \<Longrightarrow> inside x y \<Longrightarrow> tl_of m x y \<noteq> 1 \<Longrightarrow> \<bar>dx\<bar> + \<bar>dy\<bar> = 1 \<Longrightarrow>
      inside (x + dx) (y + dy)"

lemma interior_neighbour: "interior x y \<Longrightarrow> \<bar>dx\<bar> + \<bar>dy\<bar> = 1 \<Longrightarrow> in_array (x + dx) (y + dy)"
  by (auto simp: interior_def in_array_def)

interpretation tmap_grid: tile_grid getSquareState setSquareState tile map_wf in_array
proof unfold_locales
  fix m x y
  assume wf: "map_wf m" and i: "in_array x y" and w: "tile m x y \<noteq> 1"
  have int: "interior x y" using map_wf_border [OF wf i w] .
  then obtain m' where m': "setSquareState m x y 0 = Inr m'" "map_wf m'"
    using setSquareState_wf [OF wf, of x y 0] by auto
  then show "\<exists>m'. setSquareState m x y 0 = Inr m' \<and> map_wf m' \<and>
      (\<forall>a b. tile m' a b = (if a = x \<and> b = y then 0 else tile m a b))"
    using tile_set [OF wf int m'(1)] by blast
next
  fix m x y and dx dy :: int
  assume "map_wf m" "in_array x y" "tile m x y \<noteq> 1" "\<bar>dx\<bar> + \<bar>dy\<bar> = 1"
  then show "in_array (x + dx) (y + dy)"
    using map_wf_border interior_neighbour by blast
qed (simp add: getSquareState_in)

subsection \<open>The initial board\<close>

lemma all_columns: "(\<forall>x::int. 0 \<le> x \<longrightarrow> x < 17 \<longrightarrow> P x) \<longleftrightarrow> (\<forall>x \<in> set [0..16]. P x)"
  by auto

lemma all_rows: "(\<forall>y::int. 0 \<le> y \<longrightarrow> y < 11 \<longrightarrow> P y) \<longleftrightarrow> (\<forall>y \<in> set [0..10]. P y)"
  by auto

definition initial_ok :: bool where
  "initial_ok \<longleftrightarrow> length initial_grid = 17 \<and> list_all (\<lambda>c. length c = 11) initial_grid \<and>
    list_all (\<lambda>x. list_all (\<lambda>y. initial_grid ! nat x ! nat y \<in> {0, 1, 2} \<and>
       (on_border x y \<longrightarrow> initial_grid ! nat x ! nat y = 1)) [0..10]) [0..16]"

lemma initial_ok: initial_ok
  by code_simp

lemma Map_new_wf:
  assumes "Map_new sz width height = Inr m"
  shows "map_wf m"
proof -
  have g: "grid m = initial_grid"
    using assms by (auto simp: Map_new_def Let_def)
  have "tile m x y \<in> {0, 1, 2} \<and> (on_border x y \<longrightarrow> tile m x y = 1)" if "in_array x y" for x y
  proof -
    have "x \<in> set [0..16]" "y \<in> set [0..10]" using that by (auto simp: in_array_def)
    then show ?thesis using initial_ok g unfolding initial_ok_def list_all_iff tile_def by simp
  qed
  then show ?thesis
    using initial_ok g by (auto simp: map_wf_def initial_ok_def list_all_iff)
qed

end
