(* ===== verification/Bomb.thy ===== *)
theory Bomb
  imports TileMap World
begin

section \<open>Bombs and fire (\<open>shared/game/Bomb.h\<close>, \<open>Bomb.cpp\<close>, \<open>TileOnFire.h\<close>, \<open>TileOnFire.cpp\<close>)\<close>

text \<open>
  A bomb sits on a tile and burns along the four axes up to a range. \<open>boom\<close> is the code's
  explosion: four scans that stop at a wall and, unless the bomb is atomic, at the first crate,
  turning crates into floor. \<open>blast\<close> is the specification: the tiles a bomb reaches, as a
  function of the board before the explosion. The scans are verified against it once, over any
  map that satisfies the contract \<open>tile_grid\<close>.
\<close>

subsection \<open>Burning tiles\<close>

record TileOnFire =
  fire_x :: int
  fire_y :: int
  on_fire_since :: rat
  should_burn_for :: rat

text \<open>
  \<open>now\<close> is raylib's \<open>GetTime()\<close>. The duration is the float \<open>0.3f\<close>, a little more than 3/10.
\<close>

definition burn_time :: rat where
  "burn_time = 10066330 / 33554432"

definition TileOnFire_new :: "rat \<Rightarrow> int \<Rightarrow> int \<Rightarrow> TileOnFire" where
  "TileOnFire_new now x y =
    \<lparr>fire_x = x, fire_y = y, on_fire_since = now, should_burn_for = burn_time\<rparr>"

definition shouldCalmDown :: "rat \<Rightarrow> TileOnFire \<Rightarrow> bool" where
  "shouldCalmDown now t \<longleftrightarrow> now - on_fire_since t \<ge> should_burn_for t"

subsection \<open>Bombs\<close>

record bomb =
  pos_x :: int
  pos_y :: int
  explosion :: int
  bsize :: int
  plant_time :: int
  animation_start :: int
  ttl :: rat
  bstate :: int
  is_atomic :: bool

definition Bomb_new :: "int \<Rightarrow> int \<Rightarrow> int \<Rightarrow> int \<Rightarrow> int \<Rightarrow> rat \<Rightarrow> bool \<Rightarrow> bomb" where
  "Bomb_new x y expl sz timestamp t atomic =
    \<lparr>pos_x = x, pos_y = y, explosion = expl, bsize = sz, plant_time = timestamp,
     animation_start = timestamp, ttl = t, bstate = - 1, is_atomic = atomic\<rparr>"

text \<open>\<open>now\<close> is the reading of \<open>util::TimestampMillis\<close> the function makes.\<close>

definition ShouldExplode :: "int \<Rightarrow> bomb \<Rightarrow> bool" where
  "ShouldExplode now b \<longleftrightarrow> of_int now > of_int (plant_time b) + ttl b * 1000"

definition animate :: "int \<Rightarrow> bomb \<Rightarrow> bomb" where
  "animate now b =
    (if now - animation_start b \<ge> 500
     then b\<lparr>bstate := bstate b * - 1, animation_start := now\<rparr> else b)"

text \<open>The timer of a planted bomb: a descriptor that becomes readable when the fuse has burnt down.\<close>

abbreviation (input) FUSE_TIME_SEC :: int where "FUSE_TIME_SEC \<equiv> 3"

definition CreateBombTimerfd :: "world \<Rightarrow> (int \<times> world) res" where
  "CreateBombTimerfd w =
    (let (timerfd, w1) = sys_open TimerCreate w in
     if timerfd = - 1 then Inl (RuntimeError ''timerfd create'')
     else let (r, w2) = sys_call (TimerSet timerfd FUSE_TIME_SEC) w1 in
       if r = - 1 then Inl (RuntimeError ''timerfd set'') else Inr (timerfd, w2))"

subsection \<open>The explosion\<close>

text \<open>
  One scan: the loop variable \<open>k\<close> runs over a list, the direction is \<open>(dx, dy)\<close>. The n-th tile
  set on fire reads the clock \<open>gt\<close> for the n-th time.
\<close>

primrec boom_scan ::
  "('m \<Rightarrow> int \<Rightarrow> int \<Rightarrow> int res) \<Rightarrow> ('m \<Rightarrow> int \<Rightarrow> int \<Rightarrow> int \<Rightarrow> 'm res) \<Rightarrow> (nat \<Rightarrow> rat) \<Rightarrow> bomb
    \<Rightarrow> int \<Rightarrow> int \<Rightarrow> int list \<Rightarrow> TileOnFire list \<times> 'm \<Rightarrow> (TileOnFire list \<times> 'm) res" where
  "boom_scan get put gt b dx dy [] s = Inr s"
| "boom_scan get put gt b dx dy (k # ks) s =
    (case s of (tilesLitUp, m) \<Rightarrow>
      let x = pos_x b + k * dx; y = pos_y b + k * dy;
          lit = tilesLitUp @ [TileOnFire_new (gt (length tilesLitUp)) x y] in
      andThen (get m x y) (\<lambda>may_be_wall.
        if may_be_wall = 1 then Inr (tilesLitUp, m)
        else if may_be_wall = 2 then
          andThen (put m x y 0) (\<lambda>m'.
            if \<not> is_atomic b then Inr (lit, m')
            else boom_scan get put gt b dx dy ks (lit, m'))
        else boom_scan get put gt b dx dy ks (lit, m)))"

definition boom :: "(nat \<Rightarrow> rat) \<Rightarrow> bomb \<Rightarrow> tmap \<Rightarrow> (TileOnFire list \<times> tmap) res" where
  "boom gt b m =
    (let range = [1..explosion b - 1];
         scan = boom_scan getSquareState setSquareState gt b in
     iterE (\<lambda>direction s.
         andThen (scan direction 0 range s) (\<lambda>s. scan 0 direction range s))
       [- 1, 1] ([TileOnFire_new (gt 0) (pos_x b) (pos_y b)], m))"

subsection \<open>The specification\<close>

text \<open>The tiles a scan reaches on a board given as a function.\<close>

primrec reached ::
  "(int \<Rightarrow> int \<Rightarrow> int) \<Rightarrow> bomb \<Rightarrow> int \<Rightarrow> int \<Rightarrow> int list \<Rightarrow> (int \<times> int) list" where
  "reached t b dx dy [] = []"
| "reached t b dx dy (k # ks) =
    (let x = pos_x b + k * dx; y = pos_y b + k * dy in
     if t x y = 1 then []
     else (x, y) # (if t x y = 2 \<and> \<not> is_atomic b then [] else reached t b dx dy ks))"

definition blast :: "(int \<Rightarrow> int \<Rightarrow> int) \<Rightarrow> bomb \<Rightarrow> (int \<times> int) list" where
  "blast t b =
    (let r = [1..explosion b - 1] in
     (pos_x b, pos_y b) # reached t b (- 1) 0 r @ reached t b 0 (- 1) r @
       reached t b 1 0 r @ reached t b 0 1 r)"

abbreviation fire_at :: "TileOnFire \<Rightarrow> int \<times> int" where
  "fire_at f \<equiv> (fire_x f, fire_y f)"

lemma fire_at_new [simp]: "fire_at (TileOnFire_new now x y) = (x, y)"
  by (simp add: TileOnFire_new_def)

text \<open>Burning down the crates on a list of tiles.\<close>

definition burn :: "(int \<times> int) list \<Rightarrow> (int \<Rightarrow> int \<Rightarrow> int) \<Rightarrow> int \<Rightarrow> int \<Rightarrow> int" where
  "burn ps t x y = (if (x, y) \<in> set ps \<and> t x y = 2 then 0 else t x y)"

lemma burn_Nil [simp]: "burn [] t = t"
  by (intro ext) (simp add: burn_def)

lemma burn_append: "burn ps (burn qs t) = burn (qs @ ps) t"
  by (intro ext) (auto simp: burn_def)

lemma burn_wall [simp]: "burn ps t x y = 1 \<longleftrightarrow> t x y = 1"
  by (auto simp: burn_def)

lemma burn_floor: "t x y = 0 \<Longrightarrow> burn ps t x y = 0"
  by (simp add: burn_def)

text \<open>A tile of a scan is \<open>k\<close> steps away, so what other tiles hold does not matter to it.\<close>

lemma reached_cong:
  "(\<And>k. k \<in> set ks \<Longrightarrow> t (pos_x b + k * dx) (pos_y b + k * dy) = t' (pos_x b + k * dx) (pos_y b + k * dy))
    \<Longrightarrow> reached t b dx dy ks = reached t' b dx dy ks"
  by (induction ks) (auto simp: Let_def)

lemma reached_subset:
  "(x, y) \<in> set (reached t b dx dy ks) \<Longrightarrow>
    \<exists>k \<in> set ks. x = pos_x b + k * dx \<and> y = pos_y b + k * dy"
  by (induction ks) (auto simp: Let_def split: if_splits)

lemma reached_not_wall: "(x, y) \<in> set (reached t b dx dy ks) \<Longrightarrow> t x y \<noteq> 1"
  by (induction ks) (auto simp: Let_def split: if_splits)

lemma scan_tiles_distinct:
  "\<bar>dx\<bar> + \<bar>dy\<bar> = 1 \<Longrightarrow> x0 + k * dx = x0 + l * dx \<and> y0 + k * dy = y0 + l * dy \<longleftrightarrow> k = (l::int)"
proof -
  assume "\<bar>dx\<bar> + \<bar>dy\<bar> = 1"
  then have "dx \<noteq> 0 \<or> dy \<noteq> 0" by auto
  then show ?thesis by auto
qed

context tile_grid
begin

text \<open>
  A scan that starts next to a tile inside the array never leaves the array: it stops at a wall,
  and the neighbours of what is not a wall are inside. It lights what the specification says and
  burns the crates among it.
\<close>

lemma boom_scan_correct:
  assumes dir: "\<bar>dx\<bar> + \<bar>dy\<bar> = 1"
    and "ok m" and "i \<ge> 1"
    and "inside (pos_x b + i * dx) (pos_y b + i * dy) \<or> n < i"
  shows "\<exists>fs m'. boom_scan get put gt b dx dy [i..n] (fs0, m) = Inr (fs0 @ fs, m') \<and>
    map fire_at fs = reached (tl_of m) b dx dy [i..n] \<and> ok m' \<and>
    tl_of m' = burn (reached (tl_of m) b dx dy [i..n]) (tl_of m)"
  using assms(2-4)
proof (induction "nat (n - i + 1)" arbitrary: i m fs0)
  case 0
  then show ?case by (simp add: burn_def)
next
  case (Suc d)
  let ?x = "pos_x b + i * dx" and ?y = "pos_y b + i * dy"
  have le: "i \<le> n" using Suc.hyps(2) by simp
  then have upto: "[i..n] = i # [i + 1..n]" by (simp add: upto_rec1)
  have ins: "inside ?x ?y" using Suc.prems le by simp
  have get: "get m ?x ?y = Inr (tl_of m ?x ?y)" using get_inside Suc.prems(1) ins by blast
  show ?case
  proof (cases "tl_of m ?x ?y = 1")
    case True
    then show ?thesis using get upto Suc.prems by (simp add: burn_def)
  next
    case notwall: False
    let ?lit = "fs0 @ [TileOnFire_new (gt (length fs0)) ?x ?y]"
    have "inside (?x + dx) (?y + dy)" using walled Suc.prems(1) ins notwall dir by blast
    then have next_inside: "inside (pos_x b + (i + 1) * dx) (pos_y b + (i + 1) * dy)"
      by (simp add: algebra_simps)
    have d: "d = nat (n - (i + 1) + 1)" using Suc.hyps(2) by simp
    have i1: "1 \<le> i + 1" using Suc.prems(2) by simp
    have later: "\<not> (pos_x b + k * dx = ?x \<and> pos_y b + k * dy = ?y)" if "k \<in> set [i + 1..n]" for k
      using that scan_tiles_distinct [OF dir, of "pos_x b" k i "pos_y b"] by auto
    show ?thesis
    proof (cases "tl_of m ?x ?y = 2")
      case False
      from Suc.hyps(1) [OF d Suc.prems(1) i1 disjI1 [OF next_inside], of ?lit]
      show ?thesis using get upto notwall False by (force simp: burn_def Let_def)
    next
      case crate: True
      obtain m1 where m1: "put m ?x ?y 0 = Inr m1" "ok m1"
        and t1: "\<And>a c. tl_of m1 a c = (if a = ?x \<and> c = ?y then 0 else tl_of m a c)"
        using put_inside [OF Suc.prems(1) ins notwall] by blast
      show ?thesis
      proof (cases "is_atomic b")
        case False
        have "tl_of m1 = burn [(?x, ?y)] (tl_of m)"
          by (intro ext) (simp add: burn_def t1 crate)
        then show ?thesis using False get upto notwall crate m1 by (simp add: Let_def)
      next
        case atomic: True
        obtain fs m' where IH:
            "boom_scan get put gt b dx dy [i + 1..n] (?lit, m1) = Inr (?lit @ fs, m')"
            "map fire_at fs = reached (tl_of m1) b dx dy [i + 1..n]" "ok m'"
            "tl_of m' = burn (reached (tl_of m1) b dx dy [i + 1..n]) (tl_of m1)"
          using Suc.hyps(1) [OF d m1(2) i1 disjI1 [OF next_inside], of ?lit] by blast
        have same: "reached (tl_of m1) b dx dy [i + 1..n] = reached (tl_of m) b dx dy [i + 1..n]"
          by (rule reached_cong) (use later t1 in auto)
        have "burn (reached (tl_of m) b dx dy [i + 1..n]) (tl_of m1) =
            burn ((?x, ?y) # reached (tl_of m) b dx dy [i + 1..n]) (tl_of m)"
          by (intro ext) (auto simp: burn_def t1 crate)
        then show ?thesis
          using IH get upto notwall crate atomic m1 same by (simp add: Let_def)
      qed
    qed
  qed
qed

end

subsection \<open>The explosion on the program's map\<close>

lemma in_upto_range: "k \<in> set [1..n - 1] \<longleftrightarrow> 1 \<le> k \<and> k < n"
  by auto

text \<open>Scans in different directions do not see each other's effect.\<close>

lemma reached_burn_other:
  assumes "\<And>k l. 1 \<le> k \<Longrightarrow> 1 \<le> l \<Longrightarrow> (l * dx', l * dy') \<noteq> (k * dx, k * dy)"
    and "\<And>q. q \<in> set qs \<Longrightarrow> \<exists>k \<ge> 1. q = (pos_x b + k * dx, pos_y b + k * dy)"
  shows "reached (burn qs t) b dx' dy' [1..n] = reached t b dx' dy' [1..n]"
proof (rule reached_cong)
  fix l assume "l \<in> set [1..n]"
  then have "(pos_x b + l * dx', pos_y b + l * dy') \<notin> set qs"
    using assms(1) assms(2) by (auto dest!: assms(2))
  then show "burn qs t (pos_x b + l * dx') (pos_y b + l * dy') =
      t (pos_x b + l * dx') (pos_y b + l * dy')"
    by (simp add: burn_def)
qed

lemma reached_offset:
  "q \<in> set (reached t b dx dy [1..n]) \<Longrightarrow> \<exists>k \<ge> 1. q = (pos_x b + k * dx, pos_y b + k * dy)"
  by (cases q) (auto dest!: reached_subset)

lemma scan_from_interior:
  assumes "\<bar>dx\<bar> + \<bar>dy\<bar> = 1" "map_wf m" "interior (pos_x b) (pos_y b)"
  shows "\<exists>fs m'. boom_scan getSquareState setSquareState gt b dx dy [1..n] (fs0, m) =
      Inr (fs0 @ fs, m') \<and>
    map fire_at fs = reached (tile m) b dx dy [1..n] \<and> map_wf m' \<and>
    tile m' = burn (reached (tile m) b dx dy [1..n]) (tile m)"
  using tmap_grid.boom_scan_correct [OF assms(1,2), of 1 b n gt fs0]
    interior_neighbour [OF assms(3,1)] by simp

lemma boom_blast:
  assumes wf: "map_wf m" and inr: "interior (pos_x b) (pos_y b)"
  shows "\<exists>fs m'. boom gt b m = Inr (fs, m') \<and> map fire_at fs = blast (tile m) b \<and>
    map_wf m' \<and> tile m' = burn (tl (blast (tile m) b)) (tile m)"
proof -
  let ?n = "explosion b - 1" and ?scan = "boom_scan getSquareState setSquareState gt b"
  let ?fs0 = "[TileOnFire_new (gt 0) (pos_x b) (pos_y b)]"
  let ?R = "\<lambda>t dx dy. reached t b dx dy [1..?n]"
  obtain f1 m1 where 1: "?scan (- 1) 0 [1..?n] (?fs0, m) = Inr (?fs0 @ f1, m1)"
      "map fire_at f1 = ?R (tile m) (- 1) 0" "map_wf m1" "tile m1 = burn (?R (tile m) (- 1) 0) (tile m)"
    using scan_from_interior [OF _ wf inr, of "- 1" 0 gt ?n ?fs0] by auto
  obtain f2 m2 where 2: "?scan 0 (- 1) [1..?n] (?fs0 @ f1, m1) = Inr ((?fs0 @ f1) @ f2, m2)"
      "map fire_at f2 = ?R (tile m1) 0 (- 1)" "map_wf m2" "tile m2 = burn (?R (tile m1) 0 (- 1)) (tile m1)"
    using scan_from_interior [OF _ 1(3) inr, of 0 "- 1" gt ?n "?fs0 @ f1"] by auto
  obtain f3 m3 where 3: "?scan 1 0 [1..?n] ((?fs0 @ f1) @ f2, m2) = Inr (((?fs0 @ f1) @ f2) @ f3, m3)"
      "map fire_at f3 = ?R (tile m2) 1 0" "map_wf m3" "tile m3 = burn (?R (tile m2) 1 0) (tile m2)"
    using scan_from_interior [OF _ 2(3) inr, of 1 0 gt ?n "(?fs0 @ f1) @ f2"] by auto
  obtain f4 m4 where 4: "?scan 0 1 [1..?n] (((?fs0 @ f1) @ f2) @ f3, m3) =
        Inr ((((?fs0 @ f1) @ f2) @ f3) @ f4, m4)"
      "map fire_at f4 = ?R (tile m3) 0 1" "map_wf m4" "tile m4 = burn (?R (tile m3) 0 1) (tile m3)"
    using scan_from_interior [OF _ 3(3) inr, of 0 1 gt ?n "((?fs0 @ f1) @ f2) @ f3"] by auto
  have r2: "?R (tile m1) 0 (- 1) = ?R (tile m) 0 (- 1)"
    unfolding 1(4) by (rule reached_burn_other [OF _ reached_offset]) auto
  have r3: "?R (tile m2) 1 0 = ?R (tile m) 1 0"
  proof -
    have "?R (tile m2) 1 0 = ?R (tile m1) 1 0"
      unfolding 2(4) by (rule reached_burn_other [OF _ reached_offset]) auto
    also have "\<dots> = ?R (tile m) 1 0"
      unfolding 1(4) by (rule reached_burn_other [OF _ reached_offset]) auto
    finally show ?thesis .
  qed
  have r4: "?R (tile m3) 0 1 = ?R (tile m) 0 1"
  proof -
    have "?R (tile m3) 0 1 = ?R (tile m2) 0 1"
      unfolding 3(4) by (rule reached_burn_other [OF _ reached_offset]) auto
    also have "\<dots> = ?R (tile m1) 0 1"
      unfolding 2(4) by (rule reached_burn_other [OF _ reached_offset]) auto
    also have "\<dots> = ?R (tile m) 0 1"
      unfolding 1(4) by (rule reached_burn_other [OF _ reached_offset]) auto
    finally show ?thesis .
  qed
  have "boom gt b m = Inr (?fs0 @ f1 @ f2 @ f3 @ f4, m4)"
    using 1(1) 2(1) 3(1) 4(1) by (simp add: boom_def Let_def)
  moreover have "map fire_at (?fs0 @ f1 @ f2 @ f3 @ f4) = blast (tile m) b"
    using 1(2) 2(2) 3(2) 4(2) r2 r3 r4 by (simp add: blast_def Let_def)
  moreover have "tile m4 = burn (tl (blast (tile m) b)) (tile m)"
    using 1(4) 2(4) 3(4) 4(4) r2 r3 r4 by (simp add: blast_def Let_def burn_append)
  ultimately show ?thesis using 4(3) by blast
qed

subsection \<open>Properties\<close>

text \<open>The specification, tile by tile.\<close>

definition burns_through :: "(int \<Rightarrow> int \<Rightarrow> int) \<Rightarrow> bomb \<Rightarrow> int \<Rightarrow> int \<Rightarrow> int \<Rightarrow> bool" where
  "burns_through t b dx dy j \<longleftrightarrow> t (pos_x b + j * dx) (pos_y b + j * dy) \<noteq> 1 \<and>
    (is_atomic b \<or> t (pos_x b + j * dx) (pos_y b + j * dy) \<noteq> 2)"

definition blast_reaches :: "(int \<Rightarrow> int \<Rightarrow> int) \<Rightarrow> bomb \<Rightarrow> int \<Rightarrow> int \<Rightarrow> int \<Rightarrow> bool" where
  "blast_reaches t b dx dy k \<longleftrightarrow>
    t (pos_x b + k * dx) (pos_y b + k * dy) \<noteq> 1 \<and>
    (\<forall>j. 1 \<le> j \<and> j < k \<longrightarrow> burns_through t b dx dy j)"

lemma first_step:
  fixes i n :: int
  assumes "i \<le> n"
  shows "(\<exists>k. i \<le> k \<and> k \<le> n \<and> X k \<and> (\<forall>j. i \<le> j \<and> j < k \<longrightarrow> P j)) \<longleftrightarrow>
    X i \<or> P i \<and> (\<exists>k. i + 1 \<le> k \<and> k \<le> n \<and> X k \<and> (\<forall>j. i + 1 \<le> j \<and> j < k \<longrightarrow> P j))"
    (is "?L \<longleftrightarrow> X i \<or> P i \<and> ?R")
proof
  assume ?L
  then obtain k where k: "i \<le> k" "k \<le> n" "X k" "\<forall>j. i \<le> j \<and> j < k \<longrightarrow> P j" by blast
  show "X i \<or> P i \<and> ?R"
  proof (cases "k = i")
    case False
    then have "i + 1 \<le> k" "P i" using k by auto
    moreover have "\<forall>j. i + 1 \<le> j \<and> j < k \<longrightarrow> P j" using k(4) by simp
    ultimately show ?thesis using k by blast
  qed (use k in simp)
next
  assume "X i \<or> P i \<and> ?R"
  then show ?L
  proof
    assume "X i"
    moreover have "\<forall>j. i \<le> j \<and> j < i \<longrightarrow> P j" by auto
    ultimately show ?L using assms by blast
  next
    assume "P i \<and> ?R"
    then obtain k where k: "P i" "i + 1 \<le> k" "k \<le> n" "X k" "\<forall>j. i + 1 \<le> j \<and> j < k \<longrightarrow> P j"
      by blast
    have "P j" if "i \<le> j" "j < k" for j
      using that k(1,5) by (cases "j = i") auto
    then show ?L using k(2-4) by (intro exI [of _ k]) simp
  qed
qed

lemma reached_iff_from:
  "(x, y) \<in> set (reached t b dx dy [i..n]) \<longleftrightarrow>
    (\<exists>k. i \<le> k \<and> k \<le> n \<and> (x = pos_x b + k * dx \<and> y = pos_y b + k * dy \<and> t x y \<noteq> 1) \<and>
      (\<forall>j. i \<le> j \<and> j < k \<longrightarrow> burns_through t b dx dy j))"
  (is "_ \<longleftrightarrow> ?Q i")
proof (induction "nat (n - i + 1)" arbitrary: i)
  case 0
  then show ?case by simp
next
  case (Suc d)
  have le: "i \<le> n" using Suc.hyps(2) by simp
  have up: "[i..n] = i # [i + 1..n]" using le by (simp add: upto_rec1)
  have IH: "(x, y) \<in> set (reached t b dx dy [i + 1..n]) \<longleftrightarrow> ?Q (i + 1)"
    by (rule Suc.hyps(1)) (use Suc.hyps(2) in simp)
  show ?case unfolding first_step [OF le] up using IH
    by (auto simp: Let_def burns_through_def)
qed

lemma reached_iff:
  "(x, y) \<in> set (reached t b dx dy [1..explosion b - 1]) \<longleftrightarrow>
    (\<exists>k. 1 \<le> k \<and> k < explosion b \<and> x = pos_x b + k * dx \<and> y = pos_y b + k * dy \<and>
      blast_reaches t b dx dy k)"
  unfolding reached_iff_from blast_reaches_def by auto

lemma blast_iff:
  "(x, y) \<in> set (blast t b) \<longleftrightarrow> (x = pos_x b \<and> y = pos_y b) \<or>
    (\<exists>dx dy k. \<bar>dx\<bar> + \<bar>dy\<bar> = 1 \<and> 1 \<le> k \<and> k < explosion b \<and>
      x = pos_x b + k * dx \<and> y = pos_y b + k * dy \<and> blast_reaches t b dx dy k)"
proof -
  have dirs: "\<bar>dx\<bar> + \<bar>dy\<bar> = 1 \<longleftrightarrow>
      dx = - 1 \<and> dy = 0 \<or> dx = 0 \<and> dy = - 1 \<or> dx = 1 \<and> dy = 0 \<or> dx = 0 \<and> dy = 1" for dx dy :: int
    by arith
  show ?thesis
    unfolding dirs blast_def Let_def
    by (simp only: set_simps set_append Un_iff insert_iff prod.inject reached_iff) blast
qed

lemma distinct_reached:
  assumes "\<bar>dx\<bar> + \<bar>dy\<bar> = 1"
  shows "distinct (reached t b dx dy [i..n])"
proof (induction "nat (n - i + 1)" arbitrary: i)
  case 0
  then show ?case by simp
next
  case (Suc d)
  have up: "[i..n] = i # [i + 1..n]" using Suc.hyps(2) by (simp add: upto_rec1)
  have "distinct (reached t b dx dy [i + 1..n])"
    by (rule Suc.hyps(1)) (use Suc.hyps(2) in simp)
  moreover have "(pos_x b + i * dx, pos_y b + i * dy) \<notin> set (reached t b dx dy [i + 1..n])"
  proof
    assume "(pos_x b + i * dx, pos_y b + i * dy) \<in> set (reached t b dx dy [i + 1..n])"
    then obtain k where "i + 1 \<le> k" "pos_x b + i * dx = pos_x b + k * dx"
        "pos_y b + i * dy = pos_y b + k * dy"
      by (auto dest!: reached_subset)
    then show False
      using scan_tiles_distinct [OF assms, of "pos_x b" i k "pos_y b"] by simp
  qed
  ultimately show ?case unfolding up by (simp add: Let_def)
qed

lemma distinct_blast: "distinct (blast t b)"
  by (auto simp: blast_def Let_def distinct_reached dest!: reached_offset)

lemma center_notin_tl: "(pos_x b, pos_y b) \<notin> set (tl (blast t b))"
  using distinct_blast [of t b] by (simp add: blast_def Let_def)

text \<open>The map of the server, \<open>Map(25, MAP_WIDTH, MAP_HEIGHT)\<close>.\<close>

definition server_map :: tmap where
  "server_map = \<lparr>grid = initial_grid, cols = 17, rows = 11, offset = 33,
    start_x = - 255, start_y = - 159, tsize = 25\<rparr>"

lemma Map_new_server: "Map_new 25 17 11 = Inr server_map"
proof -
  have "\<lfloor>100 / 3 :: rat\<rfloor> = 33" by (rule floor_unique) simp_all
  moreover have "\<lceil>- (511 / 2) :: rat\<rceil> = - 255" by (rule ceiling_unique) simp_all
  moreover have "\<lceil>- (319 / 2) :: rat\<rceil> = - 159" by (rule ceiling_unique) simp_all
  ultimately show ?thesis
    by (simp add: Map_new_def truncate_rat_def to_int32_def int32_ok_def server_map_def Let_def)
qed

lemma server_map_wf [simp]: "map_wf server_map"
  using Map_new_server by (rule Map_new_wf)

text \<open>
  C11. The explosion of a bomb inside the walls of a well-formed board never leaves the board and
  meets its specification: it sets on fire the bomb's tile and, along the four axes within
  its range, the tiles up to the first wall and (unless it is atomic) up to and including the
  first crate, no tile twice; exactly the crates among them other than the bomb's own tile
  become floor, every other tile is unchanged, and the board stays well-formed.
\<close>

theorem boom_burns_blast:
  assumes "map_wf m" and "interior (pos_x b) (pos_y b)"
  shows "\<exists>fs m'. boom gt b m = Inr (fs, m') \<and> map_wf m' \<and> distinct (map fire_at fs) \<and>
    (\<forall>x y. (x, y) \<in> set (map fire_at fs) \<longleftrightarrow> (x = pos_x b \<and> y = pos_y b) \<or>
      (\<exists>dx dy k. \<bar>dx\<bar> + \<bar>dy\<bar> = 1 \<and> 1 \<le> k \<and> k < explosion b \<and>
        x = pos_x b + k * dx \<and> y = pos_y b + k * dy \<and> blast_reaches (tile m) b dx dy k)) \<and>
    (\<forall>x y. tile m' x y = (if tile m x y = 2 \<and> (x, y) \<noteq> (pos_x b, pos_y b) \<and>
        (x, y) \<in> set (map fire_at fs) then 0 else tile m x y))"
proof -
  obtain fs m' where b: "boom gt b m = Inr (fs, m')" "map fire_at fs = blast (tile m) b"
      "map_wf m'" "tile m' = burn (tl (blast (tile m) b)) (tile m)"
    using boom_blast [OF assms] by blast
  have "(x, y) \<in> set (tl (blast (tile m) b)) \<longleftrightarrow>
      (x, y) \<noteq> (pos_x b, pos_y b) \<and> (x, y) \<in> set (blast (tile m) b)" for x y
    using center_notin_tl [of b "tile m"] by (auto simp: blast_def Let_def)
  then have "tile m' x y = (if tile m x y = 2 \<and> (x, y) \<noteq> (pos_x b, pos_y b) \<and>
      (x, y) \<in> set (map fire_at fs) then 0 else tile m x y)" for x y
    unfolding b(2,4) burn_def by auto
  then show ?thesis
    using b(1,3) distinct_blast [of "tile m" b] blast_iff [of _ _ "tile m" b]
    unfolding b(2) [symmetric] by blast
qed

theorem boom_burns_blast_witness:
  "map_wf server_map \<and> interior 1 1 \<and>
    (\<exists>fs m'. boom (\<lambda>_. 0) (Bomb_new 1 1 3 25 0 3 False) server_map = Inr (fs, m') \<and> map_wf m')"
proof -
  have i: "interior (pos_x (Bomb_new 1 1 3 25 0 3 False)) (pos_y (Bomb_new 1 1 3 25 0 3 False))"
    by (simp add: interior_def Bomb_new_def)
  show ?thesis
    using boom_burns_blast [OF server_map_wf i, of "\<lambda>_. 0"] by (auto simp: interior_def)
qed

lemma boom_scan_error:
  "boom_scan getSquareState setSquareState gt b dx dy ks s = Inl e \<Longrightarrow>
    e = Undefined ''map index out of bounds''"
  by (induction ks arbitrary: s)
    (auto simp: Let_def andThen_def getSquareState_def setSquareState_def
      split: if_splits sum.splits prod.splits)

lemma boom_scan_leaves:
  assumes "\<not> in_array (pos_x b + dx) (pos_y b + dy)" "1 \<le> n"
  shows "boom_scan getSquareState setSquareState gt b dx dy [1..n] s =
    Inl (Undefined ''map index out of bounds'')"
proof -
  have "[1..n] = 1 # [1 + 1..n]" using assms(2) by (rule upto_rec1)
  then show ?thesis using assms(1) by (simp add: getSquareState_def split: prod.splits)
qed

lemma boom_outside:
  assumes "explosion b \<ge> 2" and out: "\<not> interior (pos_x b) (pos_y b)"
  shows "boom gt b m = Inl (Undefined ''map index out of bounds'')"
proof -
  have n: "1 \<le> explosion b - 1" using assms by simp
  have "\<not> in_array (pos_x b + - 1) (pos_y b + 0) \<or> \<not> in_array (pos_x b + 0) (pos_y b + - 1) \<or>
      \<not> in_array (pos_x b + 1) (pos_y b + 0) \<or> \<not> in_array (pos_x b + 0) (pos_y b + 1)"
    using out by (auto simp: interior_def in_array_def)
  then have "boom gt b m \<noteq> Inr r" for r
    using boom_scan_leaves [OF _ n] by (auto simp: boom_def Let_def andThen_eq_Inr)
  moreover have "boom gt b m = Inl e \<Longrightarrow> e = Undefined ''map index out of bounds''" for e
    by (auto simp: boom_def Let_def andThen_def dest: boom_scan_error split: sum.splits)
  ultimately show ?thesis
    by (cases "boom gt b m") auto
qed

text \<open>
  A bomb with a range that is not strictly inside the walls makes the explosion index the
  board's array out of bounds, whatever the board: for every such bomb the result is the
  undefined behaviour, and on a well-formed board that happens for no other bomb.
\<close>

theorem boom_out_of_bounds:
  assumes "explosion b \<ge> 2"
  shows "(\<not> interior (pos_x b) (pos_y b) \<longrightarrow>
      boom gt b m = Inl (Undefined ''map index out of bounds'')) \<and>
    (map_wf m \<longrightarrow> interior (pos_x b) (pos_y b) \<longrightarrow> (\<exists>r. boom gt b m = Inr r))"
  using boom_outside [OF assms] boom_blast by blast

theorem boom_out_of_bounds_witness:
  "boom (\<lambda>_. 0) (Bomb_new 20 5 3 25 0 3 False) server_map =
    Inl (Undefined ''map index out of bounds'')"
  using boom_out_of_bounds [of "Bomb_new 20 5 3 25 0 3 False" "\<lambda>_. 0" server_map]
  by (simp add: Bomb_new_def interior_def)

text \<open>A floor tile stays floor.\<close>

lemma boom_keeps_floor:
  assumes "boom gt b m = Inr (fs, m')" "map_wf m" "explosion b \<ge> 2"
  shows "map_wf m' \<and> (\<forall>x y. tile m x y = 0 \<longrightarrow> tile m' x y = 0)"
proof -
  have "interior (pos_x b) (pos_y b)"
    using boom_outside [OF assms(3), of gt m] assms(1) by auto
  then show ?thesis using boom_blast [OF assms(2), of b gt] assms(1) by (auto simp: burn_def)
qed

lemma boom_distinct:
  assumes "boom gt b m = Inr (fs, m')" "map_wf m" "explosion b \<ge> 2"
  shows "distinct (map fire_at fs)"
proof -
  have "interior (pos_x b) (pos_y b)"
    using boom_outside [OF assms(3), of gt m] assms(1) by auto
  then show ?thesis
    using boom_blast [OF assms(2), of b gt] assms(1) distinct_blast [of "tile m" b] by auto
qed

end
