(* ===== verification/Player.thy ===== *)
theory Player
  imports World
begin

section \<open>The server's player (\<open>server/entities\<close>)\<close>

text \<open>
  A player of a room: its connection, lives, position and the ring of its last five recorded
  moves, with which \<open>MoveCheckSus\<close> limits how fast it may move. The floats of a position only
  ever hold converted \<open>int\<close>s (the constructor's constants and the arguments of
  \<open>MoveCheckSus\<close>), so the model keeps the integer and rounds where the code converts or
  subtracts (\<open>float_of_int\<close>). \<open>addr\<close> is the address of the object, what the code compares when
  it compares pointers.
\<close>

abbreviation (input) STARTER_LIVES :: int where "STARTER_LIVES \<equiv> 3"
abbreviation (input) IMMUNITY_TIME_MILLIS :: int where "IMMUNITY_TIME_MILLIS \<equiv> 500"
abbreviation (input) PLAYER_SUS_TRESHHOLD_MILLIS :: int where
  "PLAYER_SUS_TRESHHOLD_MILLIS \<equiv> 50"

record Coords =
  cx :: int
  cy :: int

record MovementEntry =
  me_ts :: int
  me_coords :: Coords

record player =
  addr :: nat
  conn :: int
  livesRemaining :: int
  username :: string
  color :: PlayerColor
  immunityEndTimestamp :: int
  markedForDisconnect :: bool
  coords :: Coords
  moveHistory :: "MovementEntry list"
  step :: int

definition mk_coords :: "int \<Rightarrow> int \<Rightarrow> Coords" where
  "mk_coords x y = \<lparr>cx = x, cy = y\<rparr>"

definition start_coords :: "PlayerColor \<Rightarrow> Coords option" where
  "start_coords c = (case c of
     PLAYER_RED \<Rightarrow> Some (mk_coords 1 1)
   | PLAYER_GREEN \<Rightarrow> Some (mk_coords 15 1)
   | PLAYER_BLUE \<Rightarrow> Some (mk_coords 1 9)
   | PLAYER_YELLOW \<Rightarrow> Some (mk_coords 15 9)
   | _ \<Rightarrow> None)"

text \<open>The constructor leaves \<open>step\<close> uninitialised.\<close>

definition Player_new :: "int \<Rightarrow> string \<Rightarrow> PlayerColor \<Rightarrow> world \<Rightarrow> (player \<times> world) res" where
  "Player_new c name col w =
    (let (now, w1) = TimestampMillis w; a = next_addr w1 in
     case start_coords col of
       None \<Rightarrow> Inl (RuntimeError ''unhandled color starting position'')
     | Some pos \<Rightarrow> Inr
        (\<lparr>addr = a, conn = c, livesRemaining = STARTER_LIVES, username = name, color = col,
          immunityEndTimestamp = now, markedForDisconnect = False, coords = pos,
          moveHistory = replicate 5 \<lparr>me_ts = 0, me_coords = mk_coords 0 0\<rparr>, step = junk w1 a\<rparr>,
         w1\<lparr>next_addr := Suc a\<rparr>))"

definition GetCoords :: "player \<Rightarrow> Coords" where
  "GetCoords p = coords p"

text \<open>\<open>int move_x = std::abs(x - coords.x)\<close>: a float subtraction of the converted \<open>int\<close>.\<close>

definition move_dist :: "int \<Rightarrow> int \<Rightarrow> int res" where
  "move_dist x c = to_int32 \<bar>float_of_int (float_of_int x - c)\<bar>"

text \<open>
  \<open>diff\<close> is the value of the comparison \<open>ts - moveHistory[oldest_step].ts < 50\<close> (the comparison
  binds weaker than the subtraction), 0 or 1.
\<close>

definition MoveCheckSus :: "int \<Rightarrow> int \<Rightarrow> player \<Rightarrow> world \<Rightarrow> (Coords option \<times> player \<times> world) res" where
  "MoveCheckSus x y p w =
    (if x < 0 \<or> y < 0 then Inr (Some (coords p), p, w)
     else andThen (move_dist x (cx (coords p))) (\<lambda>move_x.
     andThen (move_dist y (cy (coords p))) (\<lambda>move_y.
       if move_x \<noteq> 0 \<and> move_y \<noteq> 0 then Inr (Some (coords p), p, w)
       else andThen (to_int32 (step p + 1)) (\<lambda>step1.
         let new = mk_coords (float_of_int x) (float_of_int y) in
         if step1 < 6 then Inr (None, p\<lparr>step := step1, coords := new\<rparr>, w)
         else (let (ts, w1) = TimestampMillis w;
                   oldest_step = (if step1 mod 5 = 4 then 0 else step1 mod 5 + 1);
                   oldest = moveHistory p ! nat oldest_step;
                   diff = (if ts - me_ts oldest < PLAYER_SUS_TRESHHOLD_MILLIS then 1 else 0 :: int) in
           if diff > 0 \<and> diff < PLAYER_SUS_TRESHHOLD_MILLIS
           then Inr (Some (me_coords oldest), p\<lparr>step := 0\<rparr>, w1)
           else Inr (None, p\<lparr>step := step1, coords := new,
             moveHistory := (moveHistory p)
               [nat (step1 mod 5) := \<lparr>me_ts = ts, me_coords = new\<rparr>]\<rparr>, w1))))))"

subsection \<open>What a move changes\<close>

lemma move_dist_zero:
  assumes "0 \<le> x" "x < 2 ^ 24" "0 \<le> c" "c < 2 ^ 24"
  shows "move_dist x c = Inr \<bar>x - c\<bar>"
proof -
  have "\<bar>x - c\<bar> < 2 ^ 24" using assms by arith
  then show ?thesis
    using assms by (simp add: move_dist_def float_of_int_exact to_int32_def int32_ok_def)
qed

text \<open>A move writes the position, the history and the step counter only.\<close>

lemma MoveCheckSus_frame:
  "MoveCheckSus x y p w = Inr (r, p', w') \<Longrightarrow>
    p' = p\<lparr>coords := coords p', moveHistory := moveHistory p', step := step p'\<rparr>"
  by (auto simp: MoveCheckSus_def Let_def TimestampMillis_def split: if_splits prod.splits)

lemma MoveCheckSus_world:
  "MoveCheckSus x y p w = Inr (r, p', w') \<Longrightarrow> w' = w \<or> w' = w\<lparr>tick := Suc (tick w)\<rparr>"
  by (auto simp: MoveCheckSus_def Let_def TimestampMillis_def split: if_splits prod.splits)

lemma MoveCheckSus_coords:
  "MoveCheckSus x y p w = Inr (r, p', w') \<Longrightarrow>
    coords p' = (if r = None then mk_coords (float_of_int x) (float_of_int y) else coords p)"
  by (auto simp: MoveCheckSus_def Let_def TimestampMillis_def split: if_splits prod.splits)

lemma MoveCheckSus_history:
  "MoveCheckSus x y p w = Inr (r, p', w') \<Longrightarrow> length (moveHistory p') = length (moveHistory p)"
  by (auto simp: MoveCheckSus_def Let_def TimestampMillis_def split: if_splits prod.splits)

lemma MoveCheckSus_entries:
  assumes "MoveCheckSus x y p w = Inr (r, p', w')"
  shows "\<forall>e \<in> set (moveHistory p'). e \<in> set (moveHistory p) \<or> me_coords e = mk_coords (float_of_int x) (float_of_int y)"
proof -
  have "moveHistory p' = moveHistory p \<or>
      (\<exists>i t. moveHistory p' = (moveHistory p)[i := \<lparr>me_ts = t, me_coords = mk_coords (float_of_int x) (float_of_int y)\<rparr>])"
    using assms by (auto simp: MoveCheckSus_def Let_def TimestampMillis_def split: if_splits prod.splits; blast)
  then show ?thesis by (auto dest!: set_update_subset_insert [THEN subsetD])
qed

lemma MoveCheckSus_correction:
  assumes "MoveCheckSus x y p w = Inr (Some c, p', w')"
  shows "c = coords p \<or> (length (moveHistory p) = 5 \<longrightarrow> (\<exists>e \<in> set (moveHistory p). c = me_coords e))"
proof -
  let ?k = "(step p + 1) mod 5"
  have "c = coords p \<or> c = me_coords (moveHistory p ! nat (if ?k = 4 then 0 else ?k + 1))"
    using assms by (auto simp: MoveCheckSus_def Let_def TimestampMillis_def split: if_splits prod.splits)
  moreover have "0 \<le> ?k" "?k < 5" by simp_all
  then have "nat (if ?k = 4 then 0 else ?k + 1) < 5" by auto
  ultimately show ?thesis by (auto intro!: bexI)
qed

subsection \<open>The rate limit\<close>

text \<open>
  The specification of the ring: the times of the moves recorded since the step counter was
  last below 6, most recent first. \<open>log_move\<close> extends it after a call, \<open>ring_ok\<close> says that the
  ring of five holds its first five entries.
\<close>

definition log_move :: "player \<Rightarrow> player \<Rightarrow> int list \<Rightarrow> int list" where
  "log_move p p' recs =
    (if step p' = step p then recs
     else if step p' < 6 then []
     else me_ts (moveHistory p' ! nat (step p' mod 5)) # recs)"

primrec move_run :: "(int \<times> int) list \<Rightarrow> player \<Rightarrow> int list \<Rightarrow> world \<Rightarrow> (player \<times> int list \<times> world) res" where
  "move_run [] p recs w = Inr (p, recs, w)"
| "move_run (m # ms) p recs w =
    andThen (MoveCheckSus (fst m) (snd m) p w) (\<lambda>(r, p', w').
      move_run ms p' (log_move p p' recs) w')"

definition ring_ok :: "player \<Rightarrow> int list \<Rightarrow> bool" where
  "ring_ok p recs \<longleftrightarrow> length (moveHistory p) = 5 \<and> (step p < 6 \<longrightarrow> recs = []) \<and>
    (\<forall>i < length recs. i < 5 \<longrightarrow>
      me_ts (moveHistory p ! nat ((step p - int i) mod 5)) = recs ! i)"

definition rate_ok :: "int list \<Rightarrow> bool" where
  "rate_ok recs \<longleftrightarrow> (\<forall>i. i + 4 < length recs \<longrightarrow> recs ! i - recs ! (i + 4) \<ge> PLAYER_SUS_TRESHHOLD_MILLIS)"

lemma ring_index:
  assumes "length h = 5" "0 < j" "j < 5"
  shows "h[nat ((s + 1) mod 5) := e] ! nat ((s + 1 - int j) mod 5) = h ! nat ((s + 1 - int j) mod 5)"
proof -
  have "(s + 1) mod 5 \<noteq> (s + 1 - int j) mod 5" using assms by presburger
  moreover have "0 \<le> (s + 1) mod 5" "0 \<le> (s + 1 - int j) mod 5" by simp_all
  ultimately have "nat ((s + 1) mod 5) \<noteq> nat ((s + 1 - int j) mod 5)" by linarith
  then show ?thesis by simp
qed

lemma ring_oldest: "(if s1 mod 5 = 4 then 0 else s1 mod 5 + 1) = (s1 - 4) mod (5::int)"
  by presburger

text \<open>A recorded move comes at least the threshold after the one four moves before it.\<close>

lemma ring_record:
  assumes ring: "ring_ok p recs" and rate: "rate_ok recs"
    and old: "ts - me_ts (moveHistory p ! nat ((step p + 1 - 4) mod 5)) \<ge> 50"
    and h: "moveHistory p' = (moveHistory p)[nat ((step p + 1) mod 5) := \<lparr>me_ts = ts, me_coords = c\<rparr>]"
    and s: "step p' = step p + 1" "6 \<le> step p'"
  shows "ring_ok p' (ts # recs) \<and> rate_ok (ts # recs)"
proof
  have len: "length (moveHistory p) = 5" using ring by (simp add: ring_ok_def)
  have idx: "nat ((step p + 1) mod 5) < 5" by (simp add: nat_less_iff)
  show "ring_ok p' (ts # recs)"
    unfolding ring_ok_def
  proof (intro conjI allI impI)
    show "length (moveHistory p') = 5" using h len by simp
    show "ts # recs = []" if "step p' < 6" using that s by simp
    fix i assume i: "i < length (ts # recs)" "i < 5"
    show "me_ts (moveHistory p' ! nat ((step p' - int i) mod 5)) = (ts # recs) ! i"
    proof (cases i)
      case 0
      then show ?thesis using h s len idx by simp
    next
      case (Suc j)
      have "moveHistory p' ! nat ((step p' - int i) mod 5) = moveHistory p ! nat ((step p - int j) mod 5)"
        using ring_index [of "moveHistory p" i "step p"] len i Suc h s by simp
      then show ?thesis using ring i Suc by (simp add: ring_ok_def)
    qed
  qed
  show "rate_ok (ts # recs)"
    unfolding rate_ok_def
  proof (intro allI impI)
    fix i assume i: "i + 4 < length (ts # recs)"
    show "(ts # recs) ! i - (ts # recs) ! (i + 4) \<ge> 50"
    proof (cases i)
      case 0
      then have "3 < length recs" using i by simp
      then have "me_ts (moveHistory p ! nat ((step p - int 3) mod 5)) = recs ! 3"
        using ring by (simp only: ring_ok_def)
      then show ?thesis using 0 old by (simp add: algebra_simps)
    next
      case (Suc j)
      then show ?thesis using rate i by (simp add: rate_ok_def add.commute)
    qed
  qed
qed

lemma MoveCheckSus_cases:
  assumes "MoveCheckSus x y p w = Inr (r, p', w')"
  shows "p' = p \<or> (\<exists>c. p' = p\<lparr>step := step p + 1, coords := c\<rparr> \<and> step p + 1 < 6) \<or>
    p' = p\<lparr>step := 0\<rparr> \<or>
    (\<exists>ts c. p' = p\<lparr>step := step p + 1, coords := c,
        moveHistory := (moveHistory p)[nat ((step p + 1) mod 5) := \<lparr>me_ts = ts, me_coords = c\<rparr>]\<rparr> \<and>
      6 \<le> step p + 1 \<and> ts - me_ts (moveHistory p ! nat ((step p + 1 - 4) mod 5)) \<ge> 50)"
proof -
  let ?new = "mk_coords (float_of_int x) (float_of_int y)" and ?i = "nat ((step p + 1 - 4) mod 5)"
  let ?now = "fst (TimestampMillis w)"
  have "p' = p \<or> p' = p\<lparr>step := step p + 1, coords := ?new\<rparr> \<and> step p + 1 < 6 \<or> p' = p\<lparr>step := 0\<rparr> \<or>
    p' = p\<lparr>step := step p + 1, coords := ?new,
        moveHistory := (moveHistory p)[nat ((step p + 1) mod 5) := \<lparr>me_ts = ?now, me_coords = ?new\<rparr>]\<rparr> \<and>
      6 \<le> step p + 1 \<and> ?now - me_ts (moveHistory p ! ?i) \<ge> 50"
    using assms unfolding MoveCheckSus_def ring_oldest Let_def
    by (simp add: andThen_eq_Inr split: if_splits prod.splits) (clarsimp split: if_splits; blast)+
  then show ?thesis by blast
qed

lemma MoveCheckSus_rate:
  assumes m: "MoveCheckSus x y p w = Inr (r, p', w')" and ok: "ring_ok p recs" "rate_ok recs"
  shows "ring_ok p' (log_move p p' recs) \<and> rate_ok (log_move p p' recs)"
  using MoveCheckSus_cases [OF m]
proof (elim disjE exE conjE)
  fix ts c
  assume p': "p' = p\<lparr>step := step p + 1, coords := c,
      moveHistory := (moveHistory p)[nat ((step p + 1) mod 5) := \<lparr>me_ts = ts, me_coords = c\<rparr>]\<rparr>"
    and s: "6 \<le> step p + 1"
    and ts: "ts - me_ts (moveHistory p ! nat ((step p + 1 - 4) mod 5)) \<ge> 50"
  have "log_move p p' recs = ts # recs"
    using ok p' s by (simp add: log_move_def ring_ok_def nat_less_iff)
  with ring_record [OF ok ts, of p' c] p' s show ?thesis by simp
qed (use ok in \<open>auto simp: log_move_def ring_ok_def rate_ok_def\<close>)

text \<open>
  C22. The rate limit. However a client moves, from a player whose history is a full ring and an
  empty log (in particular a new one, whatever its uninitialised step counter holds), every
  move the server records comes at least 50 milliseconds after the move recorded four before
  it, and the ring always holds the times of the last five recorded moves.
\<close>

theorem moves_rate_limited:
  assumes "move_run ms p [] w = Inr (p', recs, w')" and "length (moveHistory p) = 5"
  shows "(\<forall>i. i + 4 < length recs \<longrightarrow> recs ! i - recs ! (i + 4) \<ge> 50) \<and>
    (\<forall>i < min 5 (length recs). me_ts (moveHistory p' ! nat ((step p' - int i) mod 5)) = recs ! i)"
proof -
  have run: "move_run ms p recs0 w = Inr (p', recs, w') \<Longrightarrow> ring_ok p recs0 \<Longrightarrow> rate_ok recs0 \<Longrightarrow>
      ring_ok p' recs \<and> rate_ok recs" for recs0
  proof (induction ms arbitrary: p recs0 w)
    case Nil
    then show ?case by simp
  next
    case (Cons m ms)
    then obtain r q v where q: "MoveCheckSus (fst m) (snd m) p w = Inr (r, q, v)"
        "move_run ms q (log_move p q recs0) v = Inr (p', recs, w')"
      by auto
    with MoveCheckSus_rate [OF q(1) Cons.prems(2,3)] Cons.IH [OF q(2)] show ?case by blast
  qed
  have "ring_ok p [] \<and> rate_ok []" using assms(2) by (simp add: ring_ok_def rate_ok_def)
  then show ?thesis using run [OF assms(1)] by (simp add: ring_ok_def rate_ok_def)
qed

text \<open>A red player in its corner, for the witnesses.\<close>

definition sample_player :: player where
  "sample_player = \<lparr>addr = 0, conn = 5, livesRemaining = 3, username = ''ann'', color = PLAYER_RED,
    immunityEndTimestamp = 0, markedForDisconnect = False, coords = mk_coords 1 1,
    moveHistory = replicate 5 \<lparr>me_ts = 0, me_coords = mk_coords 0 0\<rparr>, step = 0\<rparr>"

theorem moves_rate_limited_witness:
  "\<exists>p' recs w'. move_run (replicate 10 (2, 1)) sample_player [] sample_world = Inr (p', recs, w') \<and>
    length recs = 5 \<and> recs ! 0 - recs ! 4 \<ge> 50"
proof -
  have "(case move_run (replicate 10 (2, 1)) sample_player [] sample_world of
      Inl _ \<Rightarrow> False | Inr (p', recs, w') \<Rightarrow> length recs = 5)"
    by code_simp
  then obtain p' recs w' where r:
      "move_run (replicate 10 (2, 1)) sample_player [] sample_world = Inr (p', recs, w')"
      "length recs = 5"
    by (auto split: sum.splits)
  moreover have "recs ! 0 - recs ! (0 + 4) \<ge> 50"
    using moves_rate_limited [OF r(1)] r(2) by (simp add: sample_player_def)
  ultimately show ?thesis by auto
qed

text \<open>
  C29. What one call of \<open>MoveCheckSus\<close> decides, for a target and a position on the board: a
  diagonal move is answered with the current position and nothing changes; of the others, the
  first five since the counter was reset are accepted unconditionally, and from the sixth on a
  move is accepted exactly when the move recorded four before is at least 50 milliseconds old;
  otherwise the answer is the position of that older move, the counter restarts, and the
  player's own position stays where it was.
\<close>

theorem MoveCheckSus_decision:
  assumes "0 \<le> x" "x < 2 ^ 24" "0 \<le> y" "y < 2 ^ 24"
    and "0 \<le> cx (coords p)" "cx (coords p) < 2 ^ 24" "0 \<le> cy (coords p)" "cy (coords p) < 2 ^ 24"
    and "- (2 ^ 31) \<le> step p" "step p < 2 ^ 31 - 1"
  shows "MoveCheckSus x y p w =
    (let old = moveHistory p ! nat ((step p - 3) mod 5); now = clk w (tick w) in
     if x \<noteq> cx (coords p) \<and> y \<noteq> cy (coords p) then Inr (Some (coords p), p, w)
     else if step p < 5 then Inr (None, p\<lparr>step := step p + 1, coords := mk_coords x y\<rparr>, w)
     else if me_ts old + 50 \<le> now then
       Inr (None, p\<lparr>step := step p + 1, coords := mk_coords x y,
         moveHistory := (moveHistory p)[nat ((step p + 1) mod 5) :=
           \<lparr>me_ts = now, me_coords = mk_coords x y\<rparr>]\<rparr>, w\<lparr>tick := Suc (tick w)\<rparr>)
     else Inr (Some (me_coords old), p\<lparr>step := 0\<rparr>, w\<lparr>tick := Suc (tick w)\<rparr>))"
proof -
  have d: "move_dist x (cx (coords p)) = Inr \<bar>x - cx (coords p)\<bar>"
    "move_dist y (cy (coords p)) = Inr \<bar>y - cy (coords p)\<bar>"
    using assms by (simp_all add: move_dist_zero)
  have s: "to_int32 (step p + 1) = Inr (step p + 1)"
    using assms(9,10) by (simp add: to_int32_def int32_ok_def)
  have f: "float_of_int x = x" "float_of_int y = y" "float_of_int (cx (coords p)) = cx (coords p)"
    "float_of_int (cy (coords p)) = cy (coords p)"
    using assms(1-8) by (simp_all add: float_of_int_exact)
  show ?thesis
    unfolding MoveCheckSus_def ring_oldest using assms(1,3) d s f
    by (simp add: Let_def TimestampMillis_def)
qed

theorem MoveCheckSus_decision_witness:
  "MoveCheckSus 2 1 sample_player sample_world =
    Inr (None, sample_player\<lparr>step := 1, coords := mk_coords 2 1\<rparr>, sample_world)"
  using MoveCheckSus_decision [of 2 1 sample_player sample_world]
  by (simp add: sample_player_def mk_coords_def)

end
