(* ===== verification/Room.thy ===== *)
theory Room
  imports Bomb Connection Player
begin

section \<open>The room (\<open>server/Room.h\<close>, \<open>server/Room.cpp\<close>)\<close>

text \<open>
  A room runs one game: its players (the most recently joined first), the queue of the bombs
  that have been planted, the board, and the state of the game. \<open>clientCount\<close> counts the joins.
  The functions are the methods of the class: each takes the room and the world and returns
  them updated, and follows the code's guards, its order of effects and its loops. A player is
  named by the address of its object; using an address that is no longer in the room is a use
  after free.

  The mutex of a room and the log are not modelled (nor the readings of the clock that only
  the log prints): every method runs under the server's room lock.
\<close>

abbreviation (input) MAX_PLAYERS :: int where "MAX_PLAYERS \<equiv> 4"

datatype GameState = WAIT_FOR_START | PLAY | WAIT_FOR_END | GAME_OVER

record room =
  players :: "player list"
  bombs :: "bomb list"
  rstate :: GameState
  clientCount :: int
  rmap :: tmap
  epollSock :: int

type_synonym sender = "int \<Rightarrow> world \<Rightarrow> (int option \<times> world) res"

definition Room_new :: "int \<Rightarrow> room res" where
  "Room_new epoll = andThen (Map_new 25 (of_int MAP_WIDTH) (of_int MAP_HEIGHT)) (\<lambda>m.
    Inr \<lparr>players = [], bombs = [], rstate = WAIT_FOR_START, clientCount = 0, rmap = m,
      epollSock = epoll\<rparr>)"

definition PlayerCount :: "room \<Rightarrow> int" where
  "PlayerCount r = clientCount r"

definition CanJoin :: "string \<Rightarrow> room \<Rightarrow> string option" where
  "CanJoin name r =
    (if name = [] then Some ''Empty username''
     else if list_ex (\<lambda>p. username p = name) (players r)
       then Some ''There already is a nick like that''
     else if MAX_PLAYERS - clientCount r = 0 then Some ''Room is full''
     else None)"

definition IsGameOver :: "room \<Rightarrow> bool" where
  "IsGameOver r \<longleftrightarrow> rstate r = GAME_OVER"

subsection \<open>Players of a room\<close>

definition find_player :: "nat \<Rightarrow> room \<Rightarrow> player option" where
  "find_player a r = find (\<lambda>p. addr p = a) (players r)"

definition upd_player :: "nat \<Rightarrow> (player \<Rightarrow> player) \<Rightarrow> room \<Rightarrow> room" where
  "upd_player a f r = r\<lparr>players := map (\<lambda>p. if addr p = a then f p else p) (players r)\<rparr>"

definition get_player :: "nat \<Rightarrow> room \<Rightarrow> player res" where
  "get_player a r = (case find_player a r of
     None \<Rightarrow> Inl (Undefined ''use of a destroyed player'') | Some p \<Rightarrow> Inr p)"

definition mark :: "player \<Rightarrow> player" where
  "mark p = p\<lparr>markedForDisconnect := True\<rparr>"

subsection \<open>Sending\<close>

definition sendSpecific :: "nat \<Rightarrow> sender \<Rightarrow> room \<times> world \<Rightarrow> (room \<times> world) res" where
  "sendSpecific a f s = (case s of (r, w) \<Rightarrow>
    andThen (get_player a r) (\<lambda>p.
    andThen (f (conn p) w) (\<lambda>(bytes_sent, w').
      Inr (if bytes_sent = None then upd_player a mark r else r, w'))))"

definition sendExcept :: "nat \<Rightarrow> sender \<Rightarrow> room \<times> world \<Rightarrow> (room \<times> world) res" where
  "sendExcept a f s =
    iterE (\<lambda>b s. if b \<noteq> a then sendSpecific b f s else Inr s) (map addr (players (fst s))) s"

definition sendBroadcast :: "sender \<Rightarrow> room \<times> world \<Rightarrow> (room \<times> world) res" where
  "sendBroadcast f s = iterE (\<lambda>b s. sendSpecific b f s) (map addr (players (fst s))) s"

subsection \<open>Joining\<close>

text \<open>\<open>static_cast<PlayerColor>(players.size())\<close>.\<close>

definition color_of_size :: "nat \<Rightarrow> PlayerColor" where
  "color_of_size n = (if n = 0 then PLAYER_RED else if n = 1 then PLAYER_GREEN
     else if n = 2 then PLAYER_BLUE else if n = 3 then PLAYER_YELLOW
     else PlayerColor_other (int n))"

definition JoinPlayer :: "int \<Rightarrow> string \<Rightarrow> room \<Rightarrow> world \<Rightarrow> (nat option \<times> room \<times> world) res" where
  "JoinPlayer c name r w =
    (if rstate r \<noteq> WAIT_FOR_START then Inr (None, r, w)
     else let col = color_of_size (length (players r)) in
       andThen (Player_new c name col w) (\<lambda>(p, w1).
       let r1 = r\<lparr>players := p # players r, clientCount := clientCount r + 1\<rparr>;
           player_list = map (\<lambda>p. (username p, color p)) (players r1) in
       andThen (sendSpecific (addr p) (SendWelcomeToRoom player_list) (r1, w1)) (\<lambda>s2.
       andThen (sendExcept (addr p) (SendGameJoin (name, col)) s2) (\<lambda>(r3, w3).
       if MAX_PLAYERS - clientCount r3 = 0 then
         andThen (sendBroadcast SendGameStart (r3\<lparr>rstate := PLAY\<rparr>, w3)) (\<lambda>(r4, w4).
           Inr (Some (addr p), r4, w4))
       else Inr (Some (addr p), r3, w3)))))"

subsection \<open>Messages from a client\<close>

definition place_bomb :: "GameMessage \<Rightarrow> nat \<Rightarrow> room \<Rightarrow> world \<Rightarrow> (bool \<times> room \<times> world) res" where
  "place_bomb payload author r w =
    andThen (get_player author r) (\<lambda>p.
    let (x, y) = msg_iplacebomb payload; (ts, w1) = TimestampMillis w;
        (ts2, w2) = TimestampMillis w1 in
    andThen (floor_to_int x) (\<lambda>bx. andThen (floor_to_int y) (\<lambda>by.
    let r1 = r\<lparr>bombs := bombs r @ [Bomb_new bx by 3 25 ts2 3 False]\<rparr> in
    andThen (sendExcept author (SendOtherBombPlace (username p) ts x y) (r1, w2)) (\<lambda>(r2, w3).
      Inr (True, r2, w3)))))"

definition correct_movement :: "nat \<Rightarrow> Coords \<Rightarrow> room \<times> world \<Rightarrow> (bool \<times> room \<times> world) res" where
  "correct_movement author c s =
    andThen (sendSpecific author (SendMovementCorrection (Fin (of_int (cx c))) (Fin (of_int (cy c)))) s)
      (\<lambda>(r, w). Inr (False, r, w))"

definition handle_move :: "GameMessage \<Rightarrow> nat \<Rightarrow> room \<Rightarrow> world \<Rightarrow> (bool \<times> room \<times> world) res" where
  "handle_move payload author r w =
    andThen (get_player author r) (\<lambda>p.
    let (x, y) = msg_imove payload in
    andThen (floor_to_int x) (\<lambda>adjusted_x. andThen (floor_to_int y) (\<lambda>adjusted_y.
    andThen (getSquareState (rmap r) adjusted_x adjusted_y) (\<lambda>tile_state.
    if tile_state \<noteq> NOTHIN then correct_movement author (GetCoords p) (r, w)
    else andThen (MoveCheckSus adjusted_x adjusted_y p w) (\<lambda>(correction, p', w1).
      let r1 = upd_player author (\<lambda>_. p') r in
      case correction of
        Some c \<Rightarrow> correct_movement author c (r1, w1)
      | None \<Rightarrow>
          andThen (sendExcept author (SendOtherMove (username p')
              (Fin (of_int (float_of_int adjusted_x))) (Fin (of_int (float_of_int adjusted_y))))
            (r1, w1)) (\<lambda>(r2, w2). Inr (False, r2, w2)))))))"

definition send_error :: "nat \<Rightarrow> string \<Rightarrow> room \<Rightarrow> world \<Rightarrow> (bool \<times> room \<times> world) res" where
  "send_error author e r w =
    andThen (sendSpecific author (SendError e) (r, w)) (\<lambda>(r1, w1). Inr (False, r1, w1))"

text \<open>The result tells the server whether to arm a bomb timer.\<close>

definition HandleMessage :: "GameMessage \<Rightarrow> nat \<Rightarrow> room \<Rightarrow> world \<Rightarrow> (bool \<times> room \<times> world) res" where
  "HandleMessage payload author r w =
    andThen (get_player author r) (\<lambda>p.
    if rstate r = WAIT_FOR_START then
      (if mtype payload \<noteq> I_LEAVE then send_error author ''Game hasn't started yet'' r w
       else case players r of
         [] \<Rightarrow> Inl (Undefined ''players[0] of an empty vector'')
       | q # qs \<Rightarrow> Inr (False, r\<lparr>players := mark q # qs\<rparr>, w))
    else if livesRemaining p = 0 \<and> mtype payload \<noteq> I_LEAVE
      then send_error author ''You can't really do anything while dead, can you?'' r w
    else (case mtype payload of
        I_PLACE_BOMB \<Rightarrow> place_bomb payload author r w
      | I_MOVE \<Rightarrow> handle_move payload author r w
      | I_LEAVE \<Rightarrow> Inr (False, upd_player author mark r, w)
      | _ \<Rightarrow> send_error author ''Unexpected message'' r w))"

subsection \<open>Explosions\<close>

text \<open>The body of the loop over the tiles on fire, for the player at \<open>a\<close>.\<close>

definition burn_player :: "nat \<Rightarrow> int \<Rightarrow> int \<Rightarrow> TileOnFire \<Rightarrow> room \<times> world \<Rightarrow> (room \<times> world) res" where
  "burn_player a ax ay t s = (case s of (r, w) \<Rightarrow>
    andThen (get_player a r) (\<lambda>p.
    if ax = fire_x t \<and> ay = fire_y t \<and> livesRemaining p > 0 then
      (let (now, w1) = TimestampMillis w in
       if immunityEndTimestamp p > now then Inr (r, w1)
       else (let (now2, w2) = TimestampMillis w1;
                 lives = livesRemaining p - 1;
                 r1 = upd_player a (\<lambda>p. p\<lparr>immunityEndTimestamp := now2 + IMMUNITY_TIME_MILLIS,
                   livesRemaining := lives\<rparr>) r;
                 (now3, w3) = TimestampMillis w2 in
         sendBroadcast (SendGotHit (username p) lives now3) (r1, w3)))
    else Inr (r, w)))"

definition explode_player :: "TileOnFire list \<Rightarrow> nat \<Rightarrow> room \<times> world \<Rightarrow> (room \<times> world) res" where
  "explode_player fs a s =
    andThen (get_player a (fst s)) (\<lambda>p.
    andThen (floor_to_int (Fin (of_int (cx (GetCoords p))))) (\<lambda>adjusted_x.
    andThen (floor_to_int (Fin (of_int (cy (GetCoords p))))) (\<lambda>adjusted_y.
      iterE (burn_player a adjusted_x adjusted_y) fs s)))"

definition alive :: "room \<Rightarrow> nat list" where
  "alive r = filter (\<lambda>i. livesRemaining (players r ! i) > 0) [0..<length (players r)]"

definition announce_winner :: "string \<Rightarrow> room \<times> world \<Rightarrow> (room \<times> world) res" where
  "announce_winner name s =
    andThen (sendBroadcast (SendGameWon name) s) (\<lambda>(r, w).
      let r1 = r\<lparr>rstate := WAIT_FOR_END\<rparr>; r2 = r1\<lparr>players := map mark (players r1)\<rparr> in
      Inr (r2\<lparr>rstate := GAME_OVER\<rparr>, w))"

definition NotifyExplosion :: "room \<Rightarrow> world \<Rightarrow> (room \<times> world) res" where
  "NotifyExplosion r w =
    (if rstate r \<noteq> PLAY \<or> bombs r = [] then Inr (r, w)
     else let b = hd (bombs r); r1 = r\<lparr>bombs := tl (bombs r)\<rparr>;
              alive_before_explosion = alive r1 in
       andThen (boom (\<lambda>n. gtime w (gtick w + n)) b (rmap r1)) (\<lambda>(result, m').
       let w2 = w\<lparr>gtick := gtick w + length result\<rparr>; r2 = r1\<lparr>rmap := m'\<rparr> in
       andThen (iterE (explode_player result) (map addr (players r2)) (r2, w2)) (\<lambda>(r3, w3).
       let people_alive = alive r3 in
       andThen
         (if people_alive = [] \<and> rstate r3 = PLAY then
            (let (winner, w4) = uniform_int 0 (length alive_before_explosion) w3 in
             if winner < length alive_before_explosion
             then announce_winner (username (players r3 ! (alive_before_explosion ! winner))) (r3, w4)
             else Inl (Undefined ''index past the end of a vector''))
          else Inr (r3, w3)) (\<lambda>(r4, w4).
       if length people_alive = 1 \<and> rstate r4 = PLAY
       then announce_winner (username (players r4 ! last people_alive)) (r4, w4)
       else Inr (r4, w4)))))"

subsection \<open>Disconnecting\<close>

definition drop_socket :: "int \<Rightarrow> int \<Rightarrow> world \<Rightarrow> world" where
  "drop_socket epoll s w = sys_close s (syscall (Shutdown s) (syscall (EpollDel epoll s) w))"

text \<open>
  One round of the loop over the players; the accumulators are the number of bombs to place, the
  sockets to delete and the players to destroy.
\<close>

definition disconnect_player ::
  "nat \<Rightarrow> (nat \<times> int list \<times> nat list) \<times> room \<times> world \<Rightarrow>
    ((nat \<times> int list \<times> nat list) \<times> room \<times> world) res" where
  "disconnect_player a s = (case s of ((bombs_to_place, socks, destroy), r, w) \<Rightarrow>
    andThen (get_player a r) (\<lambda>p.
    if \<not> markedForDisconnect p then Inr s
    else
      andThen (sendExcept a (SendOtherLeave (username p)) (r, w)) (\<lambda>(r1, w1).
      andThen (conn_sock (conn p) w1) (\<lambda>sk.
      let w2 = drop_socket (epollSock r1) sk w1;
          socks' = socks @ [sk]; destroy' = destroy @ [a] in
      if rstate r1 = PLAY \<and> livesRemaining p \<noteq> 0 then
        andThen (floor_to_int (Fin (of_int (cx (GetCoords p))))) (\<lambda>x.
        andThen (floor_to_int (Fin (of_int (cy (GetCoords p))))) (\<lambda>y.
        let (ts, w3) = TimestampMillis w2;
            r2 = r1\<lparr>bombs := bombs r1 @ [Bomb_new x y 9 25 ts 3 True]\<rparr>;
            (ts2, w4) = TimestampMillis w3 in
        andThen (sendExcept a (SendOtherBombPlace ''Server'' ts2
            (Fin (of_int (float_of_int x))) (Fin (of_int (float_of_int y)))) (r2, w4))
          (\<lambda>(r3, w5). Inr ((Suc bombs_to_place, socks', destroy'), r3, w5))))
      else Inr ((bombs_to_place, socks', destroy'), r1, w2)))))"

primrec erase_player :: "player list \<Rightarrow> nat \<Rightarrow> player list" where
  "erase_player [] a = []"
| "erase_player (p # ps) a = (if addr p = a then ps else p # erase_player ps a)"

definition DisconnectPlayers :: "room \<Rightarrow> world \<Rightarrow> ((nat \<times> int list) \<times> room \<times> world) res" where
  "DisconnectPlayers r w =
    andThen (iterE disconnect_player (map addr (players r)) ((0, [], []), r, w))
      (\<lambda>((bombs_to_place, socks, destroy), r1, w1).
      let r2 = r1\<lparr>players := foldl erase_player (players r1) destroy\<rparr> in
      case players r2 of
        [] \<Rightarrow> Inr ((bombs_to_place, socks), r2\<lparr>rstate := GAME_OVER\<rparr>, w1)
      | [p] \<Rightarrow>
          andThen (sendBroadcast (SendGameWon (username p)) (r2, w1)) (\<lambda>(r3, w2).
          andThen (conn_sock (conn p) w2) (\<lambda>sk.
            let r4 = r3\<lparr>rstate := WAIT_FOR_END\<rparr>; w3 = drop_socket (epollSock r4) sk w2 in
            Inr ((bombs_to_place, socks @ [sk]), r4\<lparr>players := [], rstate := GAME_OVER\<rparr>, w3)))
      | _ \<Rightarrow> Inr ((bombs_to_place, socks), r2, w1))"

end
