(* ===== verification/RoomFacts.thy ===== *)
theory RoomFacts
  imports Room ConnectionFacts
begin

section \<open>The room keeps its invariant\<close>

text \<open>
  What the operations of a room change. Sending only marks players (\<open>sent\<close>), an explosion costs a
  player at most one life (\<open>scorched\<close>), and every operation keeps the well-formedness
  \<open>room_inv\<close>: distinct players with distinct names, each on a floor tile of the board with at
  most three lives, never more of them than joins, at most four joins, and fewer than four
  while the room waits.
\<close>

subsection \<open>Sending marks\<close>

definition marks :: "player \<Rightarrow> player \<Rightarrow> bool" where
  "marks p p' \<longleftrightarrow> (\<exists>d. p' = p\<lparr>markedForDisconnect := d\<rparr> \<and> (markedForDisconnect p \<longrightarrow> d))"

definition same_game :: "room \<Rightarrow> room \<Rightarrow> bool" where
  "same_game r r' \<longleftrightarrow> bombs r' = bombs r \<and> rstate r' = rstate r \<and> clientCount r' = clientCount r \<and>
    rmap r' = rmap r \<and> epollSock r' = epollSock r"

definition sent :: "room \<times> world \<Rightarrow> room \<times> world \<Rightarrow> bool" where
  "sent s s' \<longleftrightarrow> same_game (fst s) (fst s') \<and> list_all2 marks (players (fst s)) (players (fst s')) \<and>
    io_frame (snd s) (snd s')"

lemma marks_refl [simp, intro]: "marks p p"
  unfolding marks_def by (intro exI [of _ "markedForDisconnect p"]) simp

lemma marks_mark [simp, intro]: "marks p (mark p)"
  unfolding marks_def mark_def by (intro exI [of _ True]) simp

lemma marks_trans: "marks p q \<Longrightarrow> marks q r \<Longrightarrow> marks p r"
  by (auto simp: marks_def)

lemma marks_fields:
  assumes "marks p q"
  shows "addr q = addr p" "conn q = conn p" "livesRemaining q = livesRemaining p"
    "username q = username p" "color q = color p" "immunityEndTimestamp q = immunityEndTimestamp p"
    "coords q = coords p" "moveHistory q = moveHistory p" "step q = step p"
    "markedForDisconnect p \<Longrightarrow> markedForDisconnect q"
  using assms by (auto simp: marks_def)

lemma list_all2_map_eq:
  assumes "list_all2 R xs ys" "\<And>x y. R x y \<Longrightarrow> f y = f x"
  shows "map f ys = map f xs"
  using assms by (induction rule: list_all2_induct) auto

lemma marks_maps:
  assumes "list_all2 marks ps qs"
  shows "map addr qs = map addr ps" "map conn qs = map conn ps" "map username qs = map username ps"
    "map livesRemaining qs = map livesRemaining ps" "map coords qs = map coords ps"
  using list_all2_map_eq [OF assms] marks_fields by blast+

lemma marks_list_refl: "list_all2 marks ps ps"
  by (simp add: list_all2_refl)

lemma marks_list_trans: "list_all2 marks ps qs \<Longrightarrow> list_all2 marks qs rs \<Longrightarrow> list_all2 marks ps rs"
  by (rule list_all2_trans [OF marks_trans])

lemma same_game_refl [simp, intro]: "same_game r r"
  by (simp add: same_game_def)

lemma same_game_trans: "same_game r s \<Longrightarrow> same_game s t \<Longrightarrow> same_game r t"
  by (simp add: same_game_def)

lemma sent_refl [simp, intro]: "sent s s"
  by (simp add: sent_def marks_list_refl)

lemma sent_trans: "sent s t \<Longrightarrow> sent t u \<Longrightarrow> sent s u"
  unfolding sent_def
  using marks_list_trans [of "players (fst s)" "players (fst t)" "players (fst u)"]
    io_frame_trans [of "snd s" "snd t" "snd u"] same_game_trans [of "fst s" "fst t" "fst u"] by simp

lemma sent_simps:
  assumes "sent (r, w) (r', w')"
  shows "bombs r' = bombs r" "rstate r' = rstate r" "clientCount r' = clientCount r"
    "rmap r' = rmap r" "epollSock r' = epollSock r" "list_all2 marks (players r) (players r')"
    "map addr (players r') = map addr (players r)" "map username (players r') = map username (players r)"
    "map coords (players r') = map coords (players r)"
    "map livesRemaining (players r') = map livesRemaining (players r)"
    "length (players r') = length (players r)" "io_frame w w'"
  using assms marks_maps [of "players r" "players r'"] list_all2_lengthD [of marks "players r" "players r'"]
  by (simp_all add: sent_def same_game_def)

lemma sent_rstate: "sent (r, w) (r', w') \<Longrightarrow> sent (r\<lparr>rstate := st\<rparr>, w) (r'\<lparr>rstate := st\<rparr>, w')"
  by (simp add: sent_def same_game_def)

lemma sent_bombs: "sent (r, w) (r', w') \<Longrightarrow> sent (r\<lparr>bombs := bs\<rparr>, w) (r'\<lparr>bombs := bs\<rparr>, w')"
  by (simp add: sent_def same_game_def)

lemma upd_player_mark_sent: "sent (r, w) (upd_player a mark r, w)"
  by (auto simp: sent_def upd_player_def same_game_def list_all2_conv_all_nth)

context message_sender
begin

lemma sendSpecific_sent: "sendSpecific a f s = Inr s' \<Longrightarrow> sent s s'"
proof (cases s)
  case (Pair r w)
  assume "sendSpecific a f s = Inr s'"
  then obtain p :: player and x where x: "f (conn p) w = Inr x"
      "s' = (if fst x = None then upd_player a mark r else r, snd x)"
    by (auto simp: sendSpecific_def Pair)
  then have "io_frame w (snd x)" by (cases x) (simp add: frame)
  then show ?thesis using x(2) upd_player_mark_sent [of r "snd x" a] Pair
    by (auto simp: sent_def marks_list_refl)
qed

lemma sendExcept_sent: "sendExcept a f s = Inr s' \<Longrightarrow> sent s s'"
  unfolding sendExcept_def
  by (erule iterE_rel) (auto intro: sent_trans sendSpecific_sent split: if_splits)

lemma sendBroadcast_sent: "sendBroadcast f s = Inr s' \<Longrightarrow> sent s s'"
  unfolding sendBroadcast_def
  by (erule iterE_rel) (auto intro: sent_trans sendSpecific_sent)

end

lemmas specific_sent = message_sender.sendSpecific_sent
lemmas except_sent = message_sender.sendExcept_sent
lemmas broadcast_sent = message_sender.sendBroadcast_sent

subsection \<open>The invariant\<close>

definition player_wf :: "tmap \<Rightarrow> player \<Rightarrow> bool" where
  "player_wf m p \<longleftrightarrow> 0 \<le> livesRemaining p \<and> livesRemaining p \<le> 3 \<and>
    in_array (cx (coords p)) (cy (coords p)) \<and> tile m (cx (coords p)) (cy (coords p)) = 0 \<and>
    length (moveHistory p) = 5 \<and>
    (\<forall>e \<in> set (moveHistory p). in_array (cx (me_coords e)) (cy (me_coords e)))"

definition starts_free :: "tmap \<Rightarrow> bool" where
  "starts_free m \<longleftrightarrow> (\<forall>n c. start_coords (color_of_size n) = Some c \<longrightarrow> tile m (cx c) (cy c) = 0)"

definition room_inv :: "room \<Rightarrow> world \<Rightarrow> bool" where
  "room_inv r w \<longleftrightarrow> map_wf (rmap r) \<and> starts_free (rmap r) \<and> (\<forall>b\<in>set (bombs r). 2 \<le> explosion b) \<and>
    int (length (players r)) \<le> clientCount r \<and> clientCount r \<le> 4 \<and>
    (rstate r = WAIT_FOR_START \<longrightarrow> clientCount r < 4) \<and> rstate r \<noteq> WAIT_FOR_END \<and>
    distinct (map addr (players r)) \<and> distinct (map username (players r)) \<and>
    (\<forall>p\<in>set (players r). player_wf (rmap r) p \<and> addr p < next_addr w)"

lemma player_wf_marks: "marks p q \<Longrightarrow> player_wf m q = player_wf m p"
  by (simp add: player_wf_def marks_fields)

lemma list_all2_ball:
  assumes "list_all2 R xs ys" "\<forall>x\<in>set xs. P x" "\<And>x y. R x y \<Longrightarrow> P x \<Longrightarrow> Q y"
  shows "\<forall>y\<in>set ys. Q y"
  using assms by (induction rule: list_all2_induct) auto

text \<open>
  The players of a room change one by one: a relation between a player before and after that
  keeps its address, its name and its well-formedness keeps the invariant of the room.
\<close>

lemma room_inv_players:
  assumes inv: "room_inv r w" and same: "same_game r r'" and nxt: "next_addr w' = next_addr w"
    and rel: "list_all2 R (players r) (players r')"
    and R: "\<And>p q. R p q \<Longrightarrow> addr q = addr p \<and> username q = username p"
      "\<And>p q. R p q \<Longrightarrow> player_wf (rmap r) p \<Longrightarrow> player_wf (rmap r) q"
  shows "room_inv r' w'"
proof -
  have maps: "map addr (players r') = map addr (players r)"
      "map username (players r') = map username (players r)"
    using list_all2_map_eq [OF rel] R(1) by blast+
  have "\<forall>q\<in>set (players r'). player_wf (rmap r) q \<and> addr q < next_addr w"
    by (rule list_all2_ball [OF rel, where P = "\<lambda>p. player_wf (rmap r) p \<and> addr p < next_addr w"])
      (use inv R in \<open>auto simp: room_inv_def\<close>)
  then show ?thesis
    using inv same nxt maps list_all2_lengthD [OF rel] by (simp add: room_inv_def same_game_def)
qed

lemma sent_room_inv: "sent (r, w) (r', w') \<Longrightarrow> room_inv r w \<Longrightarrow> room_inv r' w'"
  by (rule room_inv_players [where R = marks and r = r and w = w])
    (auto simp: sent_def marks_fields player_wf_marks io_frame_fields)

lemma find_player_Some:
  assumes "find_player a r = Some p"
  shows "p \<in> set (players r) \<and> addr p = a"
  using assms by (auto simp: find_player_def find_Some_iff)

lemma get_player_Inr: "get_player a r = Inr p \<longleftrightarrow> find_player a r = Some p"
  by (simp add: get_player_def split: option.splits)

lemma find_player_iff:
  assumes "distinct (map addr (players r))"
  shows "find_player a r = Some p \<longleftrightarrow> p \<in> set (players r) \<and> addr p = a"
proof
  assume p: "p \<in> set (players r) \<and> addr p = a"
  then have "find (\<lambda>p. addr p = a) (players r) \<noteq> None"
    by (auto simp: find_None_iff)
  then obtain q where q: "find_player a r = Some q" by (auto simp: find_player_def)
  with find_player_Some [OF q] p assms show "find_player a r = Some p"
    by (metis distinct_map inj_onD)
qed (rule find_player_Some)

text \<open>Replacing one player.\<close>

lemma upd_player_rel:
  "list_all2 (\<lambda>p q. q = (if addr p = a then f p else p)) (players r) (players (upd_player a f r))"
  by (simp add: upd_player_def list_all2_conv_all_nth)

lemma upd_player_same [simp]: "same_game r (upd_player a f r)"
  by (simp add: same_game_def upd_player_def)

lemma room_inv_upd_player:
  assumes inv: "room_inv r w" and p: "find_player a r = Some p"
    and q: "addr (f p) = addr p" "username (f p) = username p" "player_wf (rmap r) (f p)"
    and nxt: "next_addr w' = next_addr w"
  shows "room_inv (upd_player a f r) w'"
proof -
  have d: "distinct (map addr (players r))" using inv by (simp add: room_inv_def)
  have only: "x = p" if "x \<in> set (players r)" "addr x = a" for x
    using find_player_iff [OF d, of a x] that p by simp
  have "list_all2 (\<lambda>x y. x \<in> set (players r) \<and> y = (if addr x = a then f x else x))
      (players r) (players (upd_player a f r))"
    using upd_player_rel by (rule list.rel_mono_strong) simp
  then show ?thesis
    by (rule room_inv_players [OF inv upd_player_same nxt]) (use only q in \<open>auto split: if_splits\<close>)
qed

subsection \<open>Rooms, joining\<close>

lemma Room_new_eq: "Room_new e = Inr \<lparr>players = [], bombs = [], rstate = WAIT_FOR_START,
    clientCount = 0, rmap = server_map, epollSock = e\<rparr>"
  by (simp add: Room_new_def Map_new_server)

lemma start_tiles:
  assumes "start_coords (color_of_size n) = Some c"
  shows "in_array (cx c) (cy c) \<and> tile server_map (cx c) (cy c) = 0"
  using assms
  by (auto simp: start_coords_def color_of_size_def mk_coords_def in_array_def tile_def
      server_map_def initial_grid_def eval_nat_numeral split: if_splits)

lemma Room_new_inv: "Room_new e = Inr r \<Longrightarrow> room_inv r w"
  by (auto simp: Room_new_eq room_inv_def starts_free_def start_tiles)

lemma start_coords_Some: "n < 4 \<Longrightarrow> \<exists>c. start_coords (color_of_size n) = Some c"
  by (auto simp: start_coords_def color_of_size_def)

text \<open>The room after the insertion of a new player satisfies the invariant, but for the start of the game.\<close>

lemma join_inserts:
  assumes inv: "room_inv r w" and can: "CanJoin name r = None" and wait: "rstate r = WAIT_FOR_START"
    and new: "Player_new c name (color_of_size (length (players r))) w = Inr (p, w1)"
  shows "room_inv (r\<lparr>players := p # players r, clientCount := clientCount r + 1, rstate := st\<rparr>) w1
    \<longleftrightarrow> st \<noteq> WAIT_FOR_END \<and> (st = WAIT_FOR_START \<longrightarrow> clientCount r < 3)"
proof -
  obtain pos where pos: "start_coords (color_of_size (length (players r))) = Some pos"
      "p = \<lparr>addr = next_addr w, conn = c, livesRemaining = 3, username = name,
        color = color_of_size (length (players r)), immunityEndTimestamp = clk w (tick w),
        markedForDisconnect = False, coords = pos,
        moveHistory = replicate 5 \<lparr>me_ts = 0, me_coords = mk_coords 0 0\<rparr>, step = junk w (next_addr w)\<rparr>"
      "next_addr w1 = Suc (next_addr w)"
    using new by (auto simp: Player_new_def TimestampMillis_def Let_def split: option.splits)
  have "player_wf (rmap r) p"
    using inv start_tiles [OF pos(1)] pos(1)
    by (simp add: player_wf_def pos(2) room_inv_def starts_free_def mk_coords_def in_array_def)
  moreover have "name \<notin> username ` set (players r)"
    using can by (auto simp: CanJoin_def list_ex_iff split: if_splits)
  moreover have "next_addr w \<notin> addr ` set (players r)" "\<forall>q\<in>set (players r). addr q < Suc (next_addr w)"
    using inv by (auto simp: room_inv_def)
  ultimately show ?thesis
    using inv wait pos(2,3) by (auto simp: room_inv_def)
qed

lemma JoinPlayer_inv:
  assumes "JoinPlayer c name r w = Inr (a, r', w')" "room_inv r w" "CanJoin name r = None"
  shows "room_inv r' w'"
proof (cases "rstate r = WAIT_FOR_START")
  case False
  then show ?thesis using assms by (simp add: JoinPlayer_def)
next
  case True
  let ?col = "color_of_size (length (players r))"
  let ?L = "\<lambda>r1. map (\<lambda>p. (username p, color p)) (players r1)"
  from assms(1) True obtain p w1 s2 r3 w3 where j: "Player_new c name ?col w = Inr (p, w1)"
      "sendSpecific (addr p) (SendWelcomeToRoom (?L (r\<lparr>players := p # players r, clientCount := clientCount r + 1\<rparr>)))
        (r\<lparr>players := p # players r, clientCount := clientCount r + 1\<rparr>, w1) = Inr s2"
      "sendExcept (addr p) (SendGameJoin (name, ?col)) s2 = Inr (r3, w3)"
      "(if 4 - clientCount r3 = 0
        then andThen (sendBroadcast SendGameStart (r3\<lparr>rstate := PLAY\<rparr>, w3)) (\<lambda>(r4, w4). Inr (Some (addr p), r4, w4))
        else Inr (Some (addr p), r3, w3)) = Inr (a, r', w')"
    by (auto simp: JoinPlayer_def Let_def)
  let ?r1 = "r\<lparr>players := p # players r, clientCount := clientCount r + 1\<rparr>"
  have s: "sent (?r1, w1) (r3, w3)"
    using specific_sent [OF _ j(2)] except_sent [OF _ j(3)] by (auto intro: sent_trans)
  then have count: "clientCount r3 = clientCount r + 1" by (simp add: sent_simps)
  have st: "room_inv (r3\<lparr>rstate := st\<rparr>) w3" if "st \<noteq> WAIT_FOR_END" "st = WAIT_FOR_START \<longrightarrow> clientCount r < 3" for st
  proof -
    have "sent (?r1\<lparr>rstate := st\<rparr>, w1) (r3\<lparr>rstate := st\<rparr>, w3)" using s by (rule sent_rstate)
    moreover have "room_inv (?r1\<lparr>rstate := st\<rparr>) w1"
      using join_inserts [OF assms(2,3) True j(1), of st] that by simp
    ultimately show ?thesis by (rule sent_room_inv)
  qed
  show ?thesis
  proof (cases "clientCount r3 = 4")
    case True
    then obtain w4 where "sendBroadcast SendGameStart (r3\<lparr>rstate := PLAY\<rparr>, w3) = Inr (r', w4)" "w' = w4"
      using j(4) by auto
    then show ?thesis using sent_room_inv [OF snd_gamestart.sendBroadcast_sent st [of PLAY]] by simp
  next
    case False
    have "rstate r3 = WAIT_FOR_START" using s True by (simp add: sent_simps)
    then have "r3\<lparr>rstate := WAIT_FOR_START\<rparr> = r3" by simp
    moreover have "clientCount r < 4" using assms(2) True by (simp add: room_inv_def)
    then have "clientCount r < 3" using False count by simp
    ultimately show ?thesis using st [of WAIT_FOR_START] j(4) False by simp
  qed
qed

subsection \<open>Messages\<close>

lemma send_error_sent: "send_error a e r w = Inr (b, r', w') \<Longrightarrow> sent (r, w) (r', w') \<and> \<not> b"
  by (auto simp: send_error_def intro: snd_error.sendSpecific_sent)

lemma correct_movement_sent: "correct_movement a c (r, w) = Inr (b, r', w') \<Longrightarrow> sent (r, w) (r', w') \<and> \<not> b"
  by (auto simp: correct_movement_def intro: snd_correction.sendSpecific_sent)

lemma place_bomb_Inr:
  assumes "place_bomb m a r w = Inr (b, r', w')"
  obtains bx "by" where "b"
    "floor_to_int (fst (msg_iplacebomb m)) = Inr bx" "floor_to_int (snd (msg_iplacebomb m)) = Inr by"
    "sent (r\<lparr>bombs := bombs r @ [Bomb_new bx by 3 25 (clk w (Suc (tick w))) 3 False]\<rparr>,
      w\<lparr>tick := Suc (Suc (tick w))\<rparr>) (r', w')"
  using assms
  by (auto simp: place_bomb_def Let_def TimestampMillis_def dest!: snd_bomb.sendExcept_sent split: prod.splits)

lemma room_inv_add_bomb:
  "room_inv r w \<Longrightarrow> 2 \<le> explosion b \<Longrightarrow> next_addr w' = next_addr w \<Longrightarrow>
    room_inv (r\<lparr>bombs := bombs r @ [b]\<rparr>) w'"
  by (auto simp: room_inv_def)

text \<open>A message either only marks players, or queues a bomb, or moves its author.\<close>

definition moved :: "nat \<Rightarrow> room \<Rightarrow> world \<Rightarrow> room \<Rightarrow> world \<Rightarrow> bool" where
  "moved a r w r' w' \<longleftrightarrow> (\<exists>x y p c p' w1. find_player a r = Some p \<and> in_array x y \<and> tile (rmap r) x y = 0 \<and>
    MoveCheckSus x y p w = Inr (c, p', w1) \<and> sent (upd_player a (\<lambda>_. p') r, w1) (r', w'))"

lemma handle_move_Inr:
  assumes "handle_move m a r w = Inr (b, r', w')"
  shows "\<not> b \<and> (sent (r, w) (r', w') \<or> moved a r w r' w')"
proof -
  from assms obtain p x y t where h: "find_player a r = Some p" "getSquareState (rmap r) x y = Inr t"
      "(if t \<noteq> 0 then correct_movement a (GetCoords p) (r, w)
        else andThen (MoveCheckSus x y p w) (\<lambda>(correction, p', w1).
          let r1 = upd_player a (\<lambda>_. p') r in
          case correction of Some c \<Rightarrow> correct_movement a c (r1, w1)
          | None \<Rightarrow> andThen (sendExcept a (SendOtherMove (username p')
              (Fin (of_int (float_of_int x))) (Fin (of_int (float_of_int y)))) (r1, w1))
              (\<lambda>(r2, w2). Inr (False, r2, w2)))) = Inr (b, r', w')"
    by (auto simp: handle_move_def get_player_Inr split: prod.splits)
  show ?thesis
  proof (cases "t = 0")
    case False
    then show ?thesis using h(3) correct_movement_sent [of a _ r w b r' w'] by auto
  next
    case True
    then obtain c p' w1 where c: "MoveCheckSus x y p w = Inr (c, p', w1)"
        "(case c of Some c \<Rightarrow> correct_movement a c (upd_player a (\<lambda>_. p') r, w1)
          | None \<Rightarrow> andThen (sendExcept a (SendOtherMove (username p')
              (Fin (of_int (float_of_int x))) (Fin (of_int (float_of_int y)))) (upd_player a (\<lambda>_. p') r, w1))
              (\<lambda>(r2, w2). Inr (False, r2, w2))) = Inr (b, r', w')"
      using h(3) by (auto simp: Let_def)
    have "\<not> b \<and> sent (upd_player a (\<lambda>_. p') r, w1) (r', w')"
      using c(2) by (auto split: option.splits dest: correct_movement_sent snd_move.sendExcept_sent)
    then show ?thesis using h(1) getSquareState_InrD [OF h(2)] True c(1)
      unfolding moved_def by blast
  qed
qed

text \<open>Everything a message can do to a room.\<close>

lemma HandleMessage_cases:
  assumes "HandleMessage m a r w = Inr (b, r', w')"
  obtains (marked) "\<not> b" "sent (r, w) (r', w')" "mtype m \<noteq> I_PLACE_BOMB \<or> rstate r = WAIT_FOR_START \<or>
        (\<forall>p. find_player a r = Some p \<longrightarrow> livesRemaining p = 0)"
  | (bomb) p bx "by" where "b" "rstate r \<noteq> WAIT_FOR_START" "mtype m = I_PLACE_BOMB"
      "find_player a r = Some p" "livesRemaining p \<noteq> 0"
      "floor_to_int (fst (msg_iplacebomb m)) = Inr bx" "floor_to_int (snd (msg_iplacebomb m)) = Inr by"
      "sent (r\<lparr>bombs := bombs r @ [Bomb_new bx by 3 25 (clk w (Suc (tick w))) 3 False]\<rparr>,
        w\<lparr>tick := Suc (Suc (tick w))\<rparr>) (r', w')"
  | (move) p where "\<not> b" "rstate r \<noteq> WAIT_FOR_START" "mtype m = I_MOVE" "find_player a r = Some p"
      "livesRemaining p \<noteq> 0" "moved a r w r' w'"
proof -
  obtain p where p: "find_player a r = Some p" using assms by (auto simp: HandleMessage_def get_player_Inr)
  show thesis
  proof (cases "rstate r = WAIT_FOR_START")
    case True
    then have "\<not> b \<and> sent (r, w) (r', w')"
      using assms by (auto simp: HandleMessage_def sent_def same_game_def marks_list_refl
          split: if_splits list.splits dest: send_error_sent)
    then show thesis using marked True by blast
  next
    case play: False
    show thesis
    proof (cases "livesRemaining p = 0 \<and> mtype m \<noteq> I_LEAVE")
      case True
      then have "send_error a ''You can't really do anything while dead, can you?'' r w = Inr (b, r', w')"
        using assms p play by (simp add: HandleMessage_def get_player_def)
      from send_error_sent [OF this] show thesis using marked True p by simp
    next
      case alive: False
      then have h: "(case mtype m of I_PLACE_BOMB \<Rightarrow> place_bomb m a r w | I_MOVE \<Rightarrow> handle_move m a r w
          | I_LEAVE \<Rightarrow> Inr (False, upd_player a mark r, w)
          | _ \<Rightarrow> send_error a ''Unexpected message'' r w) = Inr (b, r', w')"
        using assms p play by (simp add: HandleMessage_def get_player_def split: if_splits)
      consider "mtype m = I_PLACE_BOMB" | "mtype m = I_MOVE" | "mtype m = I_LEAVE"
        | "send_error a ''Unexpected message'' r w = Inr (b, r', w')" "mtype m \<noteq> I_PLACE_BOMB"
        using h by (cases "mtype m") auto
      then show thesis
      proof cases
        case 1
        then have "place_bomb m a r w = Inr (b, r', w')" using h by simp
        then show thesis
          by (rule place_bomb_Inr) (use bomb play 1 p alive in auto)
      next
        case 2
        then have "handle_move m a r w = Inr (b, r', w')" using h by simp
        from handle_move_Inr [OF this] show thesis using marked move play 2 p alive by auto
      next
        case 3
        then have "b = False" "r' = upd_player a mark r" "w' = w" using h by auto
        then show thesis using marked upd_player_mark_sent 3 by simp
      next
        case 4
        then show thesis using marked send_error_sent by blast
      qed
    qed
  qed
qed

lemma moved_player:
  assumes "MoveCheckSus x y p w = Inr (c, p', w1)" "in_array x y"
  shows "coords p' = (if c = None then mk_coords x y else coords p)" "addr p' = addr p"
    "username p' = username p" "livesRemaining p' = livesRemaining p"
    "length (moveHistory p') = length (moveHistory p)" "next_addr w1 = next_addr w" "clk w1 = clk w"
    "\<forall>e \<in> set (moveHistory p'). e \<in> set (moveHistory p) \<or> me_coords e = mk_coords x y"
proof -
  have float: "float_of_int x = x" "float_of_int y = y"
    using assms(2) by (simp_all add: in_array_def float_of_int_exact)
  then show "coords p' = (if c = None then mk_coords x y else coords p)"
    using MoveCheckSus_coords [OF assms(1)] by simp
  show "addr p' = addr p" "username p' = username p" "livesRemaining p' = livesRemaining p"
    by (subst MoveCheckSus_frame [OF assms(1)], simp)+
  show "length (moveHistory p') = length (moveHistory p)" by (rule MoveCheckSus_history [OF assms(1)])
  show "next_addr w1 = next_addr w" "clk w1 = clk w" using MoveCheckSus_world [OF assms(1)] by auto
  show "\<forall>e \<in> set (moveHistory p'). e \<in> set (moveHistory p) \<or> me_coords e = mk_coords x y"
    using MoveCheckSus_entries [OF assms(1)] float by simp
qed

text \<open>The tile a move is corrected to.\<close>

lemma corrected_to:
  assumes "MoveCheckSus x y p w = Inr (Some c, p', w1)" "player_wf m p"
  shows "in_array (cx c) (cy c)"
  using MoveCheckSus_correction [OF assms(1)] assms(2) by (auto simp: player_wf_def)

lemma moved_inv:
  assumes "moved a r w r' w'" "room_inv r w"
  shows "room_inv r' w'"
proof -
  obtain x y p c p' w1 where m: "find_player a r = Some p" "in_array x y" "tile (rmap r) x y = 0"
      "MoveCheckSus x y p w = Inr (c, p', w1)" "sent (upd_player a (\<lambda>_. p') r, w1) (r', w')"
    using assms(1) unfolding moved_def by blast
  note p' = moved_player [OF m(4,2)]
  have "player_wf (rmap r) p"
    using assms(2) find_player_Some [OF m(1)] by (simp add: room_inv_def)
  then have "player_wf (rmap r) p'"
    using p' m(2,3) by (auto simp: player_wf_def mk_coords_def)
  then have "room_inv (upd_player a (\<lambda>_. p') r) w1"
    by (intro room_inv_upd_player [OF assms(2) m(1)]) (use p' in simp_all)
  then show ?thesis by (rule sent_room_inv [OF m(5)])
qed

lemma Bomb_new_explosion [simp]: "explosion (Bomb_new x y e s t l d) = e"
  by (simp add: Bomb_new_def)

lemma HandleMessage_inv:
  assumes "HandleMessage m a r w = Inr (b, r', w')" "room_inv r w"
  shows "room_inv r' w'"
  using assms(1)
proof (cases rule: HandleMessage_cases)
  case marked
  then show ?thesis using sent_room_inv assms(2) by blast
next
  case (bomb p bx "by")
  then show ?thesis using sent_room_inv [OF bomb(8)] room_inv_add_bomb [OF assms(2)] by simp
next
  case (move p)
  then show ?thesis using moved_inv assms(2) by blast
qed

end
