(* ===== verification/RoomExplosion.thy ===== *)
theory RoomExplosion
  imports RoomFacts
begin

section \<open>Explosions in a room\<close>

text \<open>
  What \<open>NotifyExplosion\<close> does to the players: the specification \<open>scorched\<close> says that one explosion
  costs a player one life exactly when it stands on a tile on fire, is alive and is not immune
  at some reading of the clock, and that it is immune for half a second afterwards.
\<close>

definition hit_at :: "(int \<times> int) list \<Rightarrow> (nat \<Rightarrow> int) \<Rightarrow> nat \<Rightarrow> player \<Rightarrow> bool" where
  "hit_at ps clock k p \<longleftrightarrow> (cx (coords p), cy (coords p)) \<in> set ps \<and> livesRemaining p > 0 \<and>
    immunityEndTimestamp p \<le> clock k"

definition hit :: "(nat \<Rightarrow> int) \<Rightarrow> nat \<Rightarrow> player \<Rightarrow> player" where
  "hit clock k p = p\<lparr>immunityEndTimestamp := clock (Suc k) + IMMUNITY_TIME_MILLIS,
    livesRemaining := livesRemaining p - 1\<rparr>"

definition scorched :: "(int \<times> int) list \<Rightarrow> (nat \<Rightarrow> int) \<Rightarrow> player \<Rightarrow> player \<Rightarrow> bool" where
  "scorched ps clock p q \<longleftrightarrow> (\<exists>k. marks (if hit_at ps clock k p then hit clock k p else p) q)"

lemma hit_at_marks: "marks p q \<Longrightarrow> hit_at ps clock k q = hit_at ps clock k p"
  by (simp add: hit_at_def marks_fields)

lemma hit_marks:
  assumes "marks p q"
  shows "marks (hit clock k p) (hit clock k q)"
proof -
  obtain d where "q = p\<lparr>markedForDisconnect := d\<rparr>" "markedForDisconnect p \<longrightarrow> d"
    using assms by (auto simp: marks_def)
  then show ?thesis unfolding marks_def hit_def by (intro exI [of _ d]) simp
qed

lemma marks_scorched:
  assumes "marks p q" "scorched ps clock q r"
  shows "scorched ps clock p r"
proof -
  obtain k where k: "marks (if hit_at ps clock k q then hit clock k q else q) r"
    using assms(2) by (auto simp: scorched_def)
  have "marks (if hit_at ps clock k p then hit clock k p else p) (if hit_at ps clock k q then hit clock k q else q)"
    using assms(1) hit_at_marks [OF assms(1)] hit_marks [OF assms(1)] by simp
  then show ?thesis unfolding scorched_def using marks_trans k by blast
qed

lemma scorched_marks: "scorched ps clock p q \<Longrightarrow> marks q r \<Longrightarrow> scorched ps clock p r"
  unfolding scorched_def using marks_trans by blast

lemma scorched_missed: "(cx (coords p), cy (coords p)) \<notin> set ps \<or> livesRemaining p \<le> 0 \<Longrightarrow> scorched ps clock p p"
  by (auto simp: scorched_def hit_at_def)

lemma scorched_fields:
  assumes "scorched ps clock p q"
  shows "addr q = addr p" "username q = username p" "conn q = conn p" "coords q = coords p"
    "moveHistory q = moveHistory p" "markedForDisconnect p \<Longrightarrow> markedForDisconnect q"
    "livesRemaining q = livesRemaining p \<or> livesRemaining q = livesRemaining p - 1 \<and> livesRemaining p > 0"
  using assms by (auto simp: scorched_def hit_def hit_at_def marks_fields split: if_splits)

lemma player_wf_scorched: "scorched ps clock p q \<Longrightarrow> player_wf m p \<Longrightarrow> player_wf m q"
  using scorched_fields [of ps clock p q] by (auto simp: player_wf_def)

subsection \<open>One player\<close>

definition steady :: "world \<Rightarrow> world \<Rightarrow> bool" where
  "steady w w' \<longleftrightarrow> clk w' = clk w \<and> next_addr w' = next_addr w \<and> rnd w' = rnd w \<and> rtick w' = rtick w"

lemma steady_refl [simp, intro]: "steady w w"
  by (simp add: steady_def)

lemma steady_trans: "steady u v \<Longrightarrow> steady v w \<Longrightarrow> steady u w"
  by (simp add: steady_def)

definition burnt :: "nat set \<Rightarrow> (int \<times> int) list \<Rightarrow> room \<times> world \<Rightarrow> room \<times> world \<Rightarrow> bool" where
  "burnt A ps s s' \<longleftrightarrow> same_game (fst s) (fst s') \<and>
    list_all2 (\<lambda>p q. if addr p \<in> A then scorched ps (clk (snd s)) p q else marks p q)
      (players (fst s)) (players (fst s')) \<and> steady (snd s) (snd s')"

lemma find_player_None: "find_player a r = None \<longleftrightarrow> a \<notin> set (map addr (players r))"
  by (auto simp: find_player_def find_None_iff)

lemma upd_player_cong:
  assumes "distinct (map addr (players r))" "find_player a r = Some p" "f p = g p"
  shows "upd_player a f r = upd_player a g r"
proof -
  have "q = p" if "q \<in> set (players r)" "addr q = a" for q
    using find_player_iff [OF assms(1), of a q] assms(2) that by simp
  then have "map (\<lambda>p. if addr p = a then f p else p) (players r) =
      map (\<lambda>p. if addr p = a then g p else p) (players r)"
    using assms(3) by (intro map_cong) auto
  then show ?thesis unfolding upd_player_def by (simp only:)
qed

lemma burn_player_cases:
  assumes b: "burn_player a ax ay t (r, w) = Inr s'" and p: "find_player a r = Some p"
    and d: "distinct (map addr (players r))"
  shows "((ax, ay) = fire_at t \<and> livesRemaining p > 0 \<and> immunityEndTimestamp p \<le> clk w (tick w) \<and>
      sent (upd_player a (hit (clk w) (tick w)) r, w\<lparr>tick := Suc (Suc (Suc (tick w)))\<rparr>) s') \<or>
    (\<not> ((ax, ay) = fire_at t \<and> livesRemaining p > 0 \<and> immunityEndTimestamp p \<le> clk w (tick w)) \<and>
      (s' = (r, w\<lparr>tick := Suc (tick w)\<rparr>) \<or> s' = (r, w)) \<and>
      ((ax, ay) \<noteq> fire_at t \<longrightarrow> s' = (r, w)))"
proof (cases "(ax, ay) = fire_at t \<and> livesRemaining p > 0")
  case False
  then have "s' = (r, w)" using b p by (auto simp: burn_player_def get_player_def)
  then show ?thesis using False by auto
next
  case on: True
  show ?thesis
  proof (cases "immunityEndTimestamp p > clk w (tick w)")
    case True
    then have "s' = (r, w\<lparr>tick := Suc (tick w)\<rparr>)" using b p on
      by (auto simp: burn_player_def get_player_def TimestampMillis_def)
    then show ?thesis using True on by auto
  next
    case False
    have "upd_player a (\<lambda>p'. p'\<lparr>immunityEndTimestamp := clk w (Suc (tick w)) + 500,
        livesRemaining := livesRemaining p - 1\<rparr>) r = upd_player a (hit (clk w) (tick w)) r"
      by (rule upd_player_cong [OF d p]) (simp add: hit_def)
    then have "sendBroadcast (SendGotHit (username p) (livesRemaining p - 1) (clk w (Suc (Suc (tick w)))))
        (upd_player a (hit (clk w) (tick w)) r, w\<lparr>tick := Suc (Suc (Suc (tick w)))\<rparr>) = Inr s'"
      using b p on False by (simp add: burn_player_def get_player_def TimestampMillis_def Let_def)
    then have "sent (upd_player a (hit (clk w) (tick w)) r, w\<lparr>tick := Suc (Suc (Suc (tick w)))\<rparr>) s'"
      by (rule snd_hit.sendBroadcast_sent)
    then show ?thesis using on False by auto
  qed
qed

text \<open>Tiles elsewhere do nothing to the player.\<close>

lemma burn_elsewhere:
  assumes "iterE (burn_player a ax ay) fs (r, w) = Inr s'" "find_player a r = Some p"
    "distinct (map addr (players r))" "(ax, ay) \<notin> set (map fire_at fs)"
  shows "s' = (r, w)"
  using assms
proof (induction fs)
  case Nil
  then show ?case by simp
next
  case (Cons t fs)
  then obtain s1 where s1: "burn_player a ax ay t (r, w) = Inr s1" "iterE (burn_player a ax ay) fs s1 = Inr s'"
    by auto
  have "(ax, ay) \<noteq> fire_at t" using Cons.prems(4) by auto
  then have "s1 = (r, w)" using burn_player_cases [OF s1(1) Cons.prems(2,3)] by blast
  then show ?case using Cons s1(2) by auto
qed

lemma list_all2_diag: "(\<And>x. x \<in> set xs \<Longrightarrow> R x x) \<Longrightarrow> list_all2 R xs xs"
  by (simp add: list_all2_conv_all_nth)

lemma burn_all:
  assumes b: "iterE (burn_player a (cx (coords p)) (cy (coords p))) fs (r, w) = Inr s'"
    and p: "find_player a r = Some p" and d: "distinct (map addr (players r))"
    and fs: "distinct (map fire_at fs)"
  shows "burnt {a} (map fire_at fs) (r, w) s'"
proof -
  have only: "q = p" if "q \<in> set (players r)" "addr q = a" for q
    using find_player_iff [OF d, of a q] p that by simp
  have unhurt: "burnt {a} (map fire_at fs) (r, w) (r, w')"
    if "steady w w'" "\<not> hit_at (map fire_at fs) (clk w) (tick w) p" for w'
    using that only by (auto simp: burnt_def scorched_def intro!: list_all2_diag exI [of _ "tick w"])
  show ?thesis
  proof (cases "(cx (coords p), cy (coords p)) \<in> set (map fire_at fs)")
    case False
    then have "s' = (r, w)" using burn_elsewhere [OF b p d] by simp
    then show ?thesis using unhurt False by (simp add: hit_at_def)
  next
    case True
    then obtain fs1 t fs2 where split: "fs = fs1 @ t # fs2" "fire_at t = (cx (coords p), cy (coords p))"
      by (auto simp: in_set_conv_decomp)
    have out: "(cx (coords p), cy (coords p)) \<notin> set (map fire_at fs1)"
        "(cx (coords p), cy (coords p)) \<notin> set (map fire_at fs2)"
      using fs unfolding split(1) by (auto simp: split(2) [symmetric])
    obtain s1 s2 where run: "iterE (burn_player a (cx (coords p)) (cy (coords p))) fs1 (r, w) = Inr s1"
        "burn_player a (cx (coords p)) (cy (coords p)) t s1 = Inr s2"
        "iterE (burn_player a (cx (coords p)) (cy (coords p))) fs2 s2 = Inr s'"
      using b unfolding split(1) iterE_append by auto
    have s1: "s1 = (r, w)" by (rule burn_elsewhere [OF run(1) p d out(1)])
    have "burnt {a} (map fire_at fs) (r, w) s2 \<and> map addr (players (fst s2)) = map addr (players r)"
    proof -
      consider (hit) "livesRemaining p > 0" "immunityEndTimestamp p \<le> clk w (tick w)"
          "sent (upd_player a (hit (clk w) (tick w)) r, w\<lparr>tick := Suc (Suc (Suc (tick w)))\<rparr>) s2"
        | (miss) "\<not> (livesRemaining p > 0 \<and> immunityEndTimestamp p \<le> clk w (tick w))"
          "s2 = (r, w\<lparr>tick := Suc (tick w)\<rparr>) \<or> s2 = (r, w)"
        using burn_player_cases [OF run(2) [unfolded s1] p d] split(2) by auto
      then show ?thesis
      proof cases
        case hit
        note h = hit(1,2) and s = hit(3)
        have at: "hit_at (map fire_at fs) (clk w) (tick w) p" using h True by (simp add: hit_at_def)
        have step: "list_all2 (\<lambda>p q. p \<in> set (players r) \<and> q = (if addr p = a then hit (clk w) (tick w) p else p))
            (players r) (players (upd_player a (hit (clk w) (tick w)) r))"
          using upd_player_rel by (rule list.rel_mono_strong) simp
        have "list_all2 (\<lambda>p q. if addr p \<in> {a} then scorched (map fire_at fs) (clk w) p q else marks p q)
            (players r) (players (fst s2))"
        proof (rule list_all2_trans [OF _ step])
          show "list_all2 marks (players (upd_player a (hit (clk w) (tick w)) r)) (players (fst s2))"
            using s by (simp add: sent_def)
          show "if addr x \<in> {a} then scorched (map fire_at fs) (clk w) x z else marks x z"
            if "x \<in> set (players r) \<and> y = (if addr x = a then hit (clk w) (tick w) x else x)" "marks y z" for x y z
            using that only at by (auto simp: scorched_def intro!: exI [of _ "tick w"])
        qed
        moreover have "map addr (players (fst s2)) = map addr (players r)"
          using s by (auto simp: sent_def upd_player_def hit_def dest!: marks_maps(1))
        moreover have "same_game r (fst s2)" "steady w (snd s2)" using s
          by (auto simp: sent_def same_game_def upd_player_def steady_def io_frame_fields)
        ultimately show ?thesis unfolding burnt_def fst_conv snd_conv by blast
      next
        case miss
        then have "\<not> hit_at (map fire_at fs) (clk w) (tick w) p" by (auto simp: hit_at_def)
        then show ?thesis using miss(2) unhurt by (auto simp: steady_def)
      qed
    qed
    moreover have "s' = s2"
    proof -
      obtain r2 w2 where s2: "s2 = (r2, w2)" by fastforce
      have m: "map addr (players r2) = map addr (players r)" using calculation s2 by simp
      then obtain p2 where "find_player a r2 = Some p2"
        using find_player_None [of a r] find_player_None [of a r2] p by fastforce
      then show ?thesis using burn_elsewhere [OF run(3) [unfolded s2]] out(2) d m s2 by simp
    qed
    ultimately show ?thesis by simp
  qed
qed

subsection \<open>All players\<close>

lemma burnt_addrs:
  assumes "burnt A ps s s'"
  shows "map addr (players (fst s')) = map addr (players (fst s))"
proof -
  have l: "list_all2 (\<lambda>p q. if addr p \<in> A then scorched ps (clk (snd s)) p q else marks p q)
      (players (fst s)) (players (fst s'))"
    using assms by (simp only: burnt_def)
  show ?thesis
    by (rule list_all2_map_eq [OF l]) (auto simp: marks_fields scorched_fields split: if_splits)
qed

lemma burnt_trans:
  assumes "burnt A ps s t" "burnt B ps t u" "A \<inter> B = {}"
  shows "burnt (A \<union> B) ps s u"
proof -
  have clk: "clk (snd t) = clk (snd s)" using assms(1) by (simp add: burnt_def steady_def)
  let ?R = "\<lambda>A p q. if addr p \<in> A then scorched ps (clk (snd s)) p q else marks p q"
  have "?R (A \<union> B) p r" if "?R A p q" "?R B q r" for p q r
  proof -
    have "addr q = addr p" using that(1) by (auto simp: marks_fields scorched_fields split: if_splits)
    moreover have "\<not> (addr p \<in> A \<and> addr p \<in> B)" using assms(3) by blast
    ultimately show ?thesis
      using that scorched_marks [of ps "clk (snd s)" p q r] marks_scorched [of p q ps "clk (snd s)" r]
        marks_trans [of p q r] by (cases "addr p \<in> A"; cases "addr p \<in> B") simp_all
  qed
  then have "list_all2 (?R (A \<union> B)) (players (fst s)) (players (fst u))"
    by (rule list_all2_trans) (use assms(1,2) clk in \<open>auto simp only: burnt_def\<close>)
  moreover have "same_game (fst s) (fst u)" "steady (snd s) (snd u)"
    using assms(1,2) same_game_trans steady_trans unfolding burnt_def by blast+
  ultimately show ?thesis unfolding burnt_def by blast
qed

lemma burnt_all:
  assumes "burnt A ps s s'" "\<forall>p\<in>set (players (fst s)). addr p \<in> A"
  shows "list_all2 (scorched ps (clk (snd s))) (players (fst s)) (players (fst s'))"
proof -
  have l: "list_all2 (\<lambda>p q. if addr p \<in> A then scorched ps (clk (snd s)) p q else marks p q)
      (players (fst s)) (players (fst s'))"
    using assms(1) by (simp only: burnt_def)
  show ?thesis using l by (rule list.rel_mono_strong) (use assms(2) in auto)
qed

lemma explode_player_burnt:
  assumes "explode_player fs a s = Inr s'" "distinct (map addr (players (fst s)))" "distinct (map fire_at fs)"
  shows "burnt {a} (map fire_at fs) s s'"
proof -
  obtain r w where s: "s = (r, w)" by fastforce
  from assms(1) obtain p x y where p: "find_player a r = Some p"
      "floor_to_int (Fin (of_int (cx (coords p)))) = Inr x" "floor_to_int (Fin (of_int (cy (coords p)))) = Inr y"
      "iterE (burn_player a x y) fs (r, w) = Inr s'"
    by (auto simp: explode_player_def s get_player_Inr GetCoords_def)
  have "x = cx (coords p)" "y = cy (coords p)" using p(2,3) by simp_all
  then show ?thesis using burn_all [OF _ p(1) _ assms(3)] p(4) assms(2) s by simp
qed

lemma explode_all:
  assumes "iterE (explode_player fs) as s = Inr s'" "distinct as"
    "distinct (map addr (players (fst s)))" "distinct (map fire_at fs)"
  shows "burnt (set as) (map fire_at fs) s s'"
  using assms
proof (induction as arbitrary: s)
  case Nil
  then show ?case by (simp add: burnt_def marks_list_refl)
next
  case (Cons a as)
  then obtain s1 where s1: "explode_player fs a s = Inr s1" "iterE (explode_player fs) as s1 = Inr s'"
    by auto
  have b: "burnt {a} (map fire_at fs) s s1" by (rule explode_player_burnt [OF s1(1) Cons.prems(3,4)])
  have "burnt (set as) (map fire_at fs) s1 s'"
    using Cons.IH [OF s1(2)] Cons.prems(2,3,4) burnt_addrs [OF b] by simp
  from burnt_trans [OF b this] show ?case using Cons.prems(2) by simp
qed

subsection \<open>The end of the game\<close>

lemma announce_winner_Inr:
  assumes "announce_winner n (r, w) = Inr (r', w')"
  shows "list_all2 marks (players r) (players r') \<and> (\<forall>p\<in>set (players r'). markedForDisconnect p) \<and>
    rstate r' = GAME_OVER \<and> bombs r' = bombs r \<and> clientCount r' = clientCount r \<and> rmap r' = rmap r \<and>
    epollSock r' = epollSock r \<and> io_frame w w'"
proof -
  from assms obtain r1 where r1: "sendBroadcast (SendGameWon n) (r, w) = Inr (r1, w')"
      "r' = r1\<lparr>rstate := WAIT_FOR_END, players := map mark (players r1), rstate := GAME_OVER\<rparr>"
    by (auto simp: announce_winner_def Let_def)
  have s: "sent (r, w) (r1, w')" using r1(1) by (rule snd_won.sendBroadcast_sent)
  have "list_all2 marks (players r1) (map mark (players r1))"
    by (simp add: list_all2_conv_all_nth)
  with s have "list_all2 marks (players r) (map mark (players r1))"
    using marks_list_trans by (auto simp: sent_def)
  with s show ?thesis by (auto simp: r1(2) sent_def same_game_def mark_def)
qed

definition alive_count :: "player list \<Rightarrow> nat" where
  "alive_count ps = length (filter (\<lambda>p. livesRemaining p > 0) ps)"

lemma length_alive: "length (alive r) = alive_count (players r)"
proof -
  have "filter (\<lambda>p. livesRemaining p > 0) (map ((!) (players r)) [0..<length (players r)]) =
      map ((!) (players r)) (alive r)"
    by (simp add: alive_def filter_map comp_def)
  then show ?thesis unfolding alive_count_def map_nth by (metis length_map)
qed

lemma alive_count_marks: "list_all2 marks ps qs \<Longrightarrow> alive_count qs = alive_count ps"
  by (induction rule: list_all2_induct) (simp_all add: alive_count_def marks_fields)

lemma scorched_list_marks:
  assumes "list_all2 (scorched ps c) xs ys" "list_all2 marks ys zs"
  shows "list_all2 (scorched ps c) xs zs"
  using scorched_marks assms by (rule list_all2_trans)

text \<open>The loop over the players, for an explosion that goes off in a room that plays.\<close>

lemma explosion_loop:
  assumes inv: "room_inv r w" and play: "rstate r = PLAY" "bombs r = b # bs"
    and boom: "boom gt b (rmap r) = Inr (fs, m')"
    and loop: "iterE (explode_player fs) (map addr (players r))
      (r\<lparr>bombs := bs, rmap := m'\<rparr>, w\<lparr>gtick := g\<rparr>) = Inr (r3, w3)"
  shows "list_all2 (scorched (map fire_at fs) (clk w)) (players r) (players r3) \<and>
    bombs r3 = bs \<and> rstate r3 = PLAY \<and> clientCount r3 = clientCount r \<and> rmap r3 = m' \<and>
    epollSock r3 = epollSock r \<and> steady w w3"
proof -
  have d: "map_wf (rmap r)" "2 \<le> explosion b" "distinct (map addr (players r))"
    using inv play by (auto simp: room_inv_def)
  have bt: "burnt (set (map addr (players r))) (map fire_at fs)
      (r\<lparr>bombs := bs, rmap := m'\<rparr>, w\<lparr>gtick := g\<rparr>) (r3, w3)"
    by (rule explode_all [OF loop d(3)]) (use d boom_distinct [OF boom d(1,2)] in simp_all)
  then show ?thesis
    using burnt_all [OF bt] play by (simp add: burnt_def same_game_def steady_def)
qed

text \<open>The effect of the explosion.\<close>

lemma NotifyExplosion_Inr:
  assumes e: "NotifyExplosion r w = Inr (r', w')" and play: "rstate r = PLAY" "bombs r = b # bs"
    and inv: "room_inv r w"
  shows "\<exists>fs. boom (\<lambda>n. gtime w (gtick w + n)) b (rmap r) = Inr (fs, rmap r') \<and>
    list_all2 (scorched (map fire_at fs) (clk w)) (players r) (players r') \<and>
    bombs r' = bs \<and> clientCount r' = clientCount r \<and> epollSock r' = epollSock r \<and>
    clk w' = clk w \<and> next_addr w' = next_addr w \<and>
    (if 2 \<le> alive_count (players r') then rstate r' = PLAY
     else rstate r' = GAME_OVER \<and> (\<forall>p\<in>set (players r'). markedForDisconnect p))"
proof -
  let ?r1 = "r\<lparr>bombs := bs\<rparr>"
  from e play obtain fs m' r3 w3 r4 w4 where x:
      "boom (\<lambda>n. gtime w (gtick w + n)) b (rmap r) = Inr (fs, m')"
      "iterE (explode_player fs) (map addr (players r))
        (r\<lparr>bombs := bs, rmap := m'\<rparr>, w\<lparr>gtick := gtick w + length fs\<rparr>) = Inr (r3, w3)"
      "(if alive r3 = [] \<and> rstate r3 = PLAY then
            (let (winner, w4) = uniform_int 0 (length (alive ?r1)) w3 in
             if winner < length (alive ?r1)
             then announce_winner (username (players r3 ! (alive ?r1 ! winner))) (r3, w4)
             else Inl (Undefined ''index past the end of a vector''))
          else Inr (r3, w3)) = Inr (r4, w4)"
      "(if length (alive r3) = 1 \<and> rstate r4 = PLAY
       then announce_winner (username (players r4 ! last (alive r3))) (r4, w4)
       else Inr (r4, w4)) = Inr (r', w')"
    by (auto simp: NotifyExplosion_def Let_def)
  note r3 = explosion_loop [OF inv play x(1,2)]
  have count: "alive_count (players r3) = length (alive r3)" by (simp add: length_alive)
  have over: ?thesis if "announce_winner n (r3, v) = Inr (r', w')" "clk v = clk w3 \<and> next_addr v = next_addr w3"
    "length (alive r3) \<le> 1" for n v
  proof -
    note a = announce_winner_Inr [OF that(1)]
    have "list_all2 (scorched (map fire_at fs) (clk w)) (players r) (players r')"
      using scorched_list_marks r3 a by blast
    moreover have "\<not> 2 \<le> alive_count (players r')" using alive_count_marks a count that(3) by fastforce
    moreover have "clk w' = clk w \<and> next_addr w' = next_addr w"
      using r3 that(2) a io_frame_fields [of v w'] by (simp add: steady_def)
    ultimately show ?thesis using x(1) r3 a by auto
  qed
  show ?thesis
  proof (cases "alive r3 = []")
    case True
    then obtain n v where n: "announce_winner n (r3, v) = Inr (r4, w4)" "clk v = clk w3 \<and> next_addr v = next_addr w3"
      using x(3) r3 by (auto simp: uniform_int_def Let_def split: if_splits)
    then have "r4 = r' \<and> w4 = w'" using x(4) announce_winner_Inr [OF n(1)] by simp
    then show ?thesis using over n True by simp
  next
    case False
    then have r4: "r4 = r3" "w4 = w3" using x(3) by simp_all
    show ?thesis
    proof (cases "length (alive r3) = 1")
      case True
      then show ?thesis using over [of _ w3] x(4) r4 r3 by simp
    next
      case one: False
      then have "r' = r3" "w' = w3" using x(4) r4 by simp_all
      moreover have "2 \<le> length (alive r3)" using False one by (cases "alive r3"; cases "tl (alive r3)") auto
      ultimately show ?thesis using x(1) r3 count by (auto simp: steady_def)
    qed
  qed
qed

text \<open>
  When nobody survives, the winner is drawn from one number too many: the draw of the number
  of those alive before the explosion indexes past their vector.
\<close>

lemma NotifyExplosion_draw:
  assumes inv: "room_inv r w" and play: "rstate r = PLAY" "bombs r = b # bs"
    and boom: "boom (\<lambda>n. gtime w (gtick w + n)) b (rmap r) = Inr (fs, m')"
    and loop: "iterE (explode_player fs) (map addr (players r))
      (r\<lparr>bombs := bs, rmap := m'\<rparr>, w\<lparr>gtick := gtick w + length fs\<rparr>) = Inr (r3, w3)"
    and dead: "alive_count (players r3) = 0"
    and draw: "rnd w (rtick w) mod Suc (alive_count (players r)) = alive_count (players r)"
  shows "NotifyExplosion r w = Inl (Undefined ''index past the end of a vector'')"
proof -
  note r3 = explosion_loop [OF inv play boom loop]
  have "alive r3 = []" using dead by (simp add: length_alive [symmetric])
  moreover have "length (alive (r\<lparr>bombs := bs\<rparr>)) = alive_count (players r)" by (simp add: length_alive)
  moreover have "fst (uniform_int 0 (alive_count (players r)) w3) = alive_count (players r)"
    using draw r3 by (simp add: uniform_int_def steady_def)
  ultimately show ?thesis
    using play boom loop r3 by (simp add: NotifyExplosion_def Let_def split_beta)
qed

lemma NotifyExplosion_inv:
  assumes "NotifyExplosion r w = Inr (r', w')" "room_inv r w"
  shows "room_inv r' w'"
proof (cases "rstate r \<noteq> PLAY \<or> bombs r = []")
  case True
  then show ?thesis using assms by (simp add: NotifyExplosion_def)
next
  case False
  then obtain b bs where b: "rstate r = PLAY" "bombs r = b # bs" by (cases "bombs r") auto
  from NotifyExplosion_Inr [OF assms(1) b assms(2)] obtain fs where fs:
      "boom (\<lambda>n. gtime w (gtick w + n)) b (rmap r) = Inr (fs, rmap r')"
      "list_all2 (scorched (map fire_at fs) (clk w)) (players r) (players r')"
      "bombs r' = bs" "clientCount r' = clientCount r" "next_addr w' = next_addr w"
      "rstate r' = PLAY \<or> rstate r' = GAME_OVER" by (auto split: if_splits)
  have keep: "map_wf (rmap r')" "\<And>x y. tile (rmap r) x y = 0 \<Longrightarrow> tile (rmap r') x y = 0"
    using boom_keeps_floor [OF fs(1)] assms(2) b by (auto simp: room_inv_def)
  have "room_inv (r\<lparr>players := players r'\<rparr>) w'"
    by (rule room_inv_players [OF assms(2), where R = "scorched (map fire_at fs) (clk w)"])
      (use fs(2,5) in \<open>auto simp: same_game_def scorched_fields player_wf_scorched\<close>)
  then show ?thesis
    using b fs(3,4,6) keep assms(2) by (auto simp: room_inv_def player_wf_def starts_free_def)
qed

end
