(* ===== verification/RoomLeave.thy ===== *)
theory RoomLeave
  imports RoomFacts
begin

section \<open>Disconnecting players\<close>

text \<open>
  What \<open>DisconnectPlayers\<close> does: the players it removes (\<open>leavers\<close>), the atomic bombs it leaves in
  their place, the sockets it closes and returns, and the room that is left.
\<close>

definition drop_calls :: "int \<Rightarrow> int list \<Rightarrow> syscall list" where
  "drop_calls ep socks = concat (map (\<lambda>s. [EpollDel ep s, Shutdown s, Close s]) socks)"

definition dropped :: "int \<Rightarrow> int list \<Rightarrow> world \<Rightarrow> world \<Rightarrow> bool" where
  "dropped ep socks w w' \<longleftrightarrow> clk w' = clk w \<and> next_addr w' = next_addr w \<and>
    (\<forall>k. rel_option same_conn (conns w k) (conns w' k)) \<and>
    sys w' = sys w @ drop_calls ep socks \<and>
    (\<forall>fd. fd_open w' fd \<longleftrightarrow> fd_open w fd \<and> fd \<notin> set socks)"

lemma dropped_refl [simp, intro]: "dropped ep [] w w"
  by (simp add: dropped_def drop_calls_def option.rel_refl)

lemma dropped_trans:
  assumes "dropped ep ss u v" "dropped ep ts v w"
  shows "dropped ep (ss @ ts) u w"
proof -
  have "rel_option same_conn (conns u k) (conns w k)" for k
  proof -
    have "rel_option same_conn (conns u k) (conns v k)" "rel_option same_conn (conns v k) (conns w k)"
      using assms by (auto simp: dropped_def)
    then show ?thesis by (cases "conns u k"; cases "conns v k"; cases "conns w k") (auto simp: same_conn_def)
  qed
  then show ?thesis using assms by (auto simp: dropped_def drop_calls_def)
qed

lemma dropped_io: "io_frame w w' \<Longrightarrow> dropped ep [] w w'"
  by (simp add: dropped_def drop_calls_def io_frame_fields io_frame_rel)

lemma dropped_tick: "dropped ep ss w w' \<Longrightarrow> dropped ep ss w (w'\<lparr>tick := t\<rparr>)"
  by (simp add: dropped_def)

lemma drop_socket_dropped: "dropped ep [s] w (drop_socket ep s w)"
  by (auto simp: dropped_def drop_socket_def sys_close_def syscall_def drop_calls_def option.rel_refl)

lemma dropped_sock:
  assumes "dropped ep ss w w'" "conn_sock c w' = Inr s"
  shows "s = sock_of c w"
proof -
  have "rel_option same_conn (conns w c) (conns w' c)" using assms(1) by (simp add: dropped_def)
  then show ?thesis using assms(2)
    by (cases "conns w c") (auto simp: same_conn_def conn_sock_def sock_of_def split: option.splits)
qed

subsection \<open>One player\<close>

definition atomic_bomb :: "player \<Rightarrow> bomb \<Rightarrow> bool" where
  "atomic_bomb p b \<longleftrightarrow> (\<exists>ts. b = Bomb_new (cx (coords p)) (cy (coords p)) 9 25 ts 3 True)"

text \<open>
  The state of the loop once the players \<open>ls\<close> have been taken leave of: it started in the room \<open>r\<close>
  and the world \<open>w\<close>.
\<close>

definition left :: "room \<Rightarrow> world \<Rightarrow> player list \<Rightarrow> (nat \<times> int list \<times> nat list) \<times> room \<times> world \<Rightarrow> bool" where
  "left r w ls s \<longleftrightarrow> (case s of ((n, socks, destroy), r1, w1) \<Rightarrow>
    list_all2 marks (players r) (players r1) \<and> destroy = map addr ls \<and>
    socks = map (\<lambda>p. sock_of (conn p) w) ls \<and> dropped (epollSock r) socks w w1 \<and>
    rstate r1 = rstate r \<and> clientCount r1 = clientCount r \<and> rmap r1 = rmap r \<and> epollSock r1 = epollSock r \<and>
    (\<exists>bs. bombs r1 = bombs r @ bs \<and> length bs = n \<and>
      list_all2 atomic_bomb (if rstate r = PLAY then filter (\<lambda>p. livesRemaining p \<noteq> 0) ls else []) bs))"

lemma left_io:
  assumes "left r w ls (acc, r1, w1)" "sent (r1, w1) (r2, w2)"
  shows "left r w ls (acc, r2, w2)"
proof -
  obtain n socks destroy where acc: "acc = (n, socks, destroy)" by (cases acc)
  have "list_all2 marks (players r) (players r2)"
    using assms marks_list_trans by (auto simp: left_def acc sent_def)
  moreover have "dropped (epollSock r) (socks @ []) w w2"
    using assms dropped_trans [OF _ dropped_io] by (auto simp: left_def acc sent_def)
  ultimately show ?thesis using assms by (auto simp: left_def acc sent_def same_game_def)
qed

lemma left_drop:
  assumes l: "left r w ls ((n, socks, destroy), r1, w1)" and sk: "conn_sock (conn q) w1 = Inr sk"
    and b: "if rstate r = PLAY \<and> livesRemaining q \<noteq> 0 then list_all2 atomic_bomb [q] bs else bs = []"
  shows "left r w (ls @ [q]) ((n + length bs, socks @ [sk], destroy @ [addr q]),
    r1\<lparr>bombs := bombs r1 @ bs\<rparr>, (drop_socket (epollSock r) sk w1)\<lparr>tick := t\<rparr>)"
proof -
  have d: "dropped (epollSock r) socks w w1" using l by (auto simp: left_def)
  have "sk = sock_of (conn q) w" by (rule dropped_sock [OF d sk])
  moreover have "dropped (epollSock r) (socks @ [sk]) w ((drop_socket (epollSock r) sk w1)\<lparr>tick := t\<rparr>)"
    by (rule dropped_tick [OF dropped_trans [OF d drop_socket_dropped]])
  moreover obtain bs0 where "bombs r1 = bombs r @ bs0" "length bs0 = n"
      "list_all2 atomic_bomb (if rstate r = PLAY then filter (\<lambda>p. livesRemaining p \<noteq> 0) ls else []) bs0"
    using l by (auto simp: left_def)
  moreover from this b have "list_all2 atomic_bomb
      (if rstate r = PLAY then filter (\<lambda>p. livesRemaining p \<noteq> 0) (ls @ [q]) else []) (bs0 @ bs)"
    by (auto split: if_splits intro: list_all2_appendI)
  ultimately show ?thesis using l by (simp add: left_def)
qed

lemma disconnect_player_left:
  assumes d: "disconnect_player (addr q) (acc, r1, w1) = Inr s'" and l: "left r w ls (acc, r1, w1)"
    and q: "q \<in> set (players r)" and dist: "distinct (map addr (players r))"
  shows "(s' = (acc, r1, w1) \<and> \<not> markedForDisconnect q) \<or> left r w (ls @ [q]) s'"
proof -
  obtain n socks destroy where acc: "acc = (n, socks, destroy)" by (cases acc)
  have rel: "list_all2 marks (players r) (players r1)" using l by (simp add: left_def acc)
  obtain p where p: "find_player (addr q) r1 = Some p" using d by (auto simp: disconnect_player_def acc get_player_Inr)
  have pq: "marks q p"
  proof -
    obtain i where i: "i < length (players r)" "players r ! i = q" using q by (auto simp: in_set_conv_nth)
    have "marks q (players r1 ! i)" using list_all2_nthD [OF rel i(1)] i(2) by simp
    moreover have "players r1 ! i = p"
    proof -
      have d1: "distinct (map addr (players r1))" using dist marks_maps(1) [OF rel] by simp
      have "players r1 ! i \<in> set (players r1)" using i(1) list_all2_lengthD [OF rel] by simp
      moreover have "addr (players r1 ! i) = addr q" using \<open>marks q (players r1 ! i)\<close> by (simp add: marks_fields)
      ultimately show ?thesis using find_player_iff [OF d1, of "addr q" "players r1 ! i"] p by simp
    qed
    ultimately show ?thesis by simp
  qed
  show ?thesis
  proof (cases "markedForDisconnect p")
    case False
    then have "s' = (acc, r1, w1)" using d p by (simp add: disconnect_player_def acc get_player_def)
    then show ?thesis using False marks_fields(10) [OF pq] by blast
  next
    case True
    from d True p obtain r2 w2 sk where s: "sendExcept (addr q) (SendOtherLeave (username p)) (r1, w1) = Inr (r2, w2)"
        "conn_sock (conn p) w2 = Inr sk"
        "(let w3 = drop_socket (epollSock r2) sk w2; socks' = socks @ [sk]; destroy' = destroy @ [addr q] in
         if rstate r2 = PLAY \<and> livesRemaining p \<noteq> 0 then
          andThen (floor_to_int (Fin (of_int (cx (GetCoords p))))) (\<lambda>x.
          andThen (floor_to_int (Fin (of_int (cy (GetCoords p))))) (\<lambda>y.
          let (ts, w4) = TimestampMillis w3;
              r3 = r2\<lparr>bombs := bombs r2 @ [Bomb_new x y 9 25 ts 3 True]\<rparr>;
              (ts2, w5) = TimestampMillis w4 in
          andThen (sendExcept (addr q) (SendOtherBombPlace ''Server'' ts2
              (Fin (of_int (float_of_int x))) (Fin (of_int (float_of_int y)))) (r3, w5))
            (\<lambda>(r3, w5). Inr ((Suc n, socks', destroy'), r3, w5))))
         else Inr ((n, socks', destroy'), r2, w3)) = Inr s'"
      by (auto simp: disconnect_player_def acc get_player_def Let_def)
    have l2: "left r w ls ((n, socks, destroy), r2, w2)"
      using left_io [OF l] snd_leave.sendExcept_sent [OF s(1)] acc by simp
    have same: "epollSock r2 = epollSock r" "rstate r2 = rstate r" "livesRemaining p = livesRemaining q"
        "conn p = conn q" "coords p = coords q"
      using l2 pq by (simp_all add: left_def marks_fields)
    note drop = left_drop [OF l2, of q sk]
    show ?thesis
    proof (cases "rstate r = PLAY \<and> livesRemaining q \<noteq> 0")
      case no_bomb: False
      have "s' = ((n, socks @ [sk], destroy @ [addr q]), r2, drop_socket (epollSock r) sk w2)"
        using s(3) no_bomb same by (auto simp: Let_def)
      then show ?thesis
        using drop [of "[]" "tick (drop_socket (epollSock r) sk w2)"] s(2) no_bomb same by simp
    next
      case bomb: True
      let ?w3 = "drop_socket (epollSock r) sk w2"
      from s(3) bomb same obtain x y r4 w4 where b:
          "floor_to_int (Fin (of_int (cx (coords q)))) = Inr x" "floor_to_int (Fin (of_int (cy (coords q)))) = Inr y"
          "sendExcept (addr q) (SendOtherBombPlace ''Server'' (clk ?w3 (Suc (tick ?w3)))
            (Fin (of_int (float_of_int x))) (Fin (of_int (float_of_int y))))
            (r2\<lparr>bombs := bombs r2 @ [Bomb_new x y 9 25 (clk ?w3 (tick ?w3)) 3 True]\<rparr>,
             ?w3\<lparr>tick := Suc (Suc (tick ?w3))\<rparr>) = Inr (r4, w4)"
          "s' = ((Suc n, socks @ [sk], destroy @ [addr q]), r4, w4)"
        by (auto simp: Let_def GetCoords_def TimestampMillis_def)
      have at: "atomic_bomb q (Bomb_new x y 9 25 (clk ?w3 (tick ?w3)) 3 True)"
        using b(1,2) by (auto simp: atomic_bomb_def)
      have "left r w (ls @ [q]) ((Suc n, socks @ [sk], destroy @ [addr q]),
          r2\<lparr>bombs := bombs r2 @ [Bomb_new x y 9 25 (clk ?w3 (tick ?w3)) 3 True]\<rparr>,
          ?w3\<lparr>tick := Suc (Suc (tick ?w3))\<rparr>)"
        using drop [of "[Bomb_new x y 9 25 (clk ?w3 (tick ?w3)) 3 True]" "Suc (Suc (tick ?w3))"]
          s(2) bomb same at by simp
      then show ?thesis using left_io snd_bomb.sendExcept_sent [OF b(3)] b(4) by blast
    qed
  qed
qed

subsection \<open>All players\<close>

lemma disconnect_loop:
  assumes "iterE disconnect_player (map addr qs) s = Inr s'" "left r w ls s"
    "set qs \<subseteq> set (players r)" "distinct qs" "distinct (map addr (players r))"
  shows "\<exists>P. left r w (ls @ filter P qs) s' \<and> (\<forall>q\<in>set qs. markedForDisconnect q \<longrightarrow> P q)"
  using assms
proof (induction qs arbitrary: s ls)
  case Nil
  then show ?case by simp
next
  case (Cons q qs)
  then obtain s1 where s1: "disconnect_player (addr q) s = Inr s1"
      "iterE disconnect_player (map addr qs) s1 = Inr s'" by auto
  obtain acc r1 w1 where s: "s = (acc, r1, w1)" by (cases s) auto
  have "(s1 = s \<and> \<not> markedForDisconnect q) \<or> left r w (ls @ [q]) s1"
    using disconnect_player_left [OF s1(1) [unfolded s] Cons.prems(2) [unfolded s] _ Cons.prems(5)]
      Cons.prems(3) s by simp
  then have "\<exists>b. left r w (ls @ (if b then [q] else [])) s1 \<and> (markedForDisconnect q \<longrightarrow> b)"
  proof (elim disjE conjE)
    assume "s1 = s" "\<not> markedForDisconnect q"
    then show ?thesis using Cons.prems(2) by (intro exI [of _ False]) simp
  next
    assume "left r w (ls @ [q]) s1"
    then show ?thesis by (intro exI [of _ True]) simp
  qed
  then obtain b where b: "left r w (ls @ (if b then [q] else [])) s1" "markedForDisconnect q \<longrightarrow> b" by blast
  from Cons.IH [OF s1(2) b(1)] Cons.prems obtain P where
      P: "left r w ((ls @ (if b then [q] else [])) @ filter P qs) s'" "\<forall>q\<in>set qs. markedForDisconnect q \<longrightarrow> P q"
    by auto
  let ?P = "\<lambda>x. if x = q then b else P x"
  have "filter ?P qs = filter P qs" using Cons.prems(4) by (intro filter_cong) auto
  then have "left r w (ls @ filter ?P (q # qs)) s'" using P(1) by (cases b) simp_all
  moreover have "\<forall>x\<in>set (q # qs). markedForDisconnect x \<longrightarrow> ?P x" using b(2) P(2) by auto
  ultimately show ?case by blast
qed

lemma erase_player_filter:
  "distinct (map addr ps) \<Longrightarrow> erase_player ps a = filter (\<lambda>p. addr p \<noteq> a) ps"
proof (induction ps)
  case (Cons p ps)
  then have "addr p = a \<Longrightarrow> filter (\<lambda>p. addr p \<noteq> a) ps = ps" by (intro filter_True) (auto simp: image_iff)
  then show ?case using Cons by auto
qed simp

lemma erase_all:
  "distinct (map addr ps) \<Longrightarrow> foldl erase_player ps as = filter (\<lambda>p. addr p \<notin> set as) ps"
proof (induction as arbitrary: ps)
  case (Cons a as)
  have "distinct (map addr (filter (\<lambda>p. addr p \<noteq> a) ps))" using Cons.prems by (rule distinct_map_filter)
  moreover have "(\<lambda>p. addr p \<notin> set (a # as)) = (\<lambda>p. addr p \<noteq> a \<and> addr p \<notin> set as)" by auto
  ultimately show ?case using Cons by (simp add: erase_player_filter)
qed simp

lemma list_all2_filter_cong:
  assumes "list_all2 R xs ys" "\<And>x y. x \<in> set xs \<Longrightarrow> R x y \<Longrightarrow> P x = Q y"
  shows "list_all2 R (filter P xs) (filter Q ys)"
  using assms by (induction rule: list_all2_induct) auto

text \<open>\<open>P\<close> are the players the loop takes leave of: those whose address is in its list at the end.\<close>

lemma DisconnectPlayers_loop:
  assumes d: "DisconnectPlayers r w = Inr ((n, socks), r', w')" and inv: "room_inv r w"
  shows "\<exists>P bs m ss r1 w1.
    iterE disconnect_player (map addr (players r)) ((0, [], []), r, w) =
      Inr ((m, ss, map addr (filter P (players r))), r1, w1) \<and>
    (\<forall>p\<in>set (players r). markedForDisconnect p \<longrightarrow> P p) \<and>
    bombs r' = bombs r @ bs \<and> n = length bs \<and>
    list_all2 atomic_bomb
      (if rstate r = PLAY then filter (\<lambda>p. P p \<and> livesRemaining p \<noteq> 0) (players r) else []) bs \<and>
    clientCount r' = clientCount r \<and> rmap r' = rmap r \<and> dropped (epollSock r) socks w w' \<and>
    (if 2 \<le> length (filter (\<lambda>p. \<not> P p) (players r))
     then list_all2 marks (filter (\<lambda>p. \<not> P p) (players r)) (players r') \<and> rstate r' = rstate r \<and>
       socks = map (\<lambda>p. sock_of (conn p) w) (filter P (players r))
     else players r' = [] \<and> rstate r' = GAME_OVER \<and>
       socks = map (\<lambda>p. sock_of (conn p) w) (filter P (players r) @ filter (\<lambda>p. \<not> P p) (players r)))"
proof -
  have dist: "distinct (map addr (players r))" using inv by (simp add: room_inv_def)
  from d obtain m ss destroy r1 w1 where loop:
      "iterE disconnect_player (map addr (players r)) ((0, [], []), r, w) = Inr ((m, ss, destroy), r1, w1)"
      "(let r2 = r1\<lparr>players := foldl erase_player (players r1) destroy\<rparr> in
      case players r2 of
        [] \<Rightarrow> Inr ((m, ss), r2\<lparr>rstate := GAME_OVER\<rparr>, w1)
      | [p] \<Rightarrow>
          andThen (sendBroadcast (SendGameWon (username p)) (r2, w1)) (\<lambda>(r3, w2).
          andThen (conn_sock (conn p) w2) (\<lambda>sk.
            let r4 = r3\<lparr>rstate := WAIT_FOR_END\<rparr>; w3 = drop_socket (epollSock r4) sk w2 in
            Inr ((m, ss @ [sk]), r4\<lparr>players := [], rstate := GAME_OVER\<rparr>, w3)))
      | _ \<Rightarrow> Inr ((m, ss), r2, w1)) = Inr ((n, socks), r', w')"
    by (auto simp: DisconnectPlayers_def)
  have "left r w [] ((0, [], []), r, w)" by (simp add: left_def marks_list_refl)
  from disconnect_loop [OF loop(1) this _ _ dist] dist obtain P where
      P: "left r w (filter P (players r)) ((m, ss, destroy), r1, w1)"
      "\<forall>q\<in>set (players r). markedForDisconnect q \<longrightarrow> P q"
    by (auto simp: distinct_map)
  let ?stay = "filter (\<lambda>p. \<not> P p) (players r)"
  obtain bs where l: "list_all2 marks (players r) (players r1)" "destroy = map addr (filter P (players r))"
      "ss = map (\<lambda>p. sock_of (conn p) w) (filter P (players r))" "dropped (epollSock r) ss w w1"
      "rstate r1 = rstate r" "clientCount r1 = clientCount r" "rmap r1 = rmap r" "epollSock r1 = epollSock r"
      "bombs r1 = bombs r @ bs" "length bs = m"
      "list_all2 atomic_bomb (if rstate r = PLAY
        then filter (\<lambda>p. livesRemaining p \<noteq> 0) (filter P (players r)) else []) bs"
    using P(1) by (auto simp: left_def)
  have loop1: "iterE disconnect_player (map addr (players r)) ((0, [], []), r, w) =
      Inr ((m, ss, map addr (filter P (players r))), r1, w1)" using loop(1) l(2) by simp
  let ?ps = "foldl erase_player (players r1) destroy"
  have stay: "list_all2 marks ?stay ?ps"
  proof -
    have "?ps = filter (\<lambda>p. addr p \<notin> set destroy) (players r1)"
      using erase_all dist marks_maps(1) [OF l(1)] by simp
    moreover have "list_all2 marks ?stay (filter (\<lambda>p. addr p \<notin> set destroy) (players r1))"
    proof (rule list_all2_filter_cong [OF l(1)])
      fix x y assume x: "x \<in> set (players r)" "marks x y"
      have "addr x \<in> addr ` set (filter P (players r)) \<longleftrightarrow> P x"
        using dist x(1) by (auto simp: distinct_map inj_on_def)
      then show "(\<not> P x) = (addr y \<notin> set destroy)" using x(2) l(2) by (simp add: marks_fields)
    qed
    ultimately show ?thesis by simp
  qed
  then have len: "length ?ps = length ?stay" by (rule list_all2_lengthD [symmetric])
  have bombs: "list_all2 atomic_bomb (if rstate r = PLAY
      then filter (\<lambda>p. P p \<and> livesRemaining p \<noteq> 0) (players r) else []) bs"
    using l(11) by (simp only: filter_filter)
  show ?thesis
  proof (cases "2 \<le> length ?stay")
    case True
    then obtain p q ps where "?ps = p # q # ps" using len by (cases ?ps; cases "tl ?ps") auto
    then have "m = n" "socks = ss" "w' = w1" "r' = r1\<lparr>players := ?ps\<rparr>" using loop(2) by auto
    then show ?thesis using True loop1 P(2) stay l(3-10) bombs
      by (intro exI [of _ P] exI [of _ bs] exI [of _ m] exI [of _ ss] exI [of _ r1] exI [of _ w1]) simp
  next
    case False
    show ?thesis
    proof (cases ?ps)
      case Nil
      then have "m = n" "socks = ss" "w' = w1" "r' = r1\<lparr>players := [], rstate := GAME_OVER\<rparr>"
        using loop(2) by auto
      moreover have "?stay = []" using Nil len by simp
      ultimately show ?thesis using loop1 P(2) l(3-10) bombs
        by (intro exI [of _ P] exI [of _ bs] exI [of _ m] exI [of _ ss] exI [of _ r1] exI [of _ w1]) simp
    next
      case (Cons q qs)
      then have q: "?ps = [q]" using False len by (cases qs) simp_all
      then obtain p where p: "?stay = [p]" "marks p q" using stay by (auto simp: list_all2_Cons2)
      from loop(2) q obtain r3 w2 sk where one:
          "sendBroadcast (SendGameWon (username q)) (r1\<lparr>players := [q]\<rparr>, w1) = Inr (r3, w2)"
          "conn_sock (conn q) w2 = Inr sk" "m = n" "socks = ss @ [sk]"
          "r' = r3\<lparr>rstate := WAIT_FOR_END, players := [], rstate := GAME_OVER\<rparr>"
          "w' = drop_socket (epollSock r3) sk w2"
        by (auto simp: Let_def)
      have s: "sent (r1\<lparr>players := [q]\<rparr>, w1) (r3, w2)" using one(1) by (rule snd_won.sendBroadcast_sent)
      then have ep: "epollSock r3 = epollSock r" using l(8) by (simp add: sent_def same_game_def)
      have "dropped (epollSock r) (ss @ []) w w2"
        using dropped_trans [OF l(4) dropped_io] s by (simp add: sent_def)
      then have w2: "dropped (epollSock r) ss w w2" by simp
      then have "dropped (epollSock r) socks w w'"
        using dropped_trans [OF w2 drop_socket_dropped [of "epollSock r" sk w2]] one(4,6) ep by simp
      moreover have "sk = sock_of (conn p) w" using dropped_sock [OF w2 one(2)] p(2) by (simp add: marks_fields)
      ultimately show ?thesis using loop1 P(2) l(3-10) bombs p(1) s one(3-5)
        by (intro exI [of _ P] exI [of _ bs] exI [of _ m] exI [of _ ss] exI [of _ r1] exI [of _ w1]) (simp add: sent_def same_game_def)
    qed
  qed
qed

lemma DisconnectPlayers_Inr:
  assumes d: "DisconnectPlayers r w = Inr ((n, socks), r', w')" and inv: "room_inv r w"
  shows "\<exists>P bs. (\<forall>p\<in>set (players r). markedForDisconnect p \<longrightarrow> P p) \<and>
    bombs r' = bombs r @ bs \<and> n = length bs \<and>
    list_all2 atomic_bomb
      (if rstate r = PLAY then filter (\<lambda>p. P p \<and> livesRemaining p \<noteq> 0) (players r) else []) bs \<and>
    clientCount r' = clientCount r \<and> rmap r' = rmap r \<and> dropped (epollSock r) socks w w' \<and>
    (if 2 \<le> length (filter (\<lambda>p. \<not> P p) (players r))
     then list_all2 marks (filter (\<lambda>p. \<not> P p) (players r)) (players r') \<and> rstate r' = rstate r \<and>
       socks = map (\<lambda>p. sock_of (conn p) w) (filter P (players r))
     else players r' = [] \<and> rstate r' = GAME_OVER \<and>
       socks = map (\<lambda>p. sock_of (conn p) w) (filter P (players r) @ filter (\<lambda>p. \<not> P p) (players r)))"
  using DisconnectPlayers_loop [OF assms] by blast

lemma atomic_bombs_explosion:
  "list_all2 atomic_bomb ps bs \<Longrightarrow> \<forall>b\<in>set bs. 2 \<le> explosion b"
  by (induction rule: list_all2_induct) (auto simp: atomic_bomb_def)

text \<open>Leaving out players and marking others keeps the invariant.\<close>

lemma room_inv_filter:
  assumes "room_inv r w"
  shows "room_inv (r\<lparr>players := filter Q (players r)\<rparr>) w"
proof -
  have "int (length (filter Q (players r))) \<le> int (length (players r))" by simp
  then show ?thesis using assms
    by (auto simp: room_inv_def distinct_map inj_on_def simp del: length_filter_le)
qed

lemma DisconnectPlayers_inv:
  assumes "DisconnectPlayers r w = Inr ((n, socks), r', w')" "room_inv r w"
  shows "room_inv r' w'"
proof -
  obtain P bs where d: "bombs r' = bombs r @ bs" "clientCount r' = clientCount r" "rmap r' = rmap r"
      "list_all2 atomic_bomb
        (if rstate r = PLAY then filter (\<lambda>p. P p \<and> livesRemaining p \<noteq> 0) (players r) else []) bs"
      "dropped (epollSock r) socks w w'"
      "if 2 \<le> length (filter (\<lambda>p. \<not> P p) (players r))
       then list_all2 marks (filter (\<lambda>p. \<not> P p) (players r)) (players r') \<and> rstate r' = rstate r \<and>
         socks = map (\<lambda>p. sock_of (conn p) w) (filter P (players r))
       else players r' = [] \<and> rstate r' = GAME_OVER \<and>
         socks = map (\<lambda>p. sock_of (conn p) w) (filter P (players r) @ filter (\<lambda>p. \<not> P p) (players r))"
    using DisconnectPlayers_Inr [OF assms] by blast
  have bs: "\<forall>b\<in>set bs. 2 \<le> explosion b" using d(4) by (rule atomic_bombs_explosion)
  have nxt: "next_addr w' = next_addr w" using d(5) by (simp add: dropped_def)
  have "list_all2 marks (filter (\<lambda>p. \<not> P p) (players r)) (players r') \<and> rstate r' = rstate r \<or>
      players r' = [] \<and> rstate r' = GAME_OVER" using d(6) by (simp split: if_splits)
  moreover have ?thesis
    if m: "list_all2 marks (filter (\<lambda>p. \<not> P p) (players r)) (players r')" and st: "rstate r' = rstate r"
  proof -
    have "room_inv (r\<lparr>players := players r'\<rparr>) w'"
      by (rule room_inv_players [OF room_inv_filter [OF assms(2)], where R = marks])
        (use m nxt in \<open>auto simp: same_game_def marks_fields player_wf_marks\<close>)
    then show ?thesis using d(1-3) bs st by (auto simp: room_inv_def)
  qed
  moreover have ?thesis if "players r' = []" "rstate r' = GAME_OVER"
    using that assms(2) d(1-3) bs by (auto simp: room_inv_def)
  ultimately show ?thesis by blast
qed

end
