(* ===== verification/RoomProps.thy ===== *)
theory RoomProps
  imports RoomExplosion RoomLeave
begin

section \<open>The room as a state machine\<close>

text \<open>
  The steps of a room are the calls the server makes on it, in any order and with any arguments:
  a join that \<open>CanJoin\<close> admits, a message of a player, an explosion, the sweep after an event,
  the marking of a player whose connection failed; and between them the rest of the server and
  the kernel change the world. The theorems are the invariant of the reachable rooms, the
  direction of the game's state, and what each call does to the players.
\<close>

instantiation GameState :: linorder
begin

definition game_rank :: "GameState \<Rightarrow> nat" where
  "game_rank s = (case s of WAIT_FOR_START \<Rightarrow> 0 | PLAY \<Rightarrow> 1 | WAIT_FOR_END \<Rightarrow> 2 | GAME_OVER \<Rightarrow> 3)"

definition less_eq_GameState :: "GameState \<Rightarrow> GameState \<Rightarrow> bool" where
  "less_eq_GameState a b \<longleftrightarrow> game_rank a \<le> game_rank b"

definition less_GameState :: "GameState \<Rightarrow> GameState \<Rightarrow> bool" where
  "less_GameState a b \<longleftrightarrow> game_rank a < game_rank b"

instance
proof
  fix a b c :: GameState
  show "a < b \<longleftrightarrow> a \<le> b \<and> \<not> b \<le> a" by (auto simp: less_eq_GameState_def less_GameState_def)
  show "a \<le> a" by (simp add: less_eq_GameState_def)
  show "a \<le> b \<Longrightarrow> b \<le> c \<Longrightarrow> a \<le> c" by (simp add: less_eq_GameState_def)
  show "a \<le> b \<Longrightarrow> b \<le> a \<Longrightarrow> a = b"
    by (cases a; cases b) (simp_all add: less_eq_GameState_def game_rank_def)
  show "a \<le> b \<or> b \<le> a" by (auto simp: less_eq_GameState_def)
qed

end

lemma GAME_OVER_top [simp]: "s \<le> GAME_OVER"
  by (cases s) (simp_all add: less_eq_GameState_def game_rank_def)

lemma WAIT_bottom [simp]: "WAIT_FOR_START \<le> s"
  by (simp add: less_eq_GameState_def game_rank_def)

datatype room_event =
  Join int string
| Say GameMessage nat
| Explode
| Sweep
| Lost nat
| Elsewhere

inductive room_step :: "room \<times> world \<Rightarrow> room_event \<Rightarrow> room \<times> world \<Rightarrow> bool" where
  step_join: "CanJoin name r = None \<Longrightarrow> JoinPlayer c name r w = Inr (a, r', w') \<Longrightarrow>
    room_step (r, w) (Join c name) (r', w')"
| step_say: "HandleMessage m a r w = Inr (b, r', w') \<Longrightarrow> room_step (r, w) (Say m a) (r', w')"
| step_explode: "NotifyExplosion r w = Inr (r', w') \<Longrightarrow> room_step (r, w) Explode (r', w')"
| step_sweep: "DisconnectPlayers r w = Inr (x, r', w') \<Longrightarrow> room_step (r, w) Sweep (r', w')"
| step_lost: "room_step (r, w) (Lost a) (upd_player a mark r, w)"
| step_elsewhere: "next_addr w \<le> next_addr w' \<Longrightarrow> room_step (r, w) Elsewhere (r, w')"

inductive_cases room_stepE: "room_step (r, w) e (r', w')"

definition room_init :: "room \<times> world \<Rightarrow> bool" where
  "room_init s \<longleftrightarrow> (\<exists>ep. Room_new ep = Inr (fst s))"

lemma room_inv_elsewhere: "room_inv r w \<Longrightarrow> next_addr w \<le> next_addr w' \<Longrightarrow> room_inv r w'"
  by (auto simp: room_inv_def)

lemma room_step_cases [consumes 1, case_names join say explode sweep lost elsewhere]:
  assumes "room_step (r, w) e (r', w')"
  obtains name c a where "e = Join c name" "CanJoin name r = None" "JoinPlayer c name r w = Inr (a, r', w')"
  | m a b where "e = Say m a" "HandleMessage m a r w = Inr (b, r', w')"
  | "e = Explode" "NotifyExplosion r w = Inr (r', w')"
  | n socks where "e = Sweep" "DisconnectPlayers r w = Inr ((n, socks), r', w')"
  | a where "e = Lost a" "r' = upd_player a mark r" "w' = w"
  | "e = Elsewhere" "r' = r" "next_addr w \<le> next_addr w'"
  using assms by (elim room_stepE) auto

lemma room_step_inv:
  assumes "room_step (r, w) e (r', w')" "room_inv r w"
  shows "room_inv r' w'"
  using assms(1)
proof (cases rule: room_step_cases)
  case (join name c a)
  show ?thesis by (rule JoinPlayer_inv [OF join(3) assms(2) join(2)])
next
  case (say m a b)
  show ?thesis by (rule HandleMessage_inv [OF say(2) assms(2)])
next
  case explode
  show ?thesis by (rule NotifyExplosion_inv [OF explode(2) assms(2)])
next
  case (sweep n socks)
  show ?thesis by (rule DisconnectPlayers_inv [OF sweep(2) assms(2)])
next
  case (lost a)
  then show ?thesis using sent_room_inv [OF upd_player_mark_sent assms(2)] by simp
next
  case elsewhere
  then show ?thesis using room_inv_elsewhere [OF assms(2)] by simp
qed

subsection \<open>The direction of the game\<close>

lemma JoinPlayer_stage:
  assumes "JoinPlayer c name r w = Inr (a, r', w')"
  shows "rstate r \<le> rstate r' \<and> clientCount r \<le> clientCount r'"
proof (cases "rstate r = WAIT_FOR_START")
  case False
  then show ?thesis using assms by (simp add: JoinPlayer_def)
next
  case True
  have "clientCount r' = clientCount r + 1"
    using assms True
    by (auto simp: JoinPlayer_def Let_def sent_def same_game_def split: if_splits
        dest!: snd_welcome.sendSpecific_sent snd_gamejoin.sendExcept_sent snd_gamestart.sendBroadcast_sent)
  then show ?thesis using True by simp
qed

lemma HandleMessage_stage:
  assumes "HandleMessage m a r w = Inr (b, r', w')"
  shows "rstate r' = rstate r \<and> clientCount r' = clientCount r \<and> rmap r' = rmap r"
  using assms
  by (cases rule: HandleMessage_cases)
    (auto simp: sent_def same_game_def moved_def upd_player_def)

lemma NotifyExplosion_stage:
  assumes "NotifyExplosion r w = Inr (r', w')" "room_inv r w"
  shows "rstate r \<le> rstate r' \<and> clientCount r' = clientCount r"
proof (cases "rstate r \<noteq> PLAY \<or> bombs r = []")
  case True
  then show ?thesis using assms(1) by (auto simp: NotifyExplosion_def)
next
  case False
  then obtain b bs where b: "rstate r = PLAY" "bombs r = b # bs" by (cases "bombs r") auto
  show ?thesis using NotifyExplosion_Inr [OF assms(1) b assms(2)] b(1) by (auto split: if_splits)
qed

lemma DisconnectPlayers_stage:
  assumes "DisconnectPlayers r w = Inr ((n, socks), r', w')" "room_inv r w"
  shows "rstate r \<le> rstate r' \<and> clientCount r' = clientCount r"
  using DisconnectPlayers_Inr [OF assms] by (auto split: if_splits)

text \<open>How far a game is: its state, then the number of joins.\<close>

definition stage_of :: "room \<times> world \<Rightarrow> GameState" where
  "stage_of s = rstate (fst s)"

lemma room_step_stage:
  assumes "room_step (r, w) e (r', w')" "room_inv r w"
  shows "rstate r \<le> rstate r' \<and> clientCount r \<le> clientCount r'"
  using assms(1)
proof (cases rule: room_step_cases)
  case (join name c a)
  show ?thesis by (rule JoinPlayer_stage [OF join(3)])
next
  case (say m a b)
  then show ?thesis using HandleMessage_stage [OF say(2)] by simp
next
  case explode
  then show ?thesis using NotifyExplosion_stage [OF explode(2) assms(2)] by simp
next
  case (sweep n socks)
  then show ?thesis using DisconnectPlayers_stage [OF sweep(2) assms(2)] by simp
qed (simp_all add: upd_player_def)

interpretation room_machine: progress_machine room_init room_step "\<lambda>s. room_inv (fst s) (snd s)" stage_of
proof unfold_locales
  fix s e t
  show "room_init s \<Longrightarrow> room_inv (fst s) (snd s)"
    by (auto simp: room_init_def intro: Room_new_inv)
  show "room_inv (fst s) (snd s) \<Longrightarrow> room_step s e t \<Longrightarrow> room_inv (fst t) (snd t)"
    by (cases s; cases t) (use room_step_inv in auto)
  show "room_inv (fst s) (snd s) \<Longrightarrow> room_step s e t \<Longrightarrow> stage_of s \<le> stage_of t"
    by (cases s; cases t) (use room_step_stage in \<open>auto simp: stage_of_def\<close>)
qed

interpretation room_joins: progress_machine room_init room_step "\<lambda>s. room_inv (fst s) (snd s)"
    "\<lambda>s. clientCount (fst s)"
proof unfold_locales
  fix s e t
  show "room_inv (fst s) (snd s) \<Longrightarrow> room_step s e t \<Longrightarrow> clientCount (fst s) \<le> clientCount (fst t)"
    by (cases s; cases t) (use room_step_stage in auto)
qed

subsection \<open>A sample game\<close>

text \<open>Four connections, and a game of two of the four players that joined.\<close>

definition room_world :: world where
  "room_world = sample_world\<lparr>next_addr := 4, conns := (\<lambda>k. if 5 \<le> k \<and> k \<le> 8
    then Some \<lparr>sock = k, msg = GameMessage_default, inboundQueue = []\<rparr> else None)\<rparr>"

definition bob :: player where
  "bob = sample_player\<lparr>addr := 1, conn := 6, username := ''bob'', color := PLAYER_GREEN, coords := mk_coords 15 1\<rparr>"

definition playing_room :: room where
  "playing_room = \<lparr>players = [bob, sample_player], bombs = [], rstate = PLAY, clientCount = 4,
    rmap = server_map, epollSock = 9\<rparr>"

lemma server_tile_start:
  "tile server_map 1 1 = 0" "tile server_map 15 1 = 0" "tile server_map 2 1 = 0"
  by (simp_all add: tile_def server_map_def initial_grid_def)

lemma server_starts_free [simp]: "starts_free server_map"
  by (simp add: starts_free_def start_tiles)

lemma playing_room_inv: "next_addr w = 4 \<Longrightarrow> room_inv playing_room w"
  by (simp add: room_inv_def playing_room_def bob_def sample_player_def player_wf_def
      mk_coords_def in_array_def server_tile_start)

definition empty_room :: room where
  "empty_room = \<lparr>players = [], bombs = [], rstate = WAIT_FOR_START, clientCount = 0,
    rmap = server_map, epollSock = 9\<rparr>"

lemma empty_room_init: "room_init (empty_room, w)"
  by (auto simp: room_init_def Room_new_eq empty_room_def)

definition message :: "MessageType \<Rightarrow> message_oneof \<Rightarrow> GameMessage" where
  "message t b = GameMessage_default\<lparr>mtype := t, oneof := Some b\<rparr>"

subsection \<open>Properties\<close>

text \<open>
  C2. Every reachable room is well-formed, whatever is called on it in whatever order: its
  players are distinct objects with distinct names, at most as many as there were joins and at
  most four, each with zero to three lives and on a floor tile inside the board; the board is
  walled in, a waiting room has had fewer than four joins, and no room is ever seen in the
  state \<open>WAIT_FOR_END\<close>.
\<close>

theorem reachable_room_wf:
  assumes "reach room_init room_step (r, w)"
  shows "map_wf (rmap r) \<and> distinct (map addr (players r)) \<and> distinct (map username (players r)) \<and>
    int (length (players r)) \<le> clientCount r \<and> clientCount r \<le> 4 \<and>
    (rstate r = WAIT_FOR_START \<longrightarrow> clientCount r < 4) \<and> rstate r \<noteq> WAIT_FOR_END \<and>
    (\<forall>p\<in>set (players r). 0 \<le> livesRemaining p \<and> livesRemaining p \<le> 3 \<and>
      interior (cx (coords p)) (cy (coords p)) \<and> tile (rmap r) (cx (coords p)) (cy (coords p)) = 0)"
proof -
  have inv: "room_inv r w" using room_machine.reach_inv [OF assms] by simp
  then have "interior (cx (coords p)) (cy (coords p))" if "p \<in> set (players r)" for p
    using that map_wf_border [of "rmap r" "cx (coords p)" "cy (coords p)"]
    by (auto simp: room_inv_def player_wf_def)
  then show ?thesis using inv by (auto simp: room_inv_def player_wf_def)
qed

theorem reachable_room_wf_witness:
  "\<exists>r w. reach room_init room_step (r, w) \<and> map username (players r) = [''ann''] \<and>
    int (length (players r)) \<le> clientCount r"
proof -
  have "yields (JoinPlayer 5 ''ann'' empty_room room_world) (\<lambda>(a, r, w). map username (players r) = [''ann''])"
    by code_simp
  then obtain a r w where j: "JoinPlayer 5 ''ann'' empty_room room_world = Inr (a, r, w)"
      "map username (players r) = [''ann'']" by (auto elim!: yieldsE)
  have "CanJoin ''ann'' empty_room = None" by code_simp
  then have "room_step (empty_room, room_world) (Join 5 ''ann'') (r, w)" using j(1) by (rule step_join)
  then have "reach room_init room_step (r, w)" by (rule reach_step [OF reach_init [of room_init, OF empty_room_init]])
  with reachable_room_wf [OF this] j(2) show ?thesis by (intro exI [of _ r] exI [of _ w] conjI) simp_all
qed

text \<open>
  C14. A game only advances: along every run from a reachable room the state never goes back in
  the order waiting, playing, over, a room that is over stays over, and the count of joins never
  decreases (leaving does not give a place back).
\<close>

theorem game_only_advances:
  assumes "reach room_init room_step (r, w)" and "runs room_step (r, w) es (r', w')"
  shows "rstate r \<le> rstate r' \<and> clientCount r \<le> clientCount r' \<and>
    (rstate r = GAME_OVER \<longrightarrow> rstate r' = GAME_OVER)"
proof -
  have inv: "room_inv (fst (r, w)) (snd (r, w))" using assms(1) by (rule room_machine.reach_inv)
  have "rstate r \<le> rstate r'" using room_machine.run_progress [OF assms(2) inv] by (simp add: stage_of_def)
  moreover have "clientCount r \<le> clientCount r'" using room_joins.run_progress [OF assms(2) inv] by simp
  ultimately show ?thesis by (metis GAME_OVER_top order.antisym)
qed

lemma reach_runs: "runs stp s es t \<Longrightarrow> reach init stp s \<Longrightarrow> reach init stp t"
  by (induction rule: runs.induct) (auto intro: reach_step)

text \<open>A whole game: four join, three of them leave, the sweep ends it, and the bombs still go off.\<close>

definition leave_it :: GameMessage where
  "leave_it = message I_LEAVE ILeaveB"

lemma a_game:
  obtains r1 w1 r2 w2 r3 w3 where
    "runs room_step (empty_room, room_world) [Join 5 ''ann'', Join 6 ''bob'', Join 7 ''cyd'', Join 8 ''dan''] (r1, w1)"
    "runs room_step (r1, w1) [Say leave_it 4, Say leave_it 5, Say leave_it 6, Sweep] (r2, w2)"
    "runs room_step (r2, w2) [Explode] (r3, w3)"
    "rstate r1 = PLAY" "clientCount r1 = 4" "rstate r2 = GAME_OVER"
proof -
  have "CanJoin ''ann'' empty_room = None \<and>
    yields (JoinPlayer 5 ''ann'' empty_room room_world) (\<lambda>(a, r, w). CanJoin ''bob'' r = None \<and>
    yields (JoinPlayer 6 ''bob'' r w) (\<lambda>(a, r, w). CanJoin ''cyd'' r = None \<and>
    yields (JoinPlayer 7 ''cyd'' r w) (\<lambda>(a, r, w). CanJoin ''dan'' r = None \<and>
    yields (JoinPlayer 8 ''dan'' r w) (\<lambda>(a, r, w). rstate r = PLAY \<and> clientCount r = 4 \<and>
    yields (HandleMessage leave_it 4 r w) (\<lambda>(b, r, w). yields (HandleMessage leave_it 5 r w) (\<lambda>(b, r, w).
      yields (HandleMessage leave_it 6 r w) (\<lambda>(b, r, w). yields (DisconnectPlayers r w) (\<lambda>(x, r, w).
        rstate r = GAME_OVER \<and> yields (NotifyExplosion r w) (\<lambda>_. True)))))))))"
    by code_simp
  then obtain a1 ra wa a2 rb wb a3 rc wc a4 r1 w1 b1 rd wd b2 re we b3 rf wf x r2 w2 r3 w3 where
      join: "CanJoin ''ann'' empty_room = None" "JoinPlayer 5 ''ann'' empty_room room_world = Inr (a1, ra, wa)"
        "CanJoin ''bob'' ra = None" "JoinPlayer 6 ''bob'' ra wa = Inr (a2, rb, wb)"
        "CanJoin ''cyd'' rb = None" "JoinPlayer 7 ''cyd'' rb wb = Inr (a3, rc, wc)"
        "CanJoin ''dan'' rc = None" "JoinPlayer 8 ''dan'' rc wc = Inr (a4, r1, w1)" "rstate r1 = PLAY" "clientCount r1 = 4"
    and leave: "HandleMessage leave_it 4 r1 w1 = Inr (b1, rd, wd)" "HandleMessage leave_it 5 rd wd = Inr (b2, re, we)"
        "HandleMessage leave_it 6 re we = Inr (b3, rf, wf)" "DisconnectPlayers rf wf = Inr (x, r2, w2)" "rstate r2 = GAME_OVER"
    and over: "NotifyExplosion r2 w2 = Inr (r3, w3)"
    by (clarsimp elim!: yieldsE)
  have "runs room_step (empty_room, room_world) [Join 5 ''ann'', Join 6 ''bob'', Join 7 ''cyd'', Join 8 ''dan''] (r1, w1)"
    by (rule runs_more, rule step_join, rule join, rule join)+ (rule runs_done)
  moreover have "runs room_step (r1, w1) [Say leave_it 4, Say leave_it 5, Say leave_it 6, Sweep] (r2, w2)"
    by (rule runs_more, rule step_say step_sweep, rule leave)+ (rule runs_done)
  moreover have "runs room_step (r2, w2) [Explode] (r3, w3)" by (rule runs_more, rule step_explode, rule over, rule runs_done)
  ultimately show thesis using join(9,10) leave(5) by (rule that)
qed

theorem game_only_advances_witness:
  "\<exists>r1 w1 r2 w2 r3 w3.
    runs room_step (empty_room, room_world) [Join 5 ''ann'', Join 6 ''bob'', Join 7 ''cyd'', Join 8 ''dan''] (r1, w1) \<and>
    rstate empty_room < rstate r1 \<and> clientCount empty_room < clientCount r1 \<and>
    runs room_step (r1, w1) [Say leave_it 4, Say leave_it 5, Say leave_it 6, Sweep] (r2, w2) \<and>
    rstate r1 < rstate r2 \<and> clientCount r1 \<le> clientCount r2 \<and>
    runs room_step (r2, w2) [Explode] (r3, w3) \<and> rstate r3 = GAME_OVER"
proof -
  obtain r1 w1 r2 w2 r3 w3 where
      1: "runs room_step (empty_room, room_world) [Join 5 ''ann'', Join 6 ''bob'', Join 7 ''cyd'', Join 8 ''dan''] (r1, w1)"
    and 2: "runs room_step (r1, w1) [Say leave_it 4, Say leave_it 5, Say leave_it 6, Sweep] (r2, w2)"
    and 3: "runs room_step (r2, w2) [Explode] (r3, w3)"
    and at: "rstate r1 = PLAY" "clientCount r1 = 4" "rstate r2 = GAME_OVER"
    by (rule a_game)
  have R1: "reach room_init room_step (r1, w1)"
    by (rule reach_runs [OF 1 reach_init [of room_init, OF empty_room_init]])
  have R2: "reach room_init room_step (r2, w2)" by (rule reach_runs [OF 2 R1])
  have "clientCount r1 \<le> clientCount r2" using game_only_advances [OF R1 2] by simp
  moreover have "rstate r3 = GAME_OVER" using game_only_advances [OF R2 3] at(3) by simp
  moreover have "rstate empty_room < rstate r1" "clientCount empty_room < clientCount r1" "rstate r1 < rstate r2"
    using at by (simp_all add: empty_room_def less_GameState_def game_rank_def)
  ultimately show ?thesis using 1 2 3 by blast
qed

text \<open>
  C5. The effect of an explosion in a playing room. The bomb at the front of the queue goes off:
  exactly the crates its blast reaches burn down, every player that stands in the blast, is
  alive and is not immune (at some reading of the clock) loses exactly one life and becomes
  immune until half a second after the next reading, every other player is untouched (but for
  the mark of a failed send), and the game goes on exactly when at least two players are still
  alive; otherwise it is over and everyone is marked for disconnection.
\<close>

theorem explosion_effect:
  assumes "NotifyExplosion r w = Inr (r', w')" and "room_inv r w"
    and "rstate r = PLAY" and "bombs r = b # bs"
  shows "list_all2 (\<lambda>p q. \<exists>k. marks
        (if (cx (coords p), cy (coords p)) \<in> set (blast (tile (rmap r)) b) \<and> livesRemaining p > 0 \<and>
            immunityEndTimestamp p \<le> clk w k
         then p\<lparr>immunityEndTimestamp := clk w (Suc k) + 500, livesRemaining := livesRemaining p - 1\<rparr>
         else p) q) (players r) (players r') \<and>
    tile (rmap r') = burn (tl (blast (tile (rmap r)) b)) (tile (rmap r)) \<and> bombs r' = bs \<and>
    (if 2 \<le> alive_count (players r') then rstate r' = PLAY
     else rstate r' = GAME_OVER \<and> (\<forall>p\<in>set (players r'). markedForDisconnect p))"
proof -
  obtain fs where fs: "boom (\<lambda>n. gtime w (gtick w + n)) b (rmap r) = Inr (fs, rmap r')"
      "list_all2 (scorched (map fire_at fs) (clk w)) (players r) (players r')" "bombs r' = bs"
      "if 2 \<le> alive_count (players r') then rstate r' = PLAY
       else rstate r' = GAME_OVER \<and> (\<forall>p\<in>set (players r'). markedForDisconnect p)"
    using NotifyExplosion_Inr [OF assms(1,3,4,2)] by blast
  have wf: "map_wf (rmap r)" "2 \<le> explosion b" using assms(2,4) by (auto simp: room_inv_def)
  then have "interior (pos_x b) (pos_y b)" using boom_outside fs(1) by fastforce
  from boom_blast [OF wf(1) this, of "\<lambda>n. gtime w (gtick w + n)"] fs(1)
  have "map fire_at fs = blast (tile (rmap r)) b"
      "tile (rmap r') = burn (tl (blast (tile (rmap r)) b)) (tile (rmap r))" by auto
  with fs(2-4) show ?thesis unfolding scorched_def hit_at_def hit_def by simp
qed

text \<open>A game in which ann stands on the bomb that goes off next.\<close>

definition bombed_room :: room where
  "bombed_room = playing_room\<lparr>bombs := [Bomb_new 1 1 3 25 0 3 False]\<rparr>"

lemma bombed_room_inv: "room_inv bombed_room room_world"
  using playing_room_inv [of room_world]
  by (simp add: bombed_room_def room_inv_def room_world_def)

theorem explosion_effect_witness:
  "\<exists>r' w'. NotifyExplosion bombed_room room_world = Inr (r', w') \<and>
    map livesRemaining (players r') = [3, 2] \<and> rstate r' = PLAY \<and> tile (rmap r') 1 3 = 0"
proof -
  have "yields (NotifyExplosion bombed_room room_world)
      (\<lambda>(r', w'). map livesRemaining (players r') = [3, 2] \<and> alive_count (players r') = 2 \<and> tile (rmap r') 1 3 = 0)"
    by code_simp
  then obtain r' w' where r: "NotifyExplosion bombed_room room_world = Inr (r', w')"
      "map livesRemaining (players r') = [3, 2]" "alive_count (players r') = 2" "tile (rmap r') 1 3 = 0"
    by (auto elim!: yieldsE)
  then show ?thesis
    using explosion_effect [OF r(1) bombed_room_inv, of "Bomb_new 1 1 3 25 0 3 False" "[]"]
    by (simp add: bombed_room_def playing_room_def)
qed

end
