(* ===== verification/RoomActions.thy ===== *)
theory RoomActions
  imports RoomProps
begin

section \<open>What players can do to a room\<close>

text \<open>
  The effect of each call of a player on the room: its messages, joining, leaving; and the
  behaviours of the code that its comments and its protocol do not promise.
\<close>

subsection \<open>Messages\<close>

lemma list_all2_iD: "list_all2 R xs ys \<Longrightarrow> i < length xs \<Longrightarrow> R (xs ! i) (ys ! i)"
  by (rule list_all2_nthD)

lemma sent_find:
  assumes "sent (r, w) (r', w')" "find_player a r = Some p" "distinct (map addr (players r))"
  shows "\<exists>q. find_player a r' = Some q \<and> marks p q"
proof -
  have rel: "list_all2 marks (players r) (players r')" using assms(1) by (simp add: sent_def)
  then have d: "distinct (map addr (players r'))" using assms(3) by (simp add: marks_maps)
  obtain i where i: "i < length (players r)" "players r ! i = p" "addr p = a"
    using find_player_Some [OF assms(2)] by (auto simp: in_set_conv_nth)
  have "marks p (players r' ! i)" using list_all2_nthD [OF rel i(1)] i(2) by simp
  moreover have "players r' ! i \<in> set (players r')" using i(1) list_all2_lengthD [OF rel] by simp
  ultimately show ?thesis using find_player_iff [OF d, of a "players r' ! i"] i(3) by (auto simp: marks_fields)
qed

lemma find_upd_player:
  assumes "find_player a r = Some p" "addr p' = a"
  shows "find_player a (upd_player a (\<lambda>_. p') r) = Some p'"
proof -
  have "find (\<lambda>p. addr p = a) ps = Some p \<Longrightarrow>
      find (\<lambda>p. addr p = a) (map (\<lambda>p. if addr p = a then p' else p) ps) = Some p'" for ps
    using assms(2) by (induction ps) auto
  then show ?thesis using assms(1) by (simp add: find_player_def upd_player_def)
qed

lemma upd_player_addrs:
  "addr p' = a \<Longrightarrow> map addr (players (upd_player a (\<lambda>_. p') r)) = map addr (players r)"
  by (simp add: upd_player_def)

text \<open>A player that does not act keeps everything but its mark.\<close>

lemma moved_others:
  assumes "moved a r w r' w'" "room_inv r w"
  shows "\<exists>x y p c p' w1. find_player a r = Some p \<and> in_array x y \<and> tile (rmap r) x y = 0 \<and>
    MoveCheckSus x y p w = Inr (c, p', w1) \<and>
    list_all2 (\<lambda>p q. if addr p = a then marks p' q else marks p q) (players r) (players r') \<and>
    bombs r' = bombs r"
proof -
  obtain x y p c p' w1 where m: "find_player a r = Some p" "in_array x y" "tile (rmap r) x y = 0"
      "MoveCheckSus x y p w = Inr (c, p', w1)" "sent (upd_player a (\<lambda>_. p') r, w1) (r', w')"
    using assms(1) unfolding moved_def by blast
  have "list_all2 (\<lambda>p q. q = (if addr p = a then p' else p)) (players r) (players (upd_player a (\<lambda>_. p') r))"
    by (rule upd_player_rel)
  moreover have "list_all2 marks (players (upd_player a (\<lambda>_. p') r)) (players r')"
    using m(5) by (simp add: sent_def)
  ultimately have "list_all2 (\<lambda>p q. if addr p = a then marks p' q else marks p q) (players r) (players r')"
    by (rule list_all2_trans [rotated]) (auto split: if_splits)
  moreover have "bombs r' = bombs r" using m(5) by (simp add: sent_def same_game_def upd_player_def)
  ultimately show ?thesis using m(1-4) by blast
qed

text \<open>
  C15. What a message can change. It takes no lives and no one's name, address or order in the
  room; it moves at most its author, only by \<open>I_MOVE\<close> in a game that has started and while the
  author is alive, and only onto a floor tile of the board; it queues a bomb, and asks the
  server for a timer, exactly when it is a living player's \<open>I_PLACE_BOMB\<close>; the board, the
  count of joins and the state of the game stay.
\<close>

theorem message_changes:
  assumes "HandleMessage m a r w = Inr (b, r', w')" and "room_inv r w"
  shows "map livesRemaining (players r') = map livesRemaining (players r) \<and>
    map addr (players r') = map addr (players r) \<and>
    (\<forall>i < length (players r). coords (players r' ! i) \<noteq> coords (players r ! i) \<longrightarrow>
      addr (players r ! i) = a \<and> mtype m = I_MOVE \<and> rstate r \<noteq> WAIT_FOR_START \<and>
      livesRemaining (players r ! i) > 0 \<and>
      interior (cx (coords (players r' ! i))) (cy (coords (players r' ! i))) \<and>
      tile (rmap r) (cx (coords (players r' ! i))) (cy (coords (players r' ! i))) = 0) \<and>
    (b \<longleftrightarrow> (\<exists>p \<in> set (players r). addr p = a \<and> livesRemaining p \<noteq> 0) \<and>
      mtype m = I_PLACE_BOMB \<and> rstate r \<noteq> WAIT_FOR_START) \<and>
    length (bombs r') = length (bombs r) + (if b then 1 else 0) \<and>
    rmap r' = rmap r \<and> clientCount r' = clientCount r \<and> rstate r' = rstate r"
  using assms(1)
proof (cases rule: HandleMessage_cases)
  case marked
  have "map coords (players r') = map coords (players r)" "map livesRemaining (players r') = map livesRemaining (players r)"
      "map addr (players r') = map addr (players r)"
    using marked(2) by (simp_all add: sent_simps)
  moreover from this(1) have "coords (players r' ! i) = coords (players r ! i)" if "i < length (players r)" for i
    using that by (metis length_map nth_map)
  moreover have "\<not> ((\<exists>p \<in> set (players r). addr p = a \<and> livesRemaining p \<noteq> 0) \<and>
      mtype m = I_PLACE_BOMB \<and> rstate r \<noteq> WAIT_FOR_START)"
    using marked(3) find_player_iff [of r a] assms(2) by (auto simp: room_inv_def)
  ultimately show ?thesis using marked(1,2) by (simp add: sent_simps)
next
  case (bomb p bx "by")
  have "list_all2 marks (players r) (players r')" using bomb(8) by (simp add: sent_def)
  then have "map coords (players r') = map coords (players r)" "map livesRemaining (players r') = map livesRemaining (players r)"
      "map addr (players r') = map addr (players r)"
    by (simp_all add: marks_maps)
  moreover from this(1) have "coords (players r' ! i) = coords (players r ! i)" if "i < length (players r)" for i
    using that by (metis length_map nth_map)
  moreover have "\<exists>p \<in> set (players r). addr p = a \<and> livesRemaining p \<noteq> 0"
    using find_player_Some [OF bomb(4)] bomb(5) by blast
  ultimately show ?thesis using bomb(1-3,8) by (simp add: sent_def same_game_def)
next
  case (move p)
  from moved_others [OF move(6) assms(2)] obtain x y p' c w1 q where m:
      "find_player a r = Some q" "in_array x y" "tile (rmap r) x y = 0" "MoveCheckSus x y q w = Inr (c, p', w1)"
      "list_all2 (\<lambda>p q. if addr p = a then marks p' q else marks p q) (players r) (players r')" "bombs r' = bombs r"
    by blast
  have q: "q = p" using m(1) move(4) by simp
  note p' = moved_player [OF m(4,2)]
  have inv: "map_wf (rmap r)" "distinct (map addr (players r))" "0 \<le> livesRemaining p"
    using assms(2) find_player_Some [OF move(4)] by (auto simp: room_inv_def player_wf_def)
  have only: "x = p" if "x \<in> set (players r)" "addr x = a" for x
    using find_player_iff [OF inv(2), of a x] move(4) that by simp
  have l: "list_all2 (\<lambda>x y. x \<in> set (players r) \<and> (if addr x = a then x = p \<and> marks p' y else marks x y))
      (players r) (players r')"
    using m(5) by (rule list.rel_mono_strong) (use only in auto)
  have maps: "map livesRemaining (players r') = map livesRemaining (players r)"
      "map addr (players r') = map addr (players r)"
    by (rule list_all2_map_eq [OF l]; use p' q in \<open>auto simp: marks_fields split: if_splits\<close>)+
  have fl: "interior x y" using map_wf_border [OF inv(1) m(2)] m(3) by simp
  have "addr (players r ! i) = a \<and> livesRemaining (players r ! i) > 0 \<and>
      interior (cx (coords (players r' ! i))) (cy (coords (players r' ! i))) \<and>
      tile (rmap r) (cx (coords (players r' ! i))) (cy (coords (players r' ! i))) = 0"
    if i: "i < length (players r)" "coords (players r' ! i) \<noteq> coords (players r ! i)" for i
  proof -
    have h: "if addr (players r ! i) = a then players r ! i = p \<and> marks p' (players r' ! i)
        else marks (players r ! i) (players r' ! i)"
      using list_all2_nthD [OF l i(1)] by blast
    then have "addr (players r ! i) = a" "players r ! i = p" "coords (players r' ! i) = coords p'"
      using i(2) by (auto simp: marks_fields split: if_splits)
    moreover from this have "coords p' = mk_coords x y" using i(2) p'(1) q by (auto split: if_splits)
    ultimately show ?thesis using fl m(3) move(5) inv(3) by (simp add: mk_coords_def)
  qed
  then show ?thesis
    using maps move(1-3) m(6) HandleMessage_stage [OF assms(1)] by auto
qed

theorem message_changes_witness:
  "\<exists>b r' w'. HandleMessage (message I_MOVE (IMoveB (Fin 2) (Fin 1))) 0 playing_room room_world = Inr (b, r', w') \<and>
    coords (players r' ! 1) = mk_coords 2 1 \<and> \<not> b \<and> bombs r' = []"
proof -
  have "yields (HandleMessage (message I_MOVE (IMoveB (Fin 2) (Fin 1))) 0 playing_room room_world)
      (\<lambda>(b, r', w'). coords (players r' ! 1) = mk_coords 2 1)"
    by code_simp
  then obtain b r' w' where r:
      "HandleMessage (message I_MOVE (IMoveB (Fin 2) (Fin 1))) 0 playing_room room_world = Inr (b, r', w')"
      "coords (players r' ! 1) = mk_coords 2 1" by (auto elim!: yieldsE)
  have "room_inv playing_room room_world" by (rule playing_room_inv) (simp add: room_world_def)
  from message_changes [OF r(1) this] r show ?thesis by (auto simp: message_def playing_room_def)
qed

text \<open>
  C28. A move. When a living player of a started game sends \<open>I_MOVE\<close>, the position it has
  afterwards is the target, rounded down, if that is a floor tile of the board and
  \<open>MoveCheckSus\<close> has no correction, and its old position otherwise; a target off the
  board's array is not caught: it is an index out of bounds.
\<close>

theorem move_effect:
  assumes "room_inv r w" and "find_player a r = Some p" and "livesRemaining p \<noteq> 0"
    and "rstate r \<noteq> WAIT_FOR_START" and "mtype m = I_MOVE"
    and "floor_to_int (fst (msg_imove m)) = Inr x" and "floor_to_int (snd (msg_imove m)) = Inr y"
  shows "(\<forall>b r' w'. HandleMessage m a r w = Inr (b, r', w') \<longrightarrow> in_array x y \<and>
      (\<exists>q. find_player a r' = Some q \<and> coords q =
        (if tile (rmap r) x y = 0 \<and> (\<exists>p' w1. MoveCheckSus x y p w = Inr (None, p', w1))
         then mk_coords x y else coords p))) \<and>
    (\<not> in_array x y \<longrightarrow> HandleMessage m a r w = Inl (Undefined ''map index out of bounds''))"
proof -
  have h: "HandleMessage m a r w = handle_move m a r w"
    using assms(2-5) by (simp add: HandleMessage_def get_player_def)
  have out: "HandleMessage m a r w = Inl (Undefined ''map index out of bounds'')" if "\<not> in_array x y"
    using that assms(2,6,7) by (simp add: h handle_move_def get_player_def split_beta getSquareState_def)
  have "in_array x y \<and> (\<exists>q. find_player a r' = Some q \<and> coords q =
      (if tile (rmap r) x y = 0 \<and> (\<exists>p' w1. MoveCheckSus x y p w = Inr (None, p', w1))
       then mk_coords x y else coords p))"
    if run: "HandleMessage m a r w = Inr (b, r', w')" for b r' w'
  proof -
    have d: "distinct (map addr (players r))" using assms(1) by (simp add: room_inv_def)
    have i: "in_array x y" using out run by fastforce
    have run': "(if tile (rmap r) x y \<noteq> 0 then correct_movement a (GetCoords p) (r, w)
        else andThen (MoveCheckSus x y p w) (\<lambda>(correction, p', w1).
          let r1 = upd_player a (\<lambda>_. p') r in
          case correction of Some c \<Rightarrow> correct_movement a c (r1, w1)
          | None \<Rightarrow> andThen (sendExcept a (SendOtherMove (username p')
              (Fin (of_int (float_of_int x))) (Fin (of_int (float_of_int y)))) (r1, w1))
              (\<lambda>(r2, w2). Inr (False, r2, w2)))) = Inr (b, r', w')"
      using run assms(2,6,7) i
      by (simp add: h handle_move_def get_player_def getSquareState_in split_beta)
    show ?thesis
    proof (cases "tile (rmap r) x y = 0")
      case False
      then have "sent (r, w) (r', w')" using run' correct_movement_sent by simp
      from sent_find [OF this assms(2) d] show ?thesis using i False by (auto simp: marks_fields)
    next
      case True
      then obtain c p' w1 where c: "MoveCheckSus x y p w = Inr (c, p', w1)"
          "(case c of Some c \<Rightarrow> correct_movement a c (upd_player a (\<lambda>_. p') r, w1)
            | None \<Rightarrow> andThen (sendExcept a (SendOtherMove (username p')
                (Fin (of_int (float_of_int x))) (Fin (of_int (float_of_int y)))) (upd_player a (\<lambda>_. p') r, w1))
                (\<lambda>(r2, w2). Inr (False, r2, w2))) = Inr (b, r', w')"
        using run' by (auto simp: Let_def)
      note p' = moved_player [OF c(1) i]
      have a: "addr p' = a" using p'(2) find_player_Some [OF assms(2)] by simp
      have "sent (upd_player a (\<lambda>_. p') r, w1) (r', w')"
        using c(2) by (auto split: option.splits dest: correct_movement_sent snd_move.sendExcept_sent)
      from sent_find [OF this find_upd_player [OF assms(2) a]] d upd_player_addrs [OF a]
      obtain q where "find_player a r' = Some q" "marks p' q" by auto
      moreover have "coords p' = (if \<exists>p' w1. MoveCheckSus x y p w = Inr (None, p', w1) then mk_coords x y else coords p)"
        using p'(1) c(1) by auto
      ultimately show ?thesis using i True by (simp add: marks_fields)
    qed
  qed
  with out show ?thesis by blast
qed

theorem move_effect_witness:
  "HandleMessage (message I_MOVE (IMoveB (Fin 17) (Fin 1))) 0 playing_room room_world =
    Inl (Undefined ''map index out of bounds'')"
proof -
  have "room_inv playing_room room_world" by (rule playing_room_inv) (simp add: room_world_def)
  from move_effect [OF this, of 0 sample_player "message I_MOVE (IMoveB (Fin 17) (Fin 1))" 17 1]
  show ?thesis
    by (simp add: find_player_def playing_room_def bob_def sample_player_def message_def msg_imove_def
        to_int32_def int32_ok_def in_array_def)
qed

text \<open>
  The dead are inert: a message other than \<open>I_LEAVE\<close> from a player without lives changes
  nothing in a started game but the marks of players that could not be sent to; it is answered
  with an error and asks for no timer.
\<close>

theorem dead_players_inert:
  assumes "find_player a r = Some p" and "livesRemaining p = 0" and "mtype m \<noteq> I_LEAVE"
    and "rstate r \<noteq> WAIT_FOR_START"
  shows "HandleMessage m a r w =
      send_error a ''You can't really do anything while dead, can you?'' r w \<and>
    (\<forall>b r' w'. HandleMessage m a r w = Inr (b, r', w') \<longrightarrow>
      \<not> b \<and> same_game r r' \<and> list_all2 marks (players r) (players r'))"
proof -
  have h: "HandleMessage m a r w = send_error a ''You can't really do anything while dead, can you?'' r w"
    using assms by (simp add: HandleMessage_def get_player_def)
  have "\<not> b \<and> same_game r r' \<and> list_all2 marks (players r) (players r')"
    if "HandleMessage m a r w = Inr (b, r', w')" for b r' w'
    using send_error_sent [OF that [unfolded h]] by (simp add: sent_def)
  with h show ?thesis by blast
qed

theorem dead_players_inert_witness:
  "HandleMessage (message I_PLACE_BOMB (IPlaceBombB (Fin 1) (Fin 1))) 0
      (playing_room\<lparr>players := [sample_player\<lparr>livesRemaining := 0\<rparr>]\<rparr>) room_world =
    send_error 0 ''You can't really do anything while dead, can you?''
      (playing_room\<lparr>players := [sample_player\<lparr>livesRemaining := 0\<rparr>]\<rparr>) room_world"
  using dead_players_inert [of 0 "playing_room\<lparr>players := [sample_player\<lparr>livesRemaining := 0\<rparr>]\<rparr>"
      "sample_player\<lparr>livesRemaining := 0\<rparr>" "message I_PLACE_BOMB (IPlaceBombB (Fin 1) (Fin 1))" room_world]
  by (simp add: find_player_def sample_player_def message_def playing_room_def)

text \<open>
  Where a bomb may be planted. A living player's \<open>I_PLACE_BOMB\<close> queues a bomb on the tile
  it names, wherever the player stands and whether or not the tile is on the board; a bomb
  outside the walls is an index out of bounds when it reaches the front of the queue of a
  playing room and explodes.
\<close>

theorem bomb_planted_anywhere:
  assumes "HandleMessage m a r w = Inr (True, r', w')"
    and "floor_to_int (fst (msg_iplacebomb m)) = Inr x" and "floor_to_int (snd (msg_iplacebomb m)) = Inr y"
  shows "(\<exists>ts. bombs r' = bombs r @ [Bomb_new x y 3 25 ts 3 False]) \<and>
    (\<not> interior x y \<longrightarrow> (\<forall>r2 w2. rstate r2 = PLAY \<and> bombs r2 \<noteq> [] \<and> hd (bombs r2) = last (bombs r') \<longrightarrow>
      NotifyExplosion r2 w2 = Inl (Undefined ''map index out of bounds'')))"
  using assms(1)
proof (cases rule: HandleMessage_cases)
  case (bomb p bx "by")
  let ?b = "Bomb_new x y 3 25 (clk w (Suc (tick w))) 3 False"
  have b: "bombs r' = bombs r @ [?b]" using bomb(6-8) assms(2,3) by (simp add: sent_def same_game_def)
  have "NotifyExplosion r2 w2 = Inl (Undefined ''map index out of bounds'')"
    if "\<not> interior x y" "rstate r2 = PLAY" "bombs r2 \<noteq> []" "hd (bombs r2) = ?b" for r2 w2
    using that boom_outside [of ?b] by (simp add: NotifyExplosion_def Let_def Bomb_new_def)
  then show ?thesis using b by auto
qed auto

theorem bomb_planted_anywhere_witness:
  "\<exists>r' w'. HandleMessage (message I_PLACE_BOMB (IPlaceBombB (Fin 99) (Fin 99))) 0 playing_room room_world =
      Inr (True, r', w') \<and> NotifyExplosion r' w' = Inl (Undefined ''map index out of bounds'')"
proof -
  let ?m = "message I_PLACE_BOMB (IPlaceBombB (Fin 99) (Fin 99))"
  have "yields (HandleMessage ?m 0 playing_room room_world) (\<lambda>(b, r', w'). b \<and> rstate r' = PLAY \<and> length (bombs r') = 1)"
    by code_simp
  then obtain r' w' where r: "HandleMessage ?m 0 playing_room room_world = Inr (True, r', w')"
      "rstate r' = PLAY" "length (bombs r') = 1" by (auto elim!: yieldsE)
  have "floor_to_int (fst (msg_iplacebomb ?m)) = Inr 99" "floor_to_int (snd (msg_iplacebomb ?m)) = Inr 99"
    by (simp_all add: message_def msg_iplacebomb_def to_int32_def int32_ok_def)
  from bomb_planted_anywhere [OF r(1) this] r(2,3)
  have "NotifyExplosion r' w' = Inl (Undefined ''map index out of bounds'')"
    by (cases "bombs r'") (auto simp: interior_def)
  with r(1) show ?thesis by blast
qed

subsection \<open>Joining\<close>

lemma JoinPlayer_effect:
  assumes "JoinPlayer c name r w = Inr (a, r', w')" and "rstate r = WAIT_FOR_START" and "room_inv r w"
  shows "\<exists>p. list_all2 marks (p # players r) (players r') \<and> a = Some (addr p) \<and>
    addr p \<notin> addr ` set (players r) \<and> conn p = c \<and> username p = name \<and> livesRemaining p = 3 \<and>
    color p = color_of_size (length (players r)) \<and> start_coords (color p) = Some (coords p) \<and>
    r' = r\<lparr>players := players r', clientCount := clientCount r + 1,
      rstate := if clientCount r + 1 = 4 then PLAY else WAIT_FOR_START\<rparr>"
proof -
  let ?col = "color_of_size (length (players r))"
  from assms(1,2) obtain p w1 l s2 r3 w3 where j: "Player_new c name ?col w = Inr (p, w1)"
      "sendSpecific (addr p) (SendWelcomeToRoom l)
        (r\<lparr>players := p # players r, clientCount := clientCount r + 1\<rparr>, w1) = Inr s2"
      "sendExcept (addr p) (SendGameJoin (name, ?col)) s2 = Inr (r3, w3)"
      "(if 4 - clientCount r3 = 0
        then andThen (sendBroadcast SendGameStart (r3\<lparr>rstate := PLAY\<rparr>, w3)) (\<lambda>(r4, w4). Inr (Some (addr p), r4, w4))
        else Inr (Some (addr p), r3, w3)) = Inr (a, r', w')"
    by (auto simp: JoinPlayer_def Let_def)
  let ?r1 = "r\<lparr>players := p # players r, clientCount := clientCount r + 1\<rparr>"
  have s: "sent (?r1, w1) (r3, w3)"
    using snd_welcome.sendSpecific_sent [OF j(2)] snd_gamejoin.sendExcept_sent [OF j(3)] by (rule sent_trans)
  have "a = Some (addr p) \<and> sent (r3\<lparr>rstate := rstate r'\<rparr>, w3) (r', w') \<and>
      rstate r' = (if clientCount r3 = 4 then PLAY else rstate r3)"
  proof (cases "clientCount r3 = 4")
    case True
    then have "a = Some (addr p)" "sendBroadcast SendGameStart (r3\<lparr>rstate := PLAY\<rparr>, w3) = Inr (r', w')"
      using j(4) by auto
    moreover from this(2) have "sent (r3\<lparr>rstate := PLAY\<rparr>, w3) (r', w')" by (rule snd_gamestart.sendBroadcast_sent)
    moreover from this have "rstate r' = PLAY" by (simp add: sent_def same_game_def)
    ultimately show ?thesis using True by simp
  next
    case False
    then show ?thesis using j(4) by auto
  qed
  moreover have "sent (?r1\<lparr>rstate := rstate r'\<rparr>, w1) (r3\<lparr>rstate := rstate r'\<rparr>, w3)"
    using s by (rule sent_rstate)
  ultimately have f: "a = Some (addr p)" "sent (?r1\<lparr>rstate := rstate r'\<rparr>, w1) (r', w')"
      "rstate r' = (if clientCount r3 = 4 then PLAY else rstate r3)" using sent_trans by blast+
  have p: "conn p = c" "username p = name" "livesRemaining p = 3" "color p = ?col"
      "start_coords ?col = Some (coords p)" "addr p = next_addr w"
    using j(1) by (auto simp: Player_new_def TimestampMillis_def Let_def split: option.splits)
  then have "addr p \<notin> addr ` set (players r)" using assms(3) by (auto simp: room_inv_def)
  then show ?thesis using f s p assms(2)
    by (intro exI [of _ p]) (auto simp: sent_def same_game_def intro!: room.equality)
qed

lemma JoinPlayer_changes:
  assumes "JoinPlayer c name r w = Inr (a, r', w')" and "CanJoin name r = None"
    and "rstate r = WAIT_FOR_START" and "room_inv r w"
  shows "\<exists>p pos. list_all2 marks (p # players r) (players r') \<and> a = Some (addr p) \<and>
    addr p \<notin> addr ` set (players r) \<and> conn p = c \<and> username p = name \<and> livesRemaining p = 3 \<and>
    color p = color_of_size (length (players r)) \<and> start_coords (color p) = Some pos \<and> coords p = pos \<and>
    clientCount r' = clientCount r + 1 \<and> bombs r' = bombs r \<and>
    rstate r' = (if clientCount r + 1 = 4 then PLAY else WAIT_FOR_START)"
proof -
  from JoinPlayer_effect [OF assms(1,3,4)] obtain p where p:
      "list_all2 marks (p # players r) (players r')" "a = Some (addr p)" "addr p \<notin> addr ` set (players r)"
      "conn p = c" "username p = name" "livesRemaining p = 3" "color p = color_of_size (length (players r))"
      "start_coords (color p) = Some (coords p)"
    and r': "r' = r\<lparr>players := players r', clientCount := clientCount r + 1,
      rstate := if clientCount r + 1 = 4 then PLAY else WAIT_FOR_START\<rparr>" by blast
  have "clientCount r' = clientCount r + 1" "bombs r' = bombs r"
      "rstate r' = (if clientCount r + 1 = 4 then PLAY else WAIT_FOR_START)"
    by (subst r', simp)+
  with p show ?thesis by blast
qed

text \<open>
  C20. Joining. A join that \<open>CanJoin\<close> admits to a waiting room puts a new player with that name
  and connection in front of the others, with three lives, the colour of the number of players
  before it and the start position of that colour, unmarked and moved by nobody; the others
  keep everything but their mark. The fourth join, and no other, starts the game, however many
  players are still there.
\<close>

theorem join_effect:
  assumes "JoinPlayer c name r w = Inr (a, r', w')" and "CanJoin name r = None"
    and "rstate r = WAIT_FOR_START" and "room_inv r w"
  shows "\<exists>p pos. list_all2 marks (p # players r) (players r') \<and> a = Some (addr p) \<and>
    addr p \<notin> addr ` set (players r) \<and> conn p = c \<and> username p = name \<and> livesRemaining p = 3 \<and>
    color p = color_of_size (length (players r)) \<and> start_coords (color p) = Some pos \<and> coords p = pos \<and>
    clientCount r' = clientCount r + 1 \<and> bombs r' = bombs r \<and>
    rstate r' = (if clientCount r + 1 = 4 then PLAY else WAIT_FOR_START)"
  using assms by (rule JoinPlayer_changes)

theorem join_effect_witness:
  "\<exists>a r' w'. JoinPlayer 5 ''ann'' (empty_room\<lparr>clientCount := 3\<rparr>) room_world = Inr (a, r', w') \<and>
    length (players r') = 1 \<and> rstate r' = PLAY"
proof -
  let ?r = "empty_room\<lparr>clientCount := 3\<rparr>"
  have "yields (JoinPlayer 5 ''ann'' ?r room_world) (\<lambda>(a, r, w). True)" by code_simp
  then obtain a r' w' where j: "JoinPlayer 5 ''ann'' ?r room_world = Inr (a, r', w')" by (auto elim!: yieldsE)
  have "room_inv ?r room_world" "CanJoin ''ann'' ?r = None" "rstate ?r = WAIT_FOR_START"
    by (simp_all add: room_inv_def empty_room_def CanJoin_def)
  from join_effect [OF j this(2,3,1)] j show ?thesis
    by (auto simp: empty_room_def list_all2_Cons1)
qed

subsection \<open>Leaving\<close>

text \<open>
  A leave while the room waits is charged to the wrong player: \<open>HandleMessage\<close> marks
  \<open>players[0]\<close>, the one that joined last, whoever the author is; another author stays in the
  room as it was.
\<close>

theorem waiting_leave_marks_newest:
  assumes "rstate r = WAIT_FOR_START" and "players r = p # ps" and "mtype m = I_LEAVE"
    and "find_player a r = Some q" and "addr p \<noteq> a"
  shows "HandleMessage m a r w = Inr (False, r\<lparr>players := mark p # ps\<rparr>, w) \<and>
    find_player a (r\<lparr>players := mark p # ps\<rparr>) = Some q"
proof -
  have "find_player a (r\<lparr>players := mark p # ps\<rparr>) = find_player a r"
    using assms(2,5) by (simp add: find_player_def mark_def)
  then show ?thesis using assms by (simp add: HandleMessage_def get_player_def)
qed

theorem waiting_leave_marks_newest_witness:
  "HandleMessage (GameMessage_default\<lparr>mtype := I_LEAVE\<rparr>) 0 (playing_room\<lparr>rstate := WAIT_FOR_START\<rparr>) room_world =
    Inr (False, playing_room\<lparr>rstate := WAIT_FOR_START, players := [mark bob, sample_player]\<rparr>, room_world)"
  using waiting_leave_marks_newest [of "playing_room\<lparr>rstate := WAIT_FOR_START\<rparr>" bob "[sample_player]"
      "GameMessage_default\<lparr>mtype := I_LEAVE\<rparr>" 0 sample_player room_world]
  by (simp add: playing_room_def find_player_def bob_def sample_player_def)

text \<open>
  A player that waits alone is thrown out by its own first message: whatever it sends
  while it is the only player of a waiting room, the sweep that follows every message declares
  it the winner, closes its socket and ends the game.
\<close>

theorem lone_waiting_player_wins:
  assumes "rstate r = WAIT_FOR_START" and "players r = [p]" and "room_inv r w"
    and "HandleMessage m (addr p) r w = Inr (b, r1, w1)"
    and "DisconnectPlayers r1 w1 = Inr ((n, socks), r2, w2)"
  shows "players r2 = [] \<and> rstate r2 = GAME_OVER \<and> n = 0 \<and> socks = [sock_of (conn p) w1] \<and>
    \<not> fd_open w2 (sock_of (conn p) w1)"
proof -
  have inv1: "room_inv r1 w1" by (rule HandleMessage_inv [OF assms(4,3)])
  have wait: "rstate r1 = WAIT_FOR_START" using HandleMessage_stage [OF assms(4)] assms(1) by simp
  have "sent (r, w) (r1, w1)"
    using assms(4) by (cases rule: HandleMessage_cases) (use assms(1) in auto)
  then obtain q where q: "players r1 = [q]" "marks p q"
    using assms(2) by (auto simp: sent_def list_all2_Cons1)
  from DisconnectPlayers_Inr [OF assms(5) inv1] obtain P bs where d: "n = length bs"
      "list_all2 atomic_bomb
        (if rstate r1 = PLAY then filter (\<lambda>p. P p \<and> livesRemaining p \<noteq> 0) (players r1) else []) bs"
      "dropped (epollSock r1) socks w1 w2"
      "if 2 \<le> length (filter (\<lambda>p. \<not> P p) (players r1))
       then list_all2 marks (filter (\<lambda>p. \<not> P p) (players r1)) (players r2) \<and> rstate r2 = rstate r1 \<and>
         socks = map (\<lambda>p. sock_of (conn p) w1) (filter P (players r1))
       else players r2 = [] \<and> rstate r2 = GAME_OVER \<and>
         socks = map (\<lambda>p. sock_of (conn p) w1) (filter P (players r1) @ filter (\<lambda>p. \<not> P p) (players r1))"
    by blast
  have "socks = [sock_of (conn p) w1]" "players r2 = []" "rstate r2 = GAME_OVER"
    using d(4) q by (auto simp: marks_fields split: if_splits)
  then show ?thesis using d(1-3) wait by (simp add: dropped_def)
qed

theorem lone_waiting_player_wins_witness:
  "\<exists>b r1 w1 n r2 w2. HandleMessage (GameMessage_default\<lparr>mtype := GET_ROOM_LIST\<rparr>) 0
      (playing_room\<lparr>players := [sample_player], rstate := WAIT_FOR_START, clientCount := 1\<rparr>) room_world = Inr (b, r1, w1) \<and>
    DisconnectPlayers r1 w1 = Inr ((n, [5]), r2, w2) \<and> rstate r2 = GAME_OVER"
proof -
  let ?r = "playing_room\<lparr>players := [sample_player], rstate := WAIT_FOR_START, clientCount := 1\<rparr>"
  let ?m = "GameMessage_default\<lparr>mtype := GET_ROOM_LIST\<rparr>"
  have "yields (HandleMessage ?m 0 ?r room_world) (\<lambda>(b, r1, w1). yields (DisconnectPlayers r1 w1)
      (\<lambda>((n, socks), r2, w2). sock_of 5 w1 = 5))"
    by code_simp
  then obtain b r1 w1 n socks r2 w2 where h: "HandleMessage ?m 0 ?r room_world = Inr (b, r1, w1)"
      "DisconnectPlayers r1 w1 = Inr ((n, socks), r2, w2)" "sock_of 5 w1 = 5"
    by (auto elim!: yieldsE)
  have "room_inv playing_room room_world" by (rule playing_room_inv) (simp add: room_world_def)
  then have i: "room_inv ?r room_world" by (auto simp: room_inv_def playing_room_def)
  have a: "addr sample_player = 0" "conn sample_player = 5" by (simp_all add: sample_player_def)
  from lone_waiting_player_wins [of ?r sample_player room_world ?m b r1 w1 n socks r2 w2] h i a
  show ?thesis by (simp add: playing_room_def)
qed

end
