(* ===== verification/Server.thy ===== *)
theory Server
  imports Room "HOL-Library.AList"
begin

section \<open>The server (\<open>server/Server.h\<close>, \<open>server/Server.cpp\<close>)\<close>

text \<open>
  The server owns the connections and the rooms. A connection is in the lobby (\<open>lobbyConns\<close>) until
  it joins a room, then in \<open>roomConns\<close> under its socket, where \<open>roomAssignments\<close> says which player
  of which room it is. Three threads serve the lobby, the rooms and the bomb timers, each from
  an epoll instance of its own.

  Objects have addresses: \<open>room_heap\<close> holds the rooms that live (the shared pointers of \<open>rooms\<close> own
  them, so replacing or erasing an entry destroys the room and its players), \<open>pir_node\<close> is the
  address of an entry of \<open>roomAssignments\<close>, the pointer the room epoll carries, and \<open>birs\<close> holds
  the \<open>BombInRoom\<close> objects whose block has not ended. A pointer to what no longer lives is
  undefined. The hash tables are association lists; where the code iterates over one, the order
  is \<open>iteration\<close>, some permutation of the keys.

  An operation is a function of the server and the world. Those that receive a message may not
  return (\<open>None\<close>, see \<open>Connection\<close>).
\<close>

record PlayerInRoom =
  pir_node :: nat
  pir_player :: nat
  pir_room :: nat

record BombInRoom =
  bir_fd :: int
  bir_room :: nat

record server =
  ended :: bool
  rooms :: "(string \<times> nat) list"
  room_heap :: "nat \<Rightarrow> room option"
  roomConns :: "(int \<times> int) list"
  roomAssignments :: "(int \<times> PlayerInRoom) list"
  lobbyConns :: "int list"
  birs :: "nat \<Rightarrow> BombInRoom option"
  roomEpollSock :: int
  lobbyEpollSock :: int
  bombEpollSock :: int
  srvSock :: int
  sigSock :: int

subsection \<open>Construction\<close>

text \<open>
  The constructor, with the world at the throw as well: what it closes matters. \<open>checked\<close> runs the
  clean-up of a call that fails.
\<close>

definition close_all :: "int list \<Rightarrow> world \<Rightarrow> world" where
  "close_all fds w = foldl (\<lambda>w fd. sys_close fd w) w fds"

definition checked ::
  "(world \<Rightarrow> int \<times> world) \<Rightarrow> (int \<Rightarrow> int list) \<Rightarrow> string \<Rightarrow> (int \<Rightarrow> world \<Rightarrow> 'a res \<times> world) \<Rightarrow>
    world \<Rightarrow> 'a res \<times> world" where
  "checked call fds what rest w = (let (r, w1) = call w in
     if r = - 1 then (Inl (RuntimeError what), close_all (fds r) w1) else rest r w1)"

definition Server_new :: "int \<Rightarrow> world \<Rightarrow> server res \<times> world" where
  "Server_new port =
    checked (sys_open SocketCreate) (\<lambda>_. []) ''socket creation failed'' (\<lambda>srv.
    checked (sys_call (ReuseAddr srv)) (\<lambda>_. [srv]) ''setting socket options failed'' (\<lambda>_.
    checked (sys_call (Bind srv port)) (\<lambda>_. [srv]) ''bind failed'' (\<lambda>_.
    checked (sys_call (Listen srv 1)) (\<lambda>_. [srv]) ''listen failed'' (\<lambda>_.
    checked (sys_open EpollCreate) (\<lambda>r. [srv, r]) ''epoll creation failed'' (\<lambda>lobby.
    checked (sys_call SigBlock) (\<lambda>_. []) ''sigprocmask failed'' (\<lambda>_.
    checked (sys_open SignalFd) (\<lambda>_. []) ''signalfd failed'' (\<lambda>sig.
    checked (sys_call (EpollAdd lobby sig)) (\<lambda>_. [srv, lobby, sig]) ''epoll control failed'' (\<lambda>_.
    checked (sys_call (EpollAdd lobby srv)) (\<lambda>_. [srv, lobby, sig]) ''epoll control failed'' (\<lambda>_.
    checked (sys_open EpollCreate) (\<lambda>_. [srv, lobby, sig]) ''epoll creation failed'' (\<lambda>room.
    checked (sys_call (EpollAdd room sig)) (\<lambda>_. [srv, room, lobby, sig]) ''epoll control failed'' (\<lambda>_.
    checked (sys_open EpollCreate) (\<lambda>r. [srv, r, room, lobby, sig]) ''epoll creation failed'' (\<lambda>bomb.
    checked (sys_call (EpollAdd bomb sig)) (\<lambda>_. [srv, bomb, room, lobby, sig]) ''epoll control failed'' (\<lambda>_ w.
      (Inr \<lparr>ended = False, rooms = [], room_heap = (\<lambda>_. None), roomConns = [],
        roomAssignments = [], lobbyConns = [], birs = (\<lambda>_. None), roomEpollSock = room,
        lobbyEpollSock = lobby, bombEpollSock = bomb, srvSock = srv, sigSock = sig\<rparr>, w))))))))))))))"

subsection \<open>Objects\<close>

definition get_room :: "nat \<Rightarrow> server \<Rightarrow> room res" where
  "get_room a sv = (case room_heap sv a of
     None \<Rightarrow> Inl (Undefined ''use of a destroyed room'') | Some r \<Rightarrow> Inr r)"

definition set_room :: "nat \<Rightarrow> room \<Rightarrow> server \<Rightarrow> server" where
  "set_room a r sv = sv\<lparr>room_heap := (room_heap sv)(a \<mapsto> r)\<rparr>"

definition get_pir :: "nat \<Rightarrow> server \<Rightarrow> PlayerInRoom res" where
  "get_pir a sv = (case find (\<lambda>(s, pl). pir_node pl = a) (roomAssignments sv) of
     None \<Rightarrow> Inl (Undefined ''use of an erased room assignment'') | Some (s, pl) \<Rightarrow> Inr pl)"

definition delete_conn :: "int \<Rightarrow> world \<Rightarrow> world" where
  "delete_conn p w = w\<lparr>conns := (conns w)(p := None)\<rparr>"

text \<open>\<open>roomConns.erase(sock)\<close> destroys the connection the map owns.\<close>

definition erase_roomConn :: "int \<Rightarrow> server \<times> world \<Rightarrow> server \<times> world" where
  "erase_roomConn s x = (case x of (sv, w) \<Rightarrow>
     (sv\<lparr>roomConns := AList.delete s (roomConns sv)\<rparr>,
      case map_of (roomConns sv) s of None \<Rightarrow> w | Some p \<Rightarrow> delete_conn p w))"

definition erase_assignment :: "int \<Rightarrow> server \<Rightarrow> server" where
  "erase_assignment s sv = sv\<lparr>roomAssignments := AList.delete s (roomAssignments sv)\<rparr>"

text \<open>Both entries of a socket.\<close>

definition erase_sock :: "int \<Rightarrow> server \<times> world \<Rightarrow> server \<times> world" where
  "erase_sock s x = (case erase_roomConn s x of (sv, w) \<Rightarrow> (erase_assignment s sv, w))"

definition erase_room :: "string \<Rightarrow> server \<Rightarrow> server" where
  "erase_room n sv = sv\<lparr>rooms := AList.delete n (rooms sv),
     room_heap := (case map_of (rooms sv) n of None \<Rightarrow> room_heap sv
       | Some a \<Rightarrow> (room_heap sv)(a := None))\<rparr>"

text \<open>\<open>rooms[name] = room\<close>; the room that was there is destroyed.\<close>

definition add_room :: "string \<Rightarrow> room \<Rightarrow> server \<times> world \<Rightarrow> nat \<times> server \<times> world" where
  "add_room n r x = (case x of (sv, w) \<Rightarrow>
     let a = next_addr w; sv1 = erase_room n sv in
     (a, sv1\<lparr>rooms := (n, a) # rooms sv1, room_heap := (room_heap sv1)(a \<mapsto> r)\<rparr>,
      w\<lparr>next_addr := Suc a\<rparr>))"

definition lobby_socks :: "server \<Rightarrow> world \<Rightarrow> int list res" where
  "lobby_socks sv w = iterE (\<lambda>p ss. andThen (conn_sock p w) (\<lambda>s. Inr (ss @ [s]))) (lobbyConns sv) []"

text \<open>The last index whose connection has the socket, as the loops over \<open>lobbyConns\<close> leave it in \<open>idx\<close>.\<close>

definition last_index :: "int \<Rightarrow> int list \<Rightarrow> nat option" where
  "last_index s ss = (case filter (\<lambda>i. ss ! i = s) [0..<length ss] of [] \<Rightarrow> None | is \<Rightarrow> Some (last is))"

definition first_index :: "int \<Rightarrow> int list \<Rightarrow> nat option" where
  "first_index s ss = (case filter (\<lambda>i. ss ! i = s) [0..<length ss] of [] \<Rightarrow> None | i # is \<Rightarrow> Some i)"

text \<open>\<open>lobbyConns.erase(lobbyConns.begin() + i)\<close> destroys the connection.\<close>

definition erase_lobbyConn :: "nat \<Rightarrow> server \<times> world \<Rightarrow> server \<times> world" where
  "erase_lobbyConn i x = (case x of (sv, w) \<Rightarrow>
     (sv\<lparr>lobbyConns := erase_at i (lobbyConns sv)\<rparr>, delete_conn (lobbyConns sv ! i) w))"

subsection \<open>Disconnecting\<close>

definition cleanupSock :: "int \<Rightarrow> server \<times> world \<Rightarrow> (server \<times> world) res" where
  "cleanupSock s x = (case x of (sv, w) \<Rightarrow>
     let w1 = syscall (EpollDel (lobbyEpollSock sv) s) w;
         w2 = syscall (EpollDel (roomEpollSock sv) s) w1;
         w3 = sys_close s (syscall (Shutdown s) w2) in
     andThen (lobby_socks sv w3) (\<lambda>ss.
     let (sv1, w4) = (case first_index s ss of
           None \<Rightarrow> (sv, w3) | Some i \<Rightarrow> erase_lobbyConn i (sv, w3)) in
     Inr (erase_sock s (sv1, w4))))"

text \<open>
  A planted bomb: a timer, watched by the bomb epoll with the address of a \<open>BombInRoom\<close> that is
  local to the block, whose lifetime ends with it.
\<close>

definition arm_bomb :: "nat \<Rightarrow> server \<times> world \<Rightarrow> (server \<times> world) res" where
  "arm_bomb room x = (case x of (sv, w) \<Rightarrow>
     andThen (CreateBombTimerfd w) (\<lambda>(fd, w1).
     let bir = next_addr w1; w2 = w1\<lparr>next_addr := Suc bir\<rparr>;
         sv1 = sv\<lparr>birs := (birs sv)(bir \<mapsto> \<lparr>bir_fd = fd, bir_room = room\<rparr>)\<rparr>;
         w3 = syscall (EpollAdd (bombEpollSock sv1) fd) w2 in
     Inr (sv1\<lparr>birs := (birs sv1)(bir := None)\<rparr>, w3)))"

definition handleRoomPostEvent :: "nat \<Rightarrow> server \<times> world \<Rightarrow> (server \<times> world) res" where
  "handleRoomPostEvent room x = (case x of (sv, w) \<Rightarrow>
     andThen (get_room room sv) (\<lambda>r.
     andThen (DisconnectPlayers r w) (\<lambda>((bombCount, playersToCleanup), r1, w1).
     andThen (iterE (\<lambda>_. arm_bomb room) [0..<bombCount] (set_room room r1 sv, w1)) (\<lambda>x1.
     Inr (foldl (\<lambda>x s. erase_sock s x) x1 playersToCleanup)))))"

subsection \<open>The lobby\<close>

text \<open>The event of the listening socket. An old lobby connection of the same descriptor goes first.\<close>

definition accept_client :: "server \<Rightarrow> world \<Rightarrow> (server \<times> world) res" where
  "accept_client sv w =
    (let (new_sock, w1) = sys_accept (srvSock sv) w in
     if new_sock = - 1 then Inr (sv, w1)
     else andThen (lobby_socks sv w1) (\<lambda>ss.
       let (sv2, w2) = (case last_index new_sock ss of
             None \<Rightarrow> (sv, w1) | Some i \<Rightarrow> erase_lobbyConn i (sv, w1));
           (sv3, w3) = (if map_of (roomConns sv2) new_sock \<noteq> None \<or>
               map_of (roomAssignments sv2) new_sock \<noteq> None
             then erase_sock new_sock (sv2, w2) else (sv2, w2)) in
       andThen (Connection_new new_sock w3) (\<lambda>(p, w4).
         Inr (sv3\<lparr>lobbyConns := lobbyConns sv3 @ [p]\<rparr>,
           syscall (EpollAdd (lobbyEpollSock sv3) new_sock) w4))))"

text \<open>A message to a connection in the lobby; the connection is closed when it cannot be sent.\<close>

definition send_or_close :: "sender \<Rightarrow> int \<Rightarrow> server \<times> world \<Rightarrow> (server \<times> world) res" where
  "send_or_close f c x = (case x of (sv, w) \<Rightarrow>
     andThen (f c w) (\<lambda>(sent, w1).
     if sent = None then andThen (conn_sock c w1) (\<lambda>s. cleanupSock s (sv, w1))
     else Inr (sv, w1)))"

text \<open>The loop over the rooms: the list to send and the names of the finished rooms.\<close>

definition list_room ::
  "server \<Rightarrow> string \<Rightarrow> (string \<times> int \<times> int) list \<times> string list \<Rightarrow>
    ((string \<times> int \<times> int) list \<times> string list) res" where
  "list_room sv name acc = (case acc of (room_list, finished) \<Rightarrow>
     andThen (get_room (the (map_of (rooms sv) name)) sv) (\<lambda>r.
     let finished' = (if IsGameOver r then finished @ [name] else finished);
         player_count = PlayerCount r in
     Inr (if player_count \<noteq> MAX_PLAYERS then room_list @ [(name, player_count, MAX_PLAYERS)]
       else room_list, finished')))"

definition send_room_list :: "int \<Rightarrow> server \<times> world \<Rightarrow> (server \<times> world) res" where
  "send_room_list c x = (case x of (sv, w) \<Rightarrow>
     andThen (iterE (list_room sv) (iteration w (map fst (rooms sv))) ([], []))
       (\<lambda>(room_list, finished).
     send_or_close (SendRoomList room_list) c (foldl (\<lambda>sv n. erase_room n sv) sv finished, w)))"

text \<open>
  The player joins: the connection moves from the lobby to the rooms. \<open>lobbyConns[-1]\<close>, when the
  connection is not in the lobby any more, is undefined.
\<close>

definition move_to_room :: "int \<Rightarrow> int \<Rightarrow> server \<times> world \<Rightarrow> (server \<times> world) res" where
  "move_to_room c s x = (case x of (sv, w) \<Rightarrow>
     andThen (lobby_socks sv w) (\<lambda>ss.
     case last_index s ss of
       None \<Rightarrow> Inl (Undefined ''lobbyConns[-1]'')
     | Some i \<Rightarrow>
         let p = lobbyConns sv ! i; (sv1, w1) = erase_roomConn s (sv, w) in
         Inr (sv1\<lparr>roomConns := (s, p) # roomConns sv1, lobbyConns := erase_at i (lobbyConns sv1)\<rparr>,
           w1)))"

definition assign_player :: "int \<Rightarrow> nat \<Rightarrow> nat \<Rightarrow> server \<times> world \<Rightarrow> server \<times> world" where
  "assign_player s player room x = (case x of (sv, w) \<Rightarrow>
     case map_of (roomAssignments sv) s of
       Some pl \<Rightarrow> (sv\<lparr>roomAssignments := AList.update s
           \<lparr>pir_node = pir_node pl, pir_player = player, pir_room = room\<rparr> (roomAssignments sv)\<rparr>, w)
     | None \<Rightarrow> (sv\<lparr>roomAssignments := (s, \<lparr>pir_node = next_addr w, pir_player = player,
           pir_room = room\<rparr>) # roomAssignments sv\<rparr>, w\<lparr>next_addr := Suc (next_addr w)\<rparr>))"

definition enter_room :: "int \<Rightarrow> string \<Rightarrow> nat \<Rightarrow> server \<times> world \<Rightarrow> (server \<times> world) res" where
  "enter_room c name room x = (case x of (sv, w) \<Rightarrow>
     andThen (conn_sock c w) (\<lambda>s.
     andThen (move_to_room c s (sv, syscall (EpollDel (lobbyEpollSock sv) s) w)) (\<lambda>(sv1, w1).
     andThen (get_room room sv1) (\<lambda>r.
     andThen (JoinPlayer c name r w1) (\<lambda>(player, r2, w2).
     let sv2 = set_room room r2 sv1 in
     case player of
       None \<Rightarrow>
         andThen (SendError ''Cannot join room'' c w2) (\<lambda>(_, w3).
           Inr (erase_roomConn s (sv2, drop_socket (lobbyEpollSock sv2) s w3)))
     | Some a \<Rightarrow>
         let (sv3, w3) = assign_player s a room (sv2, w2) in
         Inr (sv3, syscall (EpollAdd (roomEpollSock sv3) s) w3))))))"

definition join_room :: "string \<Rightarrow> string option \<Rightarrow> int \<Rightarrow> server \<times> world \<Rightarrow> (server \<times> world) res" where
  "join_room name roomname c x = (case x of (sv, w) \<Rightarrow>
     andThen (case roomname of
         None \<Rightarrow>
           let (new_room_name, w1) = RandomString 10 w in
           andThen (Room_new (roomEpollSock sv)) (\<lambda>r.
           let (a, sv1, w2) = add_room new_room_name r (sv, w1) in Inr (Some a, sv1, w2))
       | Some n \<Rightarrow> Inr (map_of (rooms sv) n, sv, w)) (\<lambda>(room, sv1, w1).
     case room of
       None \<Rightarrow> send_or_close (SendError ''There is no room with that name man'') c (sv1, w1)
     | Some a \<Rightarrow>
         andThen (get_room a sv1) (\<lambda>r.
         case CanJoin name r of
           Some reason \<Rightarrow>
             send_or_close (SendError (''Cannot join room, reason: '' @ reason)) c (sv1, w1)
         | None \<Rightarrow> enter_room c name a (sv1, w1))))"

definition handleLobbyMessage :: "int \<Rightarrow> GameMessage \<Rightarrow> server \<times> world \<Rightarrow> (server \<times> world) res" where
  "handleLobbyMessage c payload x = (case mtype payload of
     GET_ROOM_LIST \<Rightarrow> send_room_list c x
   | JOIN_ROOM \<Rightarrow> (case msg_joinroom payload of (name, roomname) \<Rightarrow> join_room name roomname c x)
   | _ \<Rightarrow> send_or_close (SendError ''Unexpected message'') c x)"

text \<open>
  The thread of the lobby between two of its steps: waiting for an event, about to handle a
  message, or back from handling one and about to look for more. Only the handling holds the
  lock, so the other threads may run in between.
\<close>

datatype lobby_pc = Polling | Handling int GameMessage | Draining int

datatype lobby_event = LobbySignal | LobbyNotIn | LobbyAccept | LobbyReady int

definition lobby_receive ::
  "lobby_pc \<Rightarrow> int \<Rightarrow> server \<times> world \<Rightarrow> (lobby_pc \<times> server \<times> world) res option" where
  "lobby_receive continue p x = (case x of (sv, w) \<Rightarrow>
     andThenO (Receive p w) (\<lambda>(m, w1). case m of
       None \<Rightarrow> Some (andThen (conn_sock p w1) (\<lambda>s. andThen (cleanupSock s (sv, w1)) (\<lambda>x1.
           Inr (continue, x1))))
     | Some payload \<Rightarrow> Some (Inr (Handling p payload, sv, w1))))"

definition lobby_poll ::
  "lobby_event \<Rightarrow> server \<times> world \<Rightarrow> (lobby_pc \<times> server \<times> world) res option" where
  "lobby_poll ev x = (case x of (sv, w) \<Rightarrow> case ev of
     LobbySignal \<Rightarrow> Some (Inr (Polling, sv\<lparr>ended := True\<rparr>, w))
   | LobbyNotIn \<Rightarrow> Some (Inr (Polling, sv, w))
   | LobbyAccept \<Rightarrow> Some (andThen (accept_client sv w) (\<lambda>x1. Inr (Polling, x1)))
   | LobbyReady p \<Rightarrow> lobby_receive Polling p x)"

definition lobby_work ::
  "lobby_pc \<Rightarrow> server \<times> world \<Rightarrow> (lobby_pc \<times> server \<times> world) res option" where
  "lobby_work pc x = (case pc of
     Polling \<Rightarrow> Some (Inr (Polling, x))
   | Handling p payload \<Rightarrow> Some (andThen (handleLobbyMessage p payload x) (\<lambda>x1. Inr (Draining p, x1)))
   | Draining p \<Rightarrow> (case x of (sv, w) \<Rightarrow> andThenO (Some (HasMoreMessages p w)) (\<lambda>b.
       if b then lobby_receive (Draining p) p x else Some (Inr (Polling, x)))))"

subsection \<open>The rooms\<close>

definition pir_player_of :: "PlayerInRoom \<Rightarrow> server \<Rightarrow> (room \<times> player) res" where
  "pir_player_of pl sv =
    andThen (get_room (pir_room pl) sv) (\<lambda>r. andThen (get_player (pir_player pl) r) (\<lambda>p. Inr (r, p)))"

datatype rooms_event = RoomsSignal | RoomsReady nat

text \<open>
  The loop that drains the connection of a player, whose assignment is at \<open>a\<close>. Every turn starts
  from the assignment again; a message handled here is not followed by the clean-up of the room.
\<close>

definition drained_message ::
  "PlayerInRoom \<Rightarrow> room \<Rightarrow> GameMessage option \<Rightarrow> server \<times> world \<Rightarrow> (server \<times> world) res" where
  "drained_message pl r m x = (case x of (sv, w) \<Rightarrow> case m of
     None \<Rightarrow> handleRoomPostEvent (pir_room pl) (set_room (pir_room pl) (upd_player (pir_player pl) mark r) sv, w)
   | Some payload \<Rightarrow>
       andThen (HandleMessage payload (pir_player pl) r w) (\<lambda>(place_bomb, r1, w1).
       let x1 = (set_room (pir_room pl) r1 sv, w1) in
       if place_bomb then arm_bomb (pir_room pl) x1 else Inr x1))"

partial_function (option) drain_player :: "nat \<Rightarrow> server \<times> world \<Rightarrow> (server \<times> world) res option" where
  "drain_player a x = (case x of (sv, w) \<Rightarrow>
     (case andThen (get_pir a sv) (\<lambda>pl. andThen (pir_player_of pl sv) (\<lambda>(r, p).
         if conn p = 0 then Inl (Undefined ''null connection'')
         else andThen (HasMoreMessages (conn p) w) (\<lambda>b. Inr (pl, r, p, b)))) of
       Inl e \<Rightarrow> Some (Inl e)
     | Inr (pl, r, p, b) \<Rightarrow>
         if \<not> b then Some (Inr x)
         else (case Receive (conn p) w of
           None \<Rightarrow> None
         | Some (Inl e) \<Rightarrow> Some (Inl e)
         | Some (Inr (m, w1)) \<Rightarrow> (case drained_message pl r m (sv, w1) of
             Inl e \<Rightarrow> Some (Inl e)
           | Inr y \<Rightarrow> drain_player a y))))"

declare drain_player.simps [code]

text \<open>
  The event of a player, whose assignment is at \<open>a\<close>. The guard of the drain loop tests for a null
  connection where it means one that is not.
\<close>

definition room_message :: "nat \<Rightarrow> server \<times> world \<Rightarrow> (server \<times> world) res option" where
  "room_message a x = (case x of (sv, w) \<Rightarrow>
     andThenO (Some (get_pir a sv)) (\<lambda>pl.
     andThenO (Some (pir_player_of pl sv)) (\<lambda>(r, p).
     if conn p = 0 \<or> markedForDisconnect p \<or> IsGameOver r then Some (Inr (sv, w))
     else andThenO (Receive (conn p) w) (\<lambda>(m, w1). case m of
       None \<Rightarrow> Some (handleRoomPostEvent (pir_room pl)
           (set_room (pir_room pl) (upd_player (pir_player pl) mark r) sv, w1))
     | Some payload \<Rightarrow>
         andThenO (Some (
           andThen (HandleMessage payload (pir_player pl) r w1) (\<lambda>(place_bomb, r2, w2).
           let x2 = (set_room (pir_room pl) r2 sv, w2) in
           andThen (if place_bomb then arm_bomb (pir_room pl) x2 else Inr x2) (\<lambda>x3.
           handleRoomPostEvent (pir_room pl) x3)))) (\<lambda>x4.
         andThenO (Some (get_pir a (fst x4))) (\<lambda>pl.
         andThenO (Some (pir_player_of pl (fst x4))) (\<lambda>(r, p).
         andThenO (if \<not> markedForDisconnect p \<and> conn p = 0 then drain_player a x4 else Some (Inr x4)) (\<lambda>x5.
         andThenO (Some (get_pir a (fst x5))) (\<lambda>pl.
         Some (handleRoomPostEvent (pir_room pl) x5))))))))))"

text \<open>The loop is only entered to fail.\<close>

lemma drain_player_null:
  assumes "get_pir a sv = Inr pl" "pir_player_of pl sv = Inr (r, p)" "conn p = 0"
  shows "drain_player a (sv, w) = Some (Inl (Undefined ''null connection''))"
  using assms by (subst drain_player.simps) simp

lemma room_message_undrained:
  "room_message a x = (case x of (sv, w) \<Rightarrow>
     andThenO (Some (get_pir a sv)) (\<lambda>pl.
     andThenO (Some (pir_player_of pl sv)) (\<lambda>(r, p).
     if conn p = 0 \<or> markedForDisconnect p \<or> IsGameOver r then Some (Inr (sv, w))
     else andThenO (Receive (conn p) w) (\<lambda>(m, w1).
     Some (case m of
       None \<Rightarrow> handleRoomPostEvent (pir_room pl)
           (set_room (pir_room pl) (upd_player (pir_player pl) mark r) sv, w1)
     | Some payload \<Rightarrow>
         andThen (HandleMessage payload (pir_player pl) r w1) (\<lambda>(place_bomb, r2, w2).
         let x2 = (set_room (pir_room pl) r2 sv, w2) in
         andThen (if place_bomb then arm_bomb (pir_room pl) x2 else Inr x2) (\<lambda>x3.
         andThen (handleRoomPostEvent (pir_room pl) x3) (\<lambda>x4.
         andThen (get_pir a (fst x4)) (\<lambda>pl.
         andThen (pir_player_of pl (fst x4)) (\<lambda>(r, p).
         if \<not> markedForDisconnect p \<and> conn p = 0 then Inl (Undefined ''null connection'')
         else handleRoomPostEvent (pir_room pl) x4))))))))))"
proof -
  have after: "andThenO (Some y) (\<lambda>x4.
      andThenO (Some (get_pir a (fst x4))) (\<lambda>pl.
      andThenO (Some (pir_player_of pl (fst x4))) (\<lambda>(r, p).
      andThenO (if \<not> markedForDisconnect p \<and> conn p = 0 then drain_player a x4 else Some (Inr x4)) (\<lambda>x5.
      andThenO (Some (get_pir a (fst x5))) (\<lambda>pl.
      Some (handleRoomPostEvent (pir_room pl) x5)))))) =
    Some (andThen y (\<lambda>x4.
      andThen (get_pir a (fst x4)) (\<lambda>pl.
      andThen (pir_player_of pl (fst x4)) (\<lambda>(r, p).
      if \<not> markedForDisconnect p \<and> conn p = 0 then Inl (Undefined ''null connection'')
      else handleRoomPostEvent (pir_room pl) x4))))" for y
  proof (cases y)
    case (Inr x4)
    show ?thesis
    proof (cases "get_pir a (fst x4)")
      case g: (Inr pl)
      show ?thesis
      proof (cases "pir_player_of pl (fst x4)")
        case (Inr rp)
        then show ?thesis using \<open>y = Inr x4\<close> g drain_player_null [OF g] by (cases rp; cases x4) auto
      qed (use Inr g in simp)
    qed (use Inr in simp)
  qed simp
  have assoc: "andThen (andThen u f) g = andThen u (\<lambda>z. andThen (f z) g)" for u :: "'u res" and f :: "'u \<Rightarrow> 'v res" and g :: "'v \<Rightarrow> 'w res"
    by (cases u) simp_all
  have pairs: "andThen (case z of (k, l, m) \<Rightarrow> f k l m) g = (case z of (k, l, m) \<Rightarrow> andThen (f k l m) g)"
    for z :: "'u \<times> 'v \<times> 'w" and f :: "'u \<Rightarrow> 'v \<Rightarrow> 'w \<Rightarrow> 's res" and g :: "'s \<Rightarrow> 't res"
    by (cases z) simp
  show ?thesis
    unfolding room_message_def after
    by (auto simp: assoc pairs Let_def split: prod.split option.split intro!: andThenO_cong)
qed

definition rooms_poll :: "rooms_event \<Rightarrow> server \<times> world \<Rightarrow> (server \<times> world) res option" where
  "rooms_poll ev x = (case ev of
     RoomsSignal \<Rightarrow> Some (Inr ((fst x)\<lparr>ended := True\<rparr>, snd x))
   | RoomsReady a \<Rightarrow> room_message a x)"

subsection \<open>The bombs\<close>

datatype bombs_event = BombsSignal | BombsReady nat

definition explode_in :: "BombInRoom \<Rightarrow> server \<times> world \<Rightarrow> (server \<times> world) res" where
  "explode_in bir x = (case x of (sv, w) \<Rightarrow>
     andThen (get_room (bir_room bir) sv) (\<lambda>r.
     andThen (NotifyExplosion r w) (\<lambda>(r1, w1).
     andThen (handleRoomPostEvent (bir_room bir) (set_room (bir_room bir) r1 sv, w1)) (\<lambda>(sv2, w2).
     Inr (sv2, sys_close (bir_fd bir) w2)))))"

text \<open>
  The event of the signal carries the descriptor \<open>sigSock\<close> where the others carry a pointer; the
  code dereferences it in \<open>close(bir->fd)\<close>.
\<close>

definition bombs_poll :: "bombs_event \<Rightarrow> server \<times> world \<Rightarrow> (server \<times> world) res" where
  "bombs_poll ev x = (case ev of
     BombsSignal \<Rightarrow> Inl (Undefined ''a descriptor used as a pointer'')
   | BombsReady a \<Rightarrow> (case birs (fst x) a of
       None \<Rightarrow> Inl (Undefined ''use of an object whose block has ended'')
     | Some bir \<Rightarrow> explode_in bir x))"

subsection \<open>The end\<close>

definition cleanup_player :: "player \<Rightarrow> world \<Rightarrow> world res" where
  "cleanup_player p w = andThen (conn_sock (conn p) w) (\<lambda>s.
     andThen (conn_sock (conn p) w) (\<lambda>s'. Inr (sys_close s' (syscall (Shutdown s) w))))"

definition Cleanup :: "server \<Rightarrow> world \<Rightarrow> world res" where
  "Cleanup sv w =
    (let w1 = close_all [bombEpollSock sv, lobbyEpollSock sv, roomEpollSock sv] w in
     andThen (iterE (\<lambda>name w. andThen (get_room (the (map_of (rooms sv) name)) sv) (\<lambda>r.
         iterE cleanup_player (players r) w)) (iteration w (map fst (rooms sv))) w1) (\<lambda>w2.
     Inr (sys_close (srvSock sv) w2)))"

end
