(* ===== verification/ServerFrame.thy ===== *)
theory ServerFrame
  imports Server RoomExplosion RoomLeave
begin

section \<open>What the operations leave to the server\<close>

text \<open>
  The operations of rooms and connections seen from the server: none of them creates, destroys or
  re-numbers a connection or frees an address (\<open>kept\<close>), and each either keeps the players of its
  room or removes those whose sockets it hands back.
\<close>

subsection \<open>Connections are kept\<close>

definition kept :: "world \<Rightarrow> world \<Rightarrow> bool" where
  "kept w w' \<longleftrightarrow> next_addr w \<le> next_addr w' \<and>
    (\<forall>k. rel_option (\<lambda>c c'. sock c' = sock c) (conns w k) (conns w' k))"

lemma kept_refl [simp, intro]: "kept w w"
  by (simp add: kept_def option.rel_refl)

lemma kept_trans: "kept u v \<Longrightarrow> kept v w \<Longrightarrow> kept u w"
proof -
  assume uv: "kept u v" and vw: "kept v w"
  have "rel_option (\<lambda>c c'. sock c' = sock c) (conns u k) (conns w k)" for k
  proof -
    have "rel_option (\<lambda>c c'. sock c' = sock c) (conns u k) (conns v k)"
        "rel_option (\<lambda>c c'. sock c' = sock c) (conns v k) (conns w k)"
      using uv vw by (auto simp: kept_def)
    then show ?thesis by (cases "conns u k"; cases "conns v k"; cases "conns w k") auto
  qed
  then show ?thesis using uv vw by (simp add: kept_def)
qed

lemma keptI: "conns w' = conns w \<Longrightarrow> next_addr w \<le> next_addr w' \<Longrightarrow> kept w w'"
  by (simp add: kept_def option.rel_refl)

text \<open>Whatever sends and closes, but does not receive, keeps the queues of the connections too.\<close>

definition quiet :: "world \<Rightarrow> world \<Rightarrow> bool" where
  "quiet w w' \<longleftrightarrow> (\<forall>k. rel_option same_conn (conns w k) (conns w' k))"

lemma quiet_trans: "quiet u v \<Longrightarrow> quiet v w \<Longrightarrow> quiet u w"
  unfolding quiet_def
proof
  fix k assume "\<forall>k. rel_option same_conn (conns u k) (conns v k)" "\<forall>k. rel_option same_conn (conns v k) (conns w k)"
  then have "rel_option same_conn (conns u k) (conns v k)" "rel_option same_conn (conns v k) (conns w k)" by blast+
  then show "rel_option same_conn (conns u k) (conns w k)"
    by (cases "conns u k"; cases "conns v k"; cases "conns w k") (auto simp: same_conn_def)
qed

lemma quiet_same [intro]: "conns w' = conns w \<Longrightarrow> quiet w w'"
  by (simp add: quiet_def option.rel_refl)

lemma quiet_io: "io_frame w w' \<Longrightarrow> quiet w w'"
  by (simp add: quiet_def io_frame_rel)

lemma quiet_dropped: "dropped ep ss w w' \<Longrightarrow> quiet w w'"
  by (simp add: quiet_def dropped_def)

lemma quiet_queue:
  assumes "quiet w w'" "conns w k = Some c"
  shows "\<exists>c'. conns w' k = Some c' \<and> inboundQueue c' = inboundQueue c"
proof -
  have "rel_option same_conn (conns w k) (conns w' k)" using assms(1) by (simp add: quiet_def)
  then show ?thesis using assms(2) by (cases "conns w' k") (auto simp: same_conn_def)
qed

lemma kept_quiet:
  assumes "quiet w w'" "next_addr w \<le> next_addr w'"
  shows "kept w w'"
proof -
  have "rel_option (\<lambda>c c'. sock c' = sock c) (conns w k) (conns w' k)" for k
  proof -
    have "rel_option same_conn (conns w k) (conns w' k)" using assms(1) by (simp add: quiet_def)
    then show ?thesis by (rule option.rel_mono_strong) (simp add: same_conn_def)
  qed
  then show ?thesis using assms(2) by (simp add: kept_def)
qed

lemma kept_io: "io_frame w w' \<Longrightarrow> kept w w'"
  by (simp add: kept_quiet quiet_io io_frame_fields)

lemma kept_dropped: "dropped ep ss w w' \<Longrightarrow> kept w w'"
  by (rule kept_quiet [OF quiet_dropped]) (auto simp: dropped_def)

lemma kept_sent: "sent (r, w) (r', w') \<Longrightarrow> kept w w'"
  by (rule kept_io) (simp add: sent_def)

lemma kept_rel: "kept w w' \<Longrightarrow> rel_option (\<lambda>c c'. sock c' = sock c) (conns w k) (conns w' k)"
  by (simp add: kept_def)

lemma kept_None: "kept w w' \<Longrightarrow> conns w' k = None \<longleftrightarrow> conns w k = None"
  using kept_rel [of w w' k] by (cases "conns w k"; cases "conns w' k") auto

lemma kept_sock_of: "kept w w' \<Longrightarrow> conns w k \<noteq> None \<Longrightarrow> sock_of k w' = sock_of k w"
  using kept_rel [of w w' k] by (cases "conns w k"; cases "conns w' k") (auto simp: sock_of_def)

lemma kept_next: "kept w w' \<Longrightarrow> next_addr w \<le> next_addr w'"
  by (simp add: kept_def)

lemma sys_read_kept: "sys_read fd n w = (k, d, w') \<Longrightarrow> conns w' = conns w \<and> next_addr w' = next_addr w"
  by (auto simp: sys_read_def Let_def split: if_splits list.splits read_event.splits)

lemma set_queue_kept: "kept w (set_queue p q w)"
  by (auto simp: kept_def set_queue_def option.rel_refl split: option.splits)

lemma Receive_kept:
  assumes "Receive p w = Some (Inr (m, w'))"
  shows "kept w w' \<and> conns w p \<noteq> None"
proof
  have read: "kept u v" if "sys_read fd n u = (k, d, v)" for fd n u k d v
    using sys_read_kept [OF that] by (simp add: keptI)
  show "kept w w'"
    by (rule Receive_rel [OF assms, where R = kept]) (blast intro: kept_trans set_queue_kept read)+
  show "conns w p \<noteq> None" using assms by (auto simp: Receive_def split: option.splits)
qed

subsection \<open>Who is in the room\<close>

definition same_person :: "player \<Rightarrow> player \<Rightarrow> bool" where
  "same_person p q \<longleftrightarrow> addr q = addr p \<and> conn q = conn p"

lemma marks_same_person: "marks p q \<Longrightarrow> same_person p q"
  by (simp add: same_person_def marks_fields)

lemma marks_same_persons: "list_all2 marks ps qs \<Longrightarrow> list_all2 same_person ps qs"
  by (erule list.rel_mono_strong) (simp add: marks_same_person)

lemma same_persons_refl: "list_all2 same_person ps ps"
  by (simp add: list_all2_refl same_person_def)

lemma JoinPlayer_roster:
  assumes "JoinPlayer c name r w = Inr (a, r', w')"
  shows "kept w w' \<and> (if a = None then r' = r \<and> rstate r \<noteq> WAIT_FOR_START else
    a = Some (next_addr w) \<and> rstate r = WAIT_FOR_START \<and> rstate r' \<noteq> GAME_OVER \<and> epollSock r' = epollSock r \<and>
    next_addr w < next_addr w' \<and> clientCount r' = clientCount r + 1 \<and>
    (\<exists>p. addr p = next_addr w \<and> conn p = c \<and> username p = name \<and> list_all2 marks (p # players r) (players r')))"
proof (cases "rstate r = WAIT_FOR_START")
  case False
  then show ?thesis using assms by (simp add: JoinPlayer_def)
next
  case True
  let ?col = "color_of_size (length (players r))"
  let ?L = "\<lambda>r1. map (\<lambda>p. (username p, color p)) (players r1)"
  from assms True obtain p w1 r2 w2 r3 w3 where j: "Player_new c name ?col w = Inr (p, w1)"
      "sendSpecific (addr p) (SendWelcomeToRoom (?L (r\<lparr>players := p # players r, clientCount := clientCount r + 1\<rparr>)))
        (r\<lparr>players := p # players r, clientCount := clientCount r + 1\<rparr>, w1) = Inr (r2, w2)"
      "sendExcept (addr p) (SendGameJoin (name, ?col)) (r2, w2) = Inr (r3, w3)"
      "(if 4 - clientCount r3 = 0
        then andThen (sendBroadcast SendGameStart (r3\<lparr>rstate := PLAY\<rparr>, w3)) (\<lambda>(r4, w4). Inr (Some (addr p), r4, w4))
        else Inr (Some (addr p), r3, w3)) = Inr (a, r', w')"
    by (auto simp: JoinPlayer_def Let_def)
  have p: "addr p = next_addr w" "conn p = c" "username p = name" "kept w w1" "next_addr w1 = Suc (next_addr w)"
    using j(1) by (auto simp: Player_new_def TimestampMillis_def Let_def intro!: keptI split: option.splits)
  note s2 = snd_welcome.sendSpecific_sent [OF j(2)] and s3 = snd_gamejoin.sendExcept_sent [OF j(3)]
  have s13: "sent (r\<lparr>players := p # players r, clientCount := clientCount r + 1\<rparr>, w1) (r3, w3)"
    using s2 s3 by (rule sent_trans)
  obtain st where st: "a = Some (addr p)" "sent (r3\<lparr>rstate := st\<rparr>, w3) (r', w')" "st \<noteq> GAME_OVER"
  proof (cases "clientCount r3 = 4")
    case True
    then show thesis using that [of PLAY] j(4) snd_gamestart.sendBroadcast_sent by auto
  next
    case False
    have "rstate r3 = WAIT_FOR_START" using sent_simps(2) [OF s13] True by simp
    then have "r3\<lparr>rstate := WAIT_FOR_START\<rparr> = r3" by simp
    then show thesis using that [of WAIT_FOR_START] j(4) False by auto
  qed
  have t: "sent (r\<lparr>players := p # players r, clientCount := clientCount r + 1, rstate := st\<rparr>, w1) (r', w')"
    using sent_trans [OF sent_rstate [OF s13, of st] st(2)] by simp
  have "list_all2 marks (p # players r) (players r')" using sent_simps(6) [OF t] by simp
  moreover have "next_addr w' = Suc (next_addr w)"
    using io_frame_fields(13) [OF sent_simps(12) [OF t]] p(5) by simp
  ultimately show ?thesis
    using p st True kept_trans [OF p(4) kept_sent [OF t]] sent_simps(2,3,5) [OF t] by auto
qed

lemma upd_same_person: "(\<And>p. find_player a r = Some p \<Longrightarrow> same_person p (f p)) \<Longrightarrow>
    distinct (map addr (players r)) \<Longrightarrow> list_all2 same_person (players r) (players (upd_player a f r))"
  by (auto simp: upd_player_def list_all2_conv_all_nth find_player_iff same_person_def)

lemma same_persons_trans:
  "list_all2 same_person ps qs \<Longrightarrow> list_all2 same_person qs rs \<Longrightarrow> list_all2 same_person ps rs"
  by (rule list_all2_trans) (auto simp: same_person_def)

lemma HandleMessage_roster:
  assumes h: "HandleMessage m a r w = Inr (b, r', w')" and inv: "room_inv r w"
  shows "kept w w' \<and> quiet w w' \<and> rstate r' = rstate r \<and> epollSock r' = epollSock r \<and>
    list_all2 same_person (players r) (players r')"
  using h
proof (cases rule: HandleMessage_cases)
  case marked
  then show ?thesis
    using kept_sent [OF marked(2)] quiet_io sent_simps [OF marked(2)] marks_same_persons by simp
next
  case (bomb p bx "by")
  have "kept w w'" using kept_trans [OF keptI kept_sent [OF bomb(8)]] by simp
  moreover have "quiet w w'"
    using quiet_trans [OF quiet_same quiet_io [OF sent_simps(12) [OF bomb(8)]], of w] by simp
  ultimately show ?thesis using sent_simps [OF bomb(8)] marks_same_persons by simp
next
  case (move p)
  then obtain x y q c p' w1 where m: "find_player a r = Some q" "MoveCheckSus x y q w = Inr (c, p', w1)"
      "sent (upd_player a (\<lambda>_. p') r, w1) (r', w')" by (auto simp: moved_def)
  have d: "distinct (map addr (players r))" using inv by (simp add: room_inv_def)
  have "list_all2 same_person (players r) (players (upd_player a (\<lambda>_. p') r))"
  proof (rule upd_same_person [OF _ d])
    fix p assume "find_player a r = Some p"
    then show "same_person p p'"
      using m(1) by (subst MoveCheckSus_frame [OF m(2)]) (simp add: same_person_def)
  qed
  then have "list_all2 same_person (players r) (players r')"
    using same_persons_trans marks_same_persons sent_simps(6) [OF m(3)] by blast
  moreover have w1: "kept w w1" "quiet w w1" using MoveCheckSus_world [OF m(2)] by (auto intro: keptI)
  ultimately show ?thesis
    using kept_trans [OF w1(1) kept_sent [OF m(3)]] quiet_trans [OF w1(2) quiet_io [OF sent_simps(12) [OF m(3)]]]
      sent_simps(2,5) [OF m(3)] by (simp add: upd_player_def)
qed

lemma burn_player_kept: "burn_player a ax ay t s = Inr s' \<Longrightarrow> kept (snd s) (snd s')"
proof (cases s)
  case (Pair r w)
  assume b: "burn_player a ax ay t s = Inr s'"
  have tick: "kept w (w\<lparr>tick := n\<rparr>)" for n by (simp add: keptI)
  have hit: "kept w (snd s')" if "sendBroadcast (SendGotHit u l n) (r1, w\<lparr>tick := k\<rparr>) = Inr s'" for u l n r1 k
    using snd_hit.sendBroadcast_sent [OF that] kept_trans [OF tick] kept_sent [of r1 _ "fst s'" "snd s'"]
    by (metis prod.collapse)
  show ?thesis
    using b Pair tick hit by (auto simp: burn_player_def TimestampMillis_def Let_def split: if_splits)
qed

lemma explode_player_kept: "explode_player fs a s = Inr s' \<Longrightarrow> kept (snd s) (snd s')"
  unfolding explode_player_def
  by (auto elim!: iterE_rel [where R = "\<lambda>s s'. kept (snd s) (snd s')"] intro: kept_trans burn_player_kept)

lemma announce_winner_kept: "announce_winner n (r, w) = Inr (r', w') \<Longrightarrow> kept w w'"
  using announce_winner_Inr kept_io by blast

lemma NotifyExplosion_kept:
  assumes "NotifyExplosion r w = Inr (r', w')"
  shows "kept w w'"
proof (cases "rstate r \<noteq> PLAY \<or> bombs r = []")
  case True
  then show ?thesis using assms by (simp add: NotifyExplosion_def)
next
  case False
  then obtain b bs where play: "rstate r = PLAY" "bombs r = b # bs" by (cases "bombs r") auto
  from assms this obtain fs m' r3 w3 r4 w4 where x:
      "iterE (explode_player fs) (map addr (players r))
        (r\<lparr>bombs := bs, rmap := m'\<rparr>, w\<lparr>gtick := gtick w + length fs\<rparr>) = Inr (r3, w3)"
      "(if alive r3 = [] \<and> rstate r3 = PLAY then
            (let (winner, w4) = uniform_int 0 (length (alive (r\<lparr>bombs := bs\<rparr>))) w3 in
             if winner < length (alive (r\<lparr>bombs := bs\<rparr>))
             then announce_winner (username (players r3 ! (alive (r\<lparr>bombs := bs\<rparr>) ! winner))) (r3, w4)
             else Inl (Undefined ''index past the end of a vector''))
          else Inr (r3, w3)) = Inr (r4, w4)"
      "(if length (alive r3) = 1 \<and> rstate r4 = PLAY
       then announce_winner (username (players r4 ! last (alive r3))) (r4, w4)
       else Inr (r4, w4)) = Inr (r', w')"
    by (auto simp: NotifyExplosion_def Let_def)
  have k3: "kept (w\<lparr>gtick := gtick w + length fs\<rparr>) w3"
    using iterE_rel [OF x(1), of "\<lambda>s s'. kept (snd s) (snd s')"] kept_trans explode_player_kept by auto
  have k: "kept w (w\<lparr>gtick := n\<rparr>)" "kept w (w\<lparr>rtick := n\<rparr>)" for w n by (simp_all add: keptI)
  have "kept w3 w4"
    using x(2) kept_trans [OF k(2) announce_winner_kept]
    by (auto simp: uniform_int_def Let_def split: if_splits)
  moreover have "kept w4 w'" using x(3) announce_winner_kept by (auto split: if_splits)
  ultimately show ?thesis using kept_trans [OF kept_trans [OF k(1) k3]] kept_trans by blast
qed

lemma NotifyExplosion_roster:
  assumes e: "NotifyExplosion r w = Inr (r', w')" and inv: "room_inv r w"
  shows "list_all2 same_person (players r) (players r') \<and> epollSock r' = epollSock r \<and>
    (rstate r' = GAME_OVER \<longrightarrow> r' = r \<or> (\<forall>p\<in>set (players r'). markedForDisconnect p))"
proof (cases "rstate r \<noteq> PLAY \<or> bombs r = []")
  case True
  then show ?thesis using e by (simp add: NotifyExplosion_def same_persons_refl)
next
  case False
  then obtain b bs where b: "rstate r = PLAY" "bombs r = b # bs" by (cases "bombs r") auto
  from NotifyExplosion_Inr [OF e b inv] obtain fs where
      fs: "list_all2 (scorched (map fire_at fs) (clk w)) (players r) (players r')" "epollSock r' = epollSock r"
      "if 2 \<le> alive_count (players r') then rstate r' = PLAY
       else rstate r' = GAME_OVER \<and> (\<forall>p\<in>set (players r'). markedForDisconnect p)" by blast
  have "list_all2 same_person (players r) (players r')"
    using fs(1) by (rule list.rel_mono_strong) (simp add: same_person_def scorched_fields)
  then show ?thesis using fs(2,3) by (auto split: if_splits)
qed

text \<open>The players a sweep removes are exactly those whose sockets it returns.\<close>

lemma DisconnectPlayers_roster:
  assumes d: "DisconnectPlayers r w = Inr ((n, socks), r', w')" and inv: "room_inv r w"
  obtains Q where "list_all2 same_person (filter (\<lambda>p. \<not> Q p) (players r)) (players r')"
    "set socks = (\<lambda>p. sock_of (conn p) w) ` {p \<in> set (players r). Q p}"
    "\<forall>p\<in>set (players r). markedForDisconnect p \<longrightarrow> Q p" "kept w w'" "quiet w w'"
    "rstate r' = GAME_OVER \<longrightarrow> players r' = [] \<or> rstate r = GAME_OVER" "rstate r' \<noteq> GAME_OVER \<longrightarrow> rstate r' = rstate r"
proof -
  obtain P bs where x: "\<forall>p\<in>set (players r). markedForDisconnect p \<longrightarrow> P p" "dropped (epollSock r) socks w w'"
      "if 2 \<le> length (filter (\<lambda>p. \<not> P p) (players r))
       then list_all2 marks (filter (\<lambda>p. \<not> P p) (players r)) (players r') \<and> rstate r' = rstate r \<and>
         socks = map (\<lambda>p. sock_of (conn p) w) (filter P (players r))
       else players r' = [] \<and> rstate r' = GAME_OVER \<and>
         socks = map (\<lambda>p. sock_of (conn p) w) (filter P (players r) @ filter (\<lambda>p. \<not> P p) (players r))"
    using DisconnectPlayers_Inr [OF assms] by blast
  have k: "kept w w'" "quiet w w'" using kept_dropped [OF x(2)] quiet_dropped [OF x(2)] .
  show thesis
  proof (cases "2 \<le> length (filter (\<lambda>p. \<not> P p) (players r))")
    case True
    show thesis by (rule that [of P]) (use True x k marks_same_persons in auto)
  next
    case False
    show thesis by (rule that [of "\<lambda>_. True"]) (use False x k in auto)
  qed
qed

end
