(* ===== verification/ServerFacts.thy ===== *)
theory ServerFacts
  imports ServerFrame
begin

section \<open>The server keeps its invariant\<close>

text \<open>
  The invariant of the server. Every connection that lives is either in the lobby or in the room
  connections, under its own socket, and no two have the same socket. Every room is well-formed,
  and one that is over is empty. The sockets with a room connection are those with an assignment,
  and an assignment leads to a living player of a living room whose connection is the one of the
  socket. While an operation runs, the rooms in \<open>A\<close> may be over with players still to be swept, and
  the sockets in \<open>S\<close> may have assignments still to be erased.
\<close>

definition conns_inv :: "server \<Rightarrow> world \<Rightarrow> bool" where
  "conns_inv sv w \<longleftrightarrow> distinct (lobbyConns sv) \<and>
    (\<forall>p. conns w p \<noteq> None \<longleftrightarrow> p \<in> set (lobbyConns sv) \<or> (\<exists>s. map_of (roomConns sv) s = Some p)) \<and>
    (\<forall>s p. map_of (roomConns sv) s = Some p \<longrightarrow> p \<notin> set (lobbyConns sv) \<and> sock_of p w = s) \<and>
    (\<forall>p q. conns w p \<noteq> None \<and> conns w q \<noteq> None \<and> sock_of p w = sock_of q w \<longrightarrow> p = q) \<and>
    (\<forall>p. conns w p \<noteq> None \<longrightarrow> 0 < p \<and> p < int (next_addr w)) \<and> 0 < next_addr w"

definition rooms_inv :: "nat set \<Rightarrow> server \<Rightarrow> world \<Rightarrow> bool" where
  "rooms_inv A sv w \<longleftrightarrow> distinct (map fst (rooms sv)) \<and> distinct (map snd (rooms sv)) \<and>
    (\<forall>a. room_heap sv a \<noteq> None \<longleftrightarrow> a \<in> snd ` set (rooms sv)) \<and>
    (\<forall>a r. room_heap sv a = Some r \<longrightarrow> a < next_addr w \<and> room_inv r w \<and>
      (rstate r = GAME_OVER \<longrightarrow> (\<forall>p\<in>set (players r). markedForDisconnect p \<and> a \<in> A)))"

definition assigned :: "server \<Rightarrow> int \<Rightarrow> PlayerInRoom \<Rightarrow> bool" where
  "assigned sv s pl \<longleftrightarrow> (\<exists>r p. room_heap sv (pir_room pl) = Some r \<and> find_player (pir_player pl) r = Some p \<and>
    map_of (roomConns sv) s = Some (conn p))"

definition assign_inv :: "int set \<Rightarrow> server \<Rightarrow> world \<Rightarrow> bool" where
  "assign_inv S sv w \<longleftrightarrow> distinct (map fst (roomAssignments sv)) \<and>
    distinct (map (\<lambda>x. pir_node (snd x)) (roomAssignments sv)) \<and>
    (\<forall>x\<in>set (roomAssignments sv). pir_node (snd x) < next_addr w) \<and>
    dom (map_of (roomAssignments sv)) = dom (map_of (roomConns sv)) \<and>
    (\<forall>s pl. map_of (roomAssignments sv) s = Some pl \<and> s \<notin> S \<longrightarrow> assigned sv s pl)"

definition server_inv :: "nat set \<Rightarrow> int set \<Rightarrow> server \<Rightarrow> world \<Rightarrow> bool" where
  "server_inv A S sv w \<longleftrightarrow> conns_inv sv w \<and> rooms_inv A sv w \<and> assign_inv S sv w \<and> birs sv = (\<lambda>_. None)"

lemma conns_invD:
  assumes "conns_inv sv w"
  shows "distinct (lobbyConns sv)" "0 < next_addr w"
    and "conns w p \<noteq> None \<longleftrightarrow> p \<in> set (lobbyConns sv) \<or> (\<exists>s. map_of (roomConns sv) s = Some p)"
    and "map_of (roomConns sv) s = Some p \<Longrightarrow> p \<notin> set (lobbyConns sv)"
    and "map_of (roomConns sv) s = Some p \<Longrightarrow> sock_of p w = s"
    and "map_of (roomConns sv) s = Some p \<Longrightarrow> conns w p \<noteq> None"
    and "p \<in> set (lobbyConns sv) \<Longrightarrow> conns w p \<noteq> None"
    and "conns w p \<noteq> None \<Longrightarrow> conns w q \<noteq> None \<Longrightarrow> sock_of p w = sock_of q w \<Longrightarrow> p = q"
    and "conns w p \<noteq> None \<Longrightarrow> 0 < p" and "conns w p \<noteq> None \<Longrightarrow> p < int (next_addr w)"
  using assms unfolding conns_inv_def by blast+

lemma conns_invI:
  assumes "distinct (lobbyConns sv)" "0 < next_addr w"
    and "\<And>p. conns w p \<noteq> None \<longleftrightarrow> p \<in> set (lobbyConns sv) \<or> (\<exists>s. map_of (roomConns sv) s = Some p)"
    and "\<And>s p. map_of (roomConns sv) s = Some p \<Longrightarrow> p \<notin> set (lobbyConns sv) \<and> sock_of p w = s"
    and "\<And>p q. conns w p \<noteq> None \<Longrightarrow> conns w q \<noteq> None \<Longrightarrow> sock_of p w = sock_of q w \<Longrightarrow> p = q"
    and "\<And>p. conns w p \<noteq> None \<Longrightarrow> 0 < p \<and> p < int (next_addr w)"
  shows "conns_inv sv w"
  unfolding conns_inv_def using assms by blast

lemma conns_inv_cong:
  assumes "conns_inv sv w" "lobbyConns sv' = lobbyConns sv" "map_of (roomConns sv') = map_of (roomConns sv)"
  shows "conns_inv sv' w"
  using assms(1) unfolding conns_inv_def assms(2,3) .

subsection \<open>Steps that leave the server alone\<close>

lemma conns_inv_kept:
  assumes inv: "conns_inv sv w" and k: "kept w w'"
  shows "conns_inv sv w'"
proof (rule conns_invI)
  note d = conns_invD [OF inv] and so = kept_sock_of [OF k] and live = kept_None [OF k] and nx = kept_next [OF k]
  show "distinct (lobbyConns sv)" by (rule d(1))
  show "0 < next_addr w'" using d(2) nx by simp
  show "conns w' p \<noteq> None \<longleftrightarrow> p \<in> set (lobbyConns sv) \<or> (\<exists>s. map_of (roomConns sv) s = Some p)" for p
    using d(3) live by simp
  show "p \<notin> set (lobbyConns sv) \<and> sock_of p w' = s" if "map_of (roomConns sv) s = Some p" for s p
    using d(4-6) [OF that] so [of p] by simp
  show "p = q" if "conns w' p \<noteq> None" "conns w' q \<noteq> None" "sock_of p w' = sock_of q w'" for p q
    using d(8) [of p q] that live so [of p] so [of q] by simp
  show "0 < p \<and> p < int (next_addr w')" if "conns w' p \<noteq> None" for p
    using d(9,10) [of p] that live [of p] nx by linarith
qed

lemma room_inv_later: "room_inv r w \<Longrightarrow> next_addr w \<le> next_addr w' \<Longrightarrow> room_inv r w'"
  by (auto simp: room_inv_def)

lemma rooms_inv_later: "rooms_inv A sv w \<Longrightarrow> next_addr w \<le> next_addr w' \<Longrightarrow> rooms_inv A sv w'"
  unfolding rooms_inv_def using room_inv_later [of _ w w'] order_less_le_trans by blast

lemma assign_inv_later: "assign_inv S sv w \<Longrightarrow> next_addr w \<le> next_addr w' \<Longrightarrow> assign_inv S sv w'"
  unfolding assign_inv_def using order_less_le_trans by blast

lemma server_inv_kept: "server_inv A S sv w \<Longrightarrow> kept w w' \<Longrightarrow> server_inv A S sv w'"
  unfolding server_inv_def using conns_inv_kept rooms_inv_later assign_inv_later kept_next by blast

lemma rooms_inv_mono: "rooms_inv A sv w \<Longrightarrow> A \<subseteq> B \<Longrightarrow> rooms_inv B sv w"
  unfolding rooms_inv_def by (auto 0 4)

lemma assign_inv_mono: "assign_inv S sv w \<Longrightarrow> S \<subseteq> T \<Longrightarrow> assign_inv T sv w"
  unfolding assign_inv_def by blast

lemma server_inv_mono: "server_inv A S sv w \<Longrightarrow> A \<subseteq> B \<Longrightarrow> S \<subseteq> T \<Longrightarrow> server_inv B T sv w"
  using rooms_inv_mono assign_inv_mono by (auto simp: server_inv_def)

lemma kept_sys [simp, intro]: "kept w (syscall c w)" "kept w (sys_close fd w)" "kept w (drop_socket e s w)"
  by (simp_all add: keptI syscall_def sys_close_def drop_socket_def)

subsection \<open>Erasing\<close>

lemma conns_inv_erase:
  assumes inv: "conns_inv sv w"
    and sv': "lobbyConns sv' = lobbyConns sv" "map_of (roomConns sv') = (map_of (roomConns sv))(s := None)"
    and w': "w' = (case map_of (roomConns sv) s of None \<Rightarrow> w | Some p \<Rightarrow> delete_conn p w)"
  shows "conns_inv sv' w'"
proof (cases "map_of (roomConns sv) s")
  case None
  then have "map_of (roomConns sv') = map_of (roomConns sv)" "w' = w" using sv'(2) w' by auto
  then show ?thesis using conns_inv_cong [OF inv sv'(1)] by simp
next
  case (Some p)
  note d = conns_invD [OF inv]
  have other: "q \<noteq> p" if "map_of (roomConns sv) t = Some q" "t \<noteq> s" for t q
    using d(5) [OF that(1)] d(5) [OF Some] that(2) by auto
  have c: "conns w' q = (if q = p then None else conns w q)" for q using w' Some by (simp add: delete_conn_def)
  have so: "sock_of q w' = sock_of q w" if "q \<noteq> p" for q using that by (simp add: sock_of_def c)
  have n: "next_addr w' = next_addr w" using w' Some by (simp add: delete_conn_def)
  have m: "map_of (roomConns sv') t = Some q \<longleftrightarrow> q \<noteq> p \<and> map_of (roomConns sv) t = Some q" for t q
    using other [of t q] Some by (cases "t = s") (auto simp: sv'(2))
  show ?thesis
  proof (rule conns_invI)
    show "distinct (lobbyConns sv')" "0 < next_addr w'" using d(1,2) sv'(1) n by simp_all
    show "conns w' q \<noteq> None \<longleftrightarrow> q \<in> set (lobbyConns sv') \<or> (\<exists>t. map_of (roomConns sv') t = Some q)" for q
      using d(3) [of q] d(4) [OF Some] by (auto simp: c m sv'(1))
    show "q \<notin> set (lobbyConns sv') \<and> sock_of q w' = t" if "map_of (roomConns sv') t = Some q" for t q
      using that d(4,5) [of t q] so [of q] by (simp add: m sv'(1))
    show "q = q'" if "conns w' q \<noteq> None" "conns w' q' \<noteq> None" "sock_of q w' = sock_of q' w'" for q q'
      using that d(8) [of q q'] so [of q] so [of q'] by (simp add: c split: if_splits)
    show "0 < q \<and> q < int (next_addr w')" if "conns w' q \<noteq> None" for q
      using that d(9,10) [of q] n by (simp add: c split: if_splits)
  qed
qed

lemma erase_assign_inv:
  assumes "assign_inv (insert s S) sv w"
    and "map_of (roomConns sv') = (map_of (roomConns sv))(s := None)" "room_heap sv' = room_heap sv"
      "roomAssignments sv' = AList.delete s (roomAssignments sv)" "next_addr w' = next_addr w"
  shows "assign_inv S sv' w'"
proof -
  have sub: "set (AList.delete s al) \<subseteq> set al" for al :: "(int \<times> PlayerInRoom) list"
    by (simp add: AList.delete_eq)
  have "distinct (map (\<lambda>x. pir_node (snd x)) (AList.delete s (roomAssignments sv)))"
    using assms(1) by (simp add: assign_inv_def AList.delete_eq distinct_map_filter)
  moreover have "assigned sv' t pl" if "map_of (roomAssignments sv') t = Some pl" "t \<notin> S" for t pl
  proof -
    have "t \<noteq> s" using that(1) by (auto simp: assms(4) AList.delete_conv')
    then have "assigned sv t pl" using that assms(1) by (simp add: assign_inv_def assms(4))
    then show ?thesis using assms(2,3) \<open>t \<noteq> s\<close> by (simp add: assigned_def)
  qed
  ultimately show ?thesis
    using assms sub [of "roomAssignments sv"]
    by (auto simp: assign_inv_def AList.distinct_delete AList.delete_conv')
qed

lemma erase_sock_inv:
  assumes "server_inv A (insert s S) sv w" "erase_sock s (sv, w) = (sv', w')"
  shows "server_inv A S sv' w'"
proof -
  have x: "sv' = sv\<lparr>roomConns := AList.delete s (roomConns sv),
      roomAssignments := AList.delete s (roomAssignments sv)\<rparr>"
    "w' = (case map_of (roomConns sv) s of None \<Rightarrow> w | Some p \<Rightarrow> delete_conn p w)"
    using assms(2) by (auto simp: erase_sock_def erase_roomConn_def erase_assignment_def)
  have n: "next_addr w' = next_addr w" by (simp add: x(2) delete_conn_def split: option.splits)
  have "conns_inv sv' w'"
    by (rule conns_inv_erase [where s = s, OF _ _ _ x(2)])
      (use assms(1) in \<open>simp_all add: server_inv_def x(1) AList.delete_conv'\<close>)
  moreover have "assign_inv S sv' w'"
    by (rule erase_assign_inv [where s = s, OF _ _ _ _ n])
      (use assms(1) in \<open>simp_all add: server_inv_def x(1) AList.delete_conv'\<close>)
  moreover have "rooms_inv A sv w'" using assms(1) rooms_inv_later [of A sv w w'] n by (simp add: server_inv_def)
  then have "rooms_inv A sv' w'" by (simp add: rooms_inv_def x(1))
  ultimately show ?thesis using assms(1) by (simp add: server_inv_def x(1))
qed

lemma delete_restrict: "map_of (AList.delete s al) |` (- S) = map_of al |` (- insert s S)"
  by (auto simp: AList.delete_conv' restrict_map_def fun_eq_iff)

lemma erase_socks_effect:
  assumes "foldl (\<lambda>x s. erase_sock s x) (sv, w) ss = (sv', w')"
  shows "map_of (roomAssignments sv') = (map_of (roomAssignments sv)) |` (- set ss) \<and>
    map_of (roomConns sv') = (map_of (roomConns sv)) |` (- set ss) \<and> rooms sv' = rooms sv \<and>
    room_heap sv' = room_heap sv \<and> lobbyConns sv' = lobbyConns sv \<and>
    (\<forall>k. conns w' k \<noteq> None \<longrightarrow> conns w' k = conns w k)"
  using assms
proof (induction ss arbitrary: sv w)
  case (Cons s ss)
  obtain sv1 w1 where e: "erase_sock s (sv, w) = (sv1, w1)" by fastforce
  have "sv1 = sv\<lparr>roomConns := AList.delete s (roomConns sv), roomAssignments := AList.delete s (roomAssignments sv)\<rparr>"
      "\<forall>k. conns w1 k \<noteq> None \<longrightarrow> conns w1 k = conns w k"
    using e by (auto simp: erase_sock_def erase_roomConn_def erase_assignment_def delete_conn_def
        split: option.splits if_splits)
  then show ?case using Cons.IH [of sv1 w1] Cons.prems e by (simp add: delete_restrict)
qed (simp add: restrict_map_def fun_eq_iff)

lemma erase_socks_inv:
  "server_inv A (set ss) sv w \<Longrightarrow> foldl (\<lambda>x s. erase_sock s x) (sv, w) ss = (sv', w') \<Longrightarrow>
    server_inv A {} sv' w'"
proof (induction ss arbitrary: sv w)
  case (Cons s ss)
  obtain sv1 w1 where e: "erase_sock s (sv, w) = (sv1, w1)" by fastforce
  have "server_inv A (set ss) sv1 w1" by (rule erase_sock_inv [OF _ e]) (use Cons.prems(1) in simp)
  then show ?case using Cons.IH Cons.prems(2) e by simp
qed simp

subsection \<open>Changing a room\<close>

lemma same_person_find:
  assumes "list_all2 same_person ps qs" "find (\<lambda>p. addr p = a) ps = Some p"
  shows "\<exists>q. find (\<lambda>p. addr p = a) qs = Some q \<and> conn q = conn p"
  using assms by (induction rule: list_all2_induct) (auto simp: same_person_def split: if_splits)

lemma set_room_inv:
  assumes inv: "server_inv A S sv w" and a: "room_heap sv a = Some r"
    and r': "room_inv r' w" "rstate r' = GAME_OVER \<longrightarrow> (\<forall>p\<in>set (players r'). markedForDisconnect p \<and> a \<in> B)"
    and sub: "A - {a} \<subseteq> B" "S \<subseteq> T"
    and stay: "\<And>s pl p. map_of (roomAssignments sv) s = Some pl \<Longrightarrow> s \<notin> T \<Longrightarrow>
      find_player (pir_player pl) r = Some p \<Longrightarrow> map_of (roomConns sv) s = Some (conn p) \<Longrightarrow>
      \<exists>p'. find_player (pir_player pl) r' = Some p' \<and> conn p' = conn p"
  shows "server_inv B T (set_room a r' sv) w"
proof -
  have rooms: "rooms_inv A sv w" and assign: "assign_inv S sv w" and conns: "conns_inv sv w"
    using inv by (simp_all add: server_inv_def)
  have "rooms_inv B (set_room a r' sv) w"
    unfolding rooms_inv_def
  proof (intro conjI allI impI)
    fix b q assume q: "room_heap (set_room a r' sv) b = Some q"
    show "b < next_addr w" "room_inv q w"
      using rooms a r'(1) q by (auto simp: rooms_inv_def set_room_def split: if_splits)
    show "\<forall>p\<in>set (players q). markedForDisconnect p \<and> b \<in> B" if "rstate q = GAME_OVER"
    proof (cases "b = a")
      case True
      then show ?thesis using q r'(2) that by (simp add: set_room_def)
    next
      case False
      then show ?thesis using rooms q that sub(1) by (auto simp: rooms_inv_def set_room_def)
    qed
  qed (use rooms a in \<open>auto simp: rooms_inv_def set_room_def\<close>)
  moreover have "assigned (set_room a r' sv) s pl"
    if s: "map_of (roomAssignments sv) s = Some pl" "s \<notin> T" for s pl
  proof -
    have "s \<notin> S" using s(2) sub(2) by blast
    then have "assigned sv s pl" using assign s(1) unfolding assign_inv_def by blast
    then obtain r0 p where p: "room_heap sv (pir_room pl) = Some r0" "find_player (pir_player pl) r0 = Some p"
        "map_of (roomConns sv) s = Some (conn p)" by (auto simp: assigned_def)
    show ?thesis
    proof (cases "pir_room pl = a")
      case True
      then obtain p' where "find_player (pir_player pl) r' = Some p'" "conn p' = conn p"
        using stay [OF s] p a by auto
      then show ?thesis using True p(3) by (simp add: assigned_def set_room_def)
    next
      case False
      then show ?thesis using p by (simp add: assigned_def set_room_def)
    qed
  qed
  then have "assign_inv T (set_room a r' sv) w"
    using assign by (simp add: assign_inv_def set_room_def)
  moreover have "conns_inv (set_room a r' sv) w"
    by (rule conns_inv_cong [OF conns]) (simp_all add: set_room_def)
  ultimately show ?thesis using inv by (simp add: server_inv_def set_room_def)
qed

lemma set_room_same_inv:
  assumes inv: "server_inv A S sv w" and a: "room_heap sv a = Some r" and k: "kept w w'"
    and r': "room_inv r' w'" "rstate r' = GAME_OVER \<longrightarrow> (\<forall>p\<in>set (players r'). markedForDisconnect p \<and> a \<in> B)"
    and sub: "A - {a} \<subseteq> B" and same: "list_all2 same_person (players r) (players r')"
  shows "server_inv B S (set_room a r' sv) w'"
  by (rule set_room_inv [OF server_inv_kept [OF inv k] a r' sub order.refl])
    (use same_person_find [OF same] in \<open>auto simp: find_player_def\<close>)

lemma server_inv_room: "server_inv A S sv w \<Longrightarrow> room_heap sv a = Some r \<Longrightarrow> room_inv r w"
  by (simp add: server_inv_def rooms_inv_def)

lemma get_room_Inr [simp]: "get_room a sv = Inr r \<longleftrightarrow> room_heap sv a = Some r"
  by (simp add: get_room_def split: option.splits)

subsection \<open>After an event\<close>

lemma sys_calls_same:
  "sys_call c w = (r, w1) \<Longrightarrow> conns w1 = conns w \<and> next_addr w1 = next_addr w"
  "sys_open c w = (r, w1) \<Longrightarrow> conns w1 = conns w \<and> next_addr w1 = next_addr w"
  by (auto simp: sys_call_def sys_open_def syscall_def Let_def)

lemma CreateBombTimerfd_same:
  assumes "CreateBombTimerfd w = Inr (fd, w')"
  shows "conns w' = conns w \<and> next_addr w' = next_addr w"
proof -
  from assms obtain f w1 r where "sys_open TimerCreate w = (f, w1)" "sys_call (TimerSet f 3) w1 = (r, w')"
    by (auto simp: CreateBombTimerfd_def Let_def split: prod.splits if_splits)
  then show ?thesis by (auto dest!: sys_calls_same)
qed

lemma arm_bomb_kept:
  assumes "arm_bomb room (sv, w) = Inr (sv', w')" "birs sv = (\<lambda>_. None)"
  shows "sv' = sv \<and> kept w w' \<and> conns w' = conns w"
proof -
  from assms(1) obtain fd w1 where c: "CreateBombTimerfd w = Inr (fd, w1)"
      "sv' = sv\<lparr>birs := ((birs sv)(next_addr w1 \<mapsto> \<lparr>bir_fd = fd, bir_room = room\<rparr>))(next_addr w1 := None)\<rparr>"
      "w' = syscall (EpollAdd (bombEpollSock sv) fd) (w1\<lparr>next_addr := Suc (next_addr w1)\<rparr>)"
    by (auto simp: arm_bomb_def Let_def)
  have "(\<lambda>_. None)(next_addr w1 := None) = (\<lambda>_. None)" by auto
  then have "sv' = sv" using assms(2) c(2) by simp
  moreover have "conns w' = conns w" "next_addr w \<le> next_addr w'"
    using CreateBombTimerfd_same [OF c(1)] c(3) by (auto simp: syscall_def)
  ultimately show ?thesis using keptI by blast
qed

lemma arm_bombs_kept:
  assumes "iterE (\<lambda>_. arm_bomb room) ns (sv, w) = Inr (sv', w')" "birs sv = (\<lambda>_. None)"
  shows "sv' = sv \<and> kept w w' \<and> conns w' = conns w"
proof -
  have "fst (sv', w') = sv \<and> kept w (snd (sv', w')) \<and> conns (snd (sv', w')) = conns w"
    by (rule iterE_inv [OF assms(1), where P = "\<lambda>x. fst x = sv \<and> kept w (snd x) \<and> conns (snd x) = conns w"])
      (use assms(2) arm_bomb_kept kept_trans in \<open>auto simp: split_paired_all\<close>)
  then show ?thesis by simp
qed

lemma handleRoomPostEvent_inv:
  assumes inv: "server_inv {a} {} sv w" and h: "handleRoomPostEvent a (sv, w) = Inr (sv', w')"
  shows "server_inv {} {} sv' w'"
proof -
  from h obtain r n socks r1 w1 sv2 w2 where h: "room_heap sv a = Some r"
      "DisconnectPlayers r w = Inr ((n, socks), r1, w1)"
      "iterE (\<lambda>_. arm_bomb a) [0..<n] (set_room a r1 sv, w1) = Inr (sv2, w2)"
      "foldl (\<lambda>x s. erase_sock s x) (sv2, w2) socks = (sv', w')"
    by (auto simp: handleRoomPostEvent_def)
  have r: "room_inv r w" by (rule server_inv_room [OF inv h(1)])
  obtain Q where q: "list_all2 same_person (filter (\<lambda>p. \<not> Q p) (players r)) (players r1)"
    "set socks = (\<lambda>p. sock_of (conn p) w) ` {p \<in> set (players r). Q p}"
    "\<forall>p\<in>set (players r). markedForDisconnect p \<longrightarrow> Q p" "kept w w1" "quiet w w1"
    "rstate r1 = GAME_OVER \<longrightarrow> players r1 = [] \<or> rstate r = GAME_OVER"
    by (rule DisconnectPlayers_roster [OF h(2) r])
  have conns: "conns_inv sv w" using inv by (simp add: server_inv_def)
  have over: "players r1 = []" if "rstate r1 = GAME_OVER"
  proof (rule ccontr)
    assume ne: "players r1 \<noteq> []"
    then have "rstate r = GAME_OVER" using q(6) that by blast
    then have "\<forall>p\<in>set (players r). markedForDisconnect p"
      using inv h(1) by (auto simp: server_inv_def rooms_inv_def)
    then have "filter (\<lambda>p. \<not> Q p) (players r) = []" using q(3) by simp
    then show False using q(1) ne by simp
  qed
  have "server_inv {} (set socks) (set_room a r1 sv) w1"
  proof (rule set_room_inv [OF server_inv_kept [OF inv q(4)] h(1) DisconnectPlayers_inv [OF h(2) r]])
    fix s pl p assume s: "s \<notin> set socks" "find_player (pir_player pl) r = Some p"
      "map_of (roomConns sv) s = Some (conn p)"
    have "p \<in> set (players r)" "addr p = pir_player pl" using find_player_Some [OF s(2)] by simp_all
    moreover have "\<not> Q p" using s(1,3) q(2) conns_invD(5) [OF conns s(3)] calculation(1) by auto
    moreover have "distinct (map addr (filter (\<lambda>p. \<not> Q p) (players r)))"
      using r by (simp add: room_inv_def distinct_map_filter)
    ultimately have "find (\<lambda>p. addr p = pir_player pl) (filter (\<lambda>p. \<not> Q p) (players r)) = Some p"
      using find_player_iff [of "r\<lparr>players := filter (\<lambda>p. \<not> Q p) (players r)\<rparr>" "pir_player pl" p]
      by (simp add: find_player_def)
    from same_person_find [OF q(1) this] show "\<exists>p'. find_player (pir_player pl) r1 = Some p' \<and> conn p' = conn p"
      by (simp add: find_player_def)
  qed (use over in auto)
  moreover have "birs (set_room a r1 sv) = (\<lambda>_. None)" using inv by (simp add: server_inv_def set_room_def)
  ultimately have "server_inv {} (set socks) sv2 w2"
    using arm_bombs_kept [OF h(3)] server_inv_kept by blast
  then show ?thesis by (rule erase_socks_inv [OF _ h(4)])
qed

text \<open>What the clean-up after an event does, in full.\<close>

lemma handleRoomPostEvent_Inr:
  assumes inv: "server_inv {a} {} sv w" and h: "handleRoomPostEvent a (sv, w) = Inr (sv', w')"
  obtains r n socks r1 w1 where "room_heap sv a = Some r" "DisconnectPlayers r w = Inr ((n, socks), r1, w1)"
    "rooms sv' = rooms sv" "room_heap sv' = (room_heap sv)(a \<mapsto> r1)" "lobbyConns sv' = lobbyConns sv"
    "map_of (roomAssignments sv') = (map_of (roomAssignments sv)) |` (- set socks)"
    "map_of (roomConns sv') = (map_of (roomConns sv)) |` (- set socks)"
    "\<And>k c. conns w' k = Some c \<Longrightarrow> \<exists>c0. conns w k = Some c0 \<and> inboundQueue c = inboundQueue c0"
    "\<And>p. p \<in> set (players r) \<Longrightarrow> markedForDisconnect p \<Longrightarrow> sock_of (conn p) w \<in> set socks"
proof -
  from h obtain r n socks r1 w1 sv2 w2 where h: "room_heap sv a = Some r"
      "DisconnectPlayers r w = Inr ((n, socks), r1, w1)"
      "iterE (\<lambda>_. arm_bomb a) [0..<n] (set_room a r1 sv, w1) = Inr (sv2, w2)"
      "foldl (\<lambda>x s. erase_sock s x) (sv2, w2) socks = (sv', w')"
    by (auto simp: handleRoomPostEvent_def)
  obtain Q where q: "set socks = (\<lambda>p. sock_of (conn p) w) ` {p \<in> set (players r). Q p}"
    "\<forall>p\<in>set (players r). markedForDisconnect p \<longrightarrow> Q p" "quiet w w1"
    by (rule DisconnectPlayers_roster [OF h(2) server_inv_room [OF inv h(1)]])
  have "birs (set_room a r1 sv) = (\<lambda>_. None)" using inv by (simp add: server_inv_def set_room_def)
  from arm_bombs_kept [OF h(3) this] have 2: "sv2 = set_room a r1 sv" "conns w2 = conns w1" by simp_all
  note e = erase_socks_effect [OF h(4)]
  have "\<exists>c0. conns w k = Some c0 \<and> inboundQueue c = inboundQueue c0" if "conns w' k = Some c" for k c
  proof -
    have "conns w1 k = Some c" using e that 2(2) by (metis option.distinct(1))
    moreover have "rel_option same_conn (conns w k) (conns w1 k)" using q(3) by (simp add: quiet_def)
    ultimately show ?thesis by (cases "conns w k") (auto simp: same_conn_def)
  qed
  then show thesis using that [OF h(1,2)] e 2(1) q(1,2) by (auto simp: set_room_def)
qed

end
