(* ===== verification/ServerLobby.thy ===== *)
theory ServerLobby
  imports ServerFacts
begin

section \<open>The lobby keeps the invariant\<close>

text \<open>What accepting, listing, joining and closing do to the server.\<close>

subsection \<open>Closing a socket\<close>

lemma iterE_collect:
  "(\<And>p. p \<in> set ps \<Longrightarrow> f p = Inr (g p)) \<Longrightarrow>
    iterE (\<lambda>p ss. andThen (f p) (\<lambda>s. Inr (ss @ [s]))) ps ss = Inr (ss @ map g ps)"
  by (induction ps arbitrary: ss) auto

lemma conn_sock_Inr: "conn_sock p w = Inr s \<longleftrightarrow> conns w p \<noteq> None \<and> s = sock_of p w"
  by (auto simp: conn_sock_def sock_of_def split: option.splits)

lemma lobby_socks_eq:
  assumes "conns_inv sv w"
  shows "lobby_socks sv w = Inr (map (\<lambda>p. sock_of p w) (lobbyConns sv))"
  using iterE_collect [of "lobbyConns sv" "\<lambda>p. conn_sock p w" "\<lambda>p. sock_of p w" "[]"]
    conns_invD(7) [OF assms]
  by (auto simp: lobby_socks_def conn_sock_Inr)

lemma first_index_Some: "first_index s ss = Some i \<Longrightarrow> i < length ss \<and> ss ! i = s"
  unfolding first_index_def
  by (cases "filter (\<lambda>i. ss ! i = s) [0..<length ss]")
    (auto dest!: arg_cong [where f = set])

lemma first_index_None: "first_index s ss = None \<Longrightarrow> s \<notin> set ss"
proof -
  let ?is = "filter (\<lambda>i. ss ! i = s) [0..<length ss]"
  assume "first_index s ss = None"
  then have "?is = []" by (auto simp: first_index_def split: list.splits)
  then show ?thesis by (auto simp: filter_empty_conv in_set_conv_nth)
qed

lemma last_index_Some: "last_index s ss = Some i \<Longrightarrow> i < length ss \<and> ss ! i = s"
proof -
  let ?is = "filter (\<lambda>i. ss ! i = s) [0..<length ss]"
  assume "last_index s ss = Some i"
  then have "?is \<noteq> []" "i = last ?is" by (auto simp: last_index_def split: list.splits)
  then have "i \<in> set ?is" using last_in_set [of ?is] by blast
  then show ?thesis by simp
qed

lemma last_index_None: "last_index s ss = None \<longleftrightarrow> s \<notin> set ss"
proof -
  let ?is = "filter (\<lambda>i. ss ! i = s) [0..<length ss]"
  have "last_index s ss = None \<longleftrightarrow> ?is = []" by (auto simp: last_index_def split: list.splits)
  also have "\<dots> \<longleftrightarrow> s \<notin> set ss" by (auto simp: filter_empty_conv in_set_conv_nth)
  finally show ?thesis .
qed

lemma last_index_distinct:
  assumes "distinct ss" "i < length ss"
  shows "last_index (ss ! i) ss = Some i"
  using assms last_index_Some [of "ss ! i" ss] last_index_None [of "ss ! i" ss]
  by (cases "last_index (ss ! i) ss") (auto simp: nth_eq_iff_index_eq)

lemma erase_at_remove:
  assumes "distinct xs" "i < length xs"
  shows "set (erase_at i xs) = set xs - {xs ! i} \<and> distinct (erase_at i xs)"
proof -
  have xs: "xs = take i xs @ xs ! i # drop (Suc i) xs" using assms(2) by (rule id_take_nth_drop)
  have "distinct (take i xs @ xs ! i # drop (Suc i) xs)" using assms(1) xs by simp
  then have "distinct (erase_at i xs)" "xs ! i \<notin> set (erase_at i xs)" by (auto simp: erase_at_def)
  moreover have "set xs = insert (xs ! i) (set (erase_at i xs))"
    by (subst xs) (simp add: erase_at_def)
  ultimately show ?thesis by auto
qed

lemma erase_lobbyConn_conns:
  assumes inv: "conns_inv sv w" and i: "i < length (lobbyConns sv)"
    and e: "erase_lobbyConn i (sv, w) = (sv', w')"
  shows "conns_inv sv' w'"
proof (rule conns_invI)
  note d = conns_invD [OF inv]
  let ?p = "lobbyConns sv ! i"
  have x: "sv' = sv\<lparr>lobbyConns := erase_at i (lobbyConns sv)\<rparr>" "w' = delete_conn ?p w"
    using e by (auto simp: erase_lobbyConn_def)
  have l: "set (lobbyConns sv') = set (lobbyConns sv) - {?p}" "distinct (lobbyConns sv')"
    using erase_at_remove [OF d(1) i] by (simp_all add: x(1))
  have p: "?p \<in> set (lobbyConns sv)" using i by simp
  have c: "conns w' q = (if q = ?p then None else conns w q)" for q by (simp add: x(2) delete_conn_def)
  have so: "sock_of q w' = sock_of q w" if "q \<noteq> ?p" for q using that by (simp add: sock_of_def c)
  have n: "next_addr w' = next_addr w" by (simp add: x(2) delete_conn_def)
  have r: "q \<noteq> ?p" if "map_of (roomConns sv) s = Some q" for s q using d(4) [OF that] p by auto
  show "distinct (lobbyConns sv')" "0 < next_addr w'" using l(2) d(2) n by simp_all
  show "conns w' q \<noteq> None \<longleftrightarrow> q \<in> set (lobbyConns sv') \<or> (\<exists>s. map_of (roomConns sv') s = Some q)" for q
    using d(3) [of q] r l(1) by (auto simp: c x(1))
  show "q \<notin> set (lobbyConns sv') \<and> sock_of q w' = s" if "map_of (roomConns sv') s = Some q" for s q
    using that d(4,5) [of s q] so [of q] r [of s q] l(1) by (simp add: x(1))
  show "q = q'" if "conns w' q \<noteq> None" "conns w' q' \<noteq> None" "sock_of q w' = sock_of q' w'" for q q'
    using that d(8) [of q q'] so [of q] so [of q'] by (simp add: c split: if_splits)
  show "0 < q \<and> q < int (next_addr w')" if "conns w' q \<noteq> None" for q
    using that d(9,10) [of q] n by (simp add: c split: if_splits)
qed

lemma erase_lobbyConn_inv:
  assumes inv: "server_inv A S sv w" and i: "i < length (lobbyConns sv)"
    and e: "erase_lobbyConn i (sv, w) = (sv', w')"
  shows "server_inv A S sv' w'"
proof -
  have x: "sv' = sv\<lparr>lobbyConns := erase_at i (lobbyConns sv)\<rparr>" "next_addr w' = next_addr w"
    using e by (auto simp: erase_lobbyConn_def delete_conn_def)
  have "conns_inv sv' w'" using erase_lobbyConn_conns [OF _ i e] inv by (simp add: server_inv_def)
  then show ?thesis
    using inv x rooms_inv_later [of A sv w w'] assign_inv_later [of S sv w w']
    by (simp add: server_inv_def rooms_inv_def assign_inv_def assigned_def)
qed

lemma cleanupSock_inv:
  assumes inv: "server_inv A S sv w" and c: "cleanupSock s (sv, w) = Inr (sv', w')"
  shows "server_inv A S sv' w'"
proof -
  let ?w3 = "sys_close s (syscall (Shutdown s) (syscall (EpollDel (roomEpollSock sv) s)
    (syscall (EpollDel (lobbyEpollSock sv) s) w)))"
  have w3: "server_inv A S sv ?w3"
    by (rule server_inv_kept [OF inv]) (intro kept_trans [OF _ kept_sys(1)] kept_trans [OF _ kept_sys(2)] kept_refl)
  then have ls: "lobby_socks sv ?w3 = Inr (map (\<lambda>p. sock_of p ?w3) (lobbyConns sv))"
    by (simp add: lobby_socks_eq server_inv_def)
  let ?e = "case first_index s (map (\<lambda>p. sock_of p ?w3) (lobbyConns sv)) of
        None \<Rightarrow> (sv, ?w3) | Some i \<Rightarrow> erase_lobbyConn i (sv, ?w3)"
  obtain sv1 w4 where e1: "?e = (sv1, w4)" by (rule prod.exhaust)
  moreover have "erase_sock s (sv1, w4) = (sv', w')"
    using c ls e1 by (simp add: cleanupSock_def Let_def)
  ultimately have e: "?e = (sv1, w4)" "erase_sock s (sv1, w4) = (sv', w')" by blast+
  have "server_inv A S sv1 w4"
  proof (cases "first_index s (map (\<lambda>p. sock_of p ?w3) (lobbyConns sv))")
    case None
    then have "sv1 = sv" "w4 = ?w3" using e(1) by auto
    then show ?thesis using w3 by simp
  next
    case (Some i)
    then have "i < length (lobbyConns sv)" using first_index_Some [OF Some] by simp
    then show ?thesis using erase_lobbyConn_inv [OF w3] e(1) Some by simp
  qed
  then show ?thesis using erase_sock_inv [OF _ e(2)] server_inv_mono by blast
qed

lemma send_or_close_inv:
  assumes f: "message_sender f" and inv: "server_inv A S sv w"
    and c: "send_or_close f c (sv, w) = Inr (sv', w')"
  shows "server_inv A S sv' w'"
proof -
  from c obtain b w1 where b: "f c w = Inr (b, w1)"
      "(if b = None then andThen (conn_sock c w1) (\<lambda>s. cleanupSock s (sv, w1)) else Inr (sv, w1)) = Inr (sv', w')"
    by (auto simp: send_or_close_def)
  have i: "server_inv A S sv w1"
    by (rule server_inv_kept [OF inv kept_io]) (rule message_sender.frame [OF f b(1)])
  show ?thesis
  proof (cases "b = None")
    case True
    then obtain s where "cleanupSock s (sv, w1) = Inr (sv', w')" using b(2) by auto
    then show ?thesis by (rule cleanupSock_inv [OF i])
  next
    case False
    then have "sv' = sv" "w' = w1" using b(2) by auto
    then show ?thesis using i by simp
  qed
qed

subsection \<open>Accepting\<close>

lemma sys_accept_kept: "sys_accept fd w = (s, w') \<Longrightarrow> kept w w'"
  by (auto simp: sys_accept_def sys_open_def sys_call_def syscall_def Let_def intro!: keptI)

definition sock_free :: "int \<Rightarrow> world \<Rightarrow> bool" where
  "sock_free s w \<longleftrightarrow> (\<forall>p. conns w p \<noteq> None \<longrightarrow> sock_of p w \<noteq> s)"

lemma sock_free_fewer:
  assumes "sock_free s w" "\<And>p. conns w' p \<noteq> None \<Longrightarrow> conns w' p = conns w p"
  shows "sock_free s w'"
proof -
  have "sock_of p w' \<noteq> s" if "conns w' p \<noteq> None" for p
    using assms(1) assms(2) [OF that] that by (simp add: sock_free_def sock_of_def)
  then show ?thesis by (simp add: sock_free_def)
qed

lemma erase_sock_conns: "erase_sock s (sv, w) = (sv', w') \<Longrightarrow> conns w' p \<noteq> None \<Longrightarrow> conns w' p = conns w p"
  by (auto simp: erase_sock_def erase_roomConn_def delete_conn_def split: option.splits if_splits)

lemma erase_sock_frees:
  assumes inv: "conns_inv sv w" and e: "erase_sock s (sv, w) = (sv', w')" and l: "\<forall>p\<in>set (lobbyConns sv). sock_of p w \<noteq> s"
  shows "sock_free s w'"
proof -
  have "sock_of p w' \<noteq> s" if "conns w' p \<noteq> None" for p
  proof
    assume s: "sock_of p w' = s"
    have c: "conns w' p = conns w p" using erase_sock_conns [OF e that] .
    then have so: "sock_of p w = s" "conns w p \<noteq> None" using s that by (simp_all add: sock_of_def)
    then obtain t where t: "map_of (roomConns sv) t = Some p" using conns_invD(3) [OF inv, of p] l by auto
    then have "t = s" using conns_invD(5) [OF inv t] so by simp
    then have "conns w' p = None" using e t by (auto simp: erase_sock_def erase_roomConn_def delete_conn_def)
    with that show False by simp
  qed
  then show ?thesis by (simp add: sock_free_def)
qed

lemma Connection_new_inv:
  assumes inv: "server_inv A S sv w" and free: "sock_free s w" and n: "Connection_new s w = Inr (p, w')"
  shows "server_inv A S (sv\<lparr>lobbyConns := lobbyConns sv @ [p]\<rparr>) w'"
proof -
  have conns: "conns_inv sv w" using inv by (simp add: server_inv_def)
  note d = conns_invD [OF conns]
  define c where "c = \<lparr>sock = s, msg = GameMessage_default, inboundQueue = []\<rparr>"
  have x: "p = int (next_addr w)" "sock c = s" "conns w' = (conns w)(p \<mapsto> c)" "next_addr w' = Suc (next_addr w)"
    using n by (auto simp: Connection_new_def Let_def syscall_def c_def split: if_splits)
  have fresh: "conns w p = None" using d(10) [of p] x(1) by (cases "conns w p") auto
  have new: "q \<noteq> p" if "conns w q \<noteq> None" for q using that fresh by auto
  have so: "sock_of q w' = (if q = p then s else sock_of q w)" for q
    using x(2,3) by (simp add: sock_of_def)
  let ?sv = "sv\<lparr>lobbyConns := lobbyConns sv @ [p]\<rparr>"
  have "conns_inv ?sv w'"
  proof (rule conns_invI)
    show "distinct (lobbyConns ?sv)" using d(1) new [OF d(7)] by auto
    show "0 < next_addr w'" by (simp add: x(4))
    show "conns w' q \<noteq> None \<longleftrightarrow> q \<in> set (lobbyConns ?sv) \<or> (\<exists>s. map_of (roomConns ?sv) s = Some q)" for q
      using d(3) [of q] by (auto simp: x(3))
    show "q \<notin> set (lobbyConns ?sv) \<and> sock_of q w' = t" if "map_of (roomConns ?sv) t = Some q" for t q
      using that d(4,5) [of t q] new [OF d(6)] so [of q] by auto
    show "q = q'" if "conns w' q \<noteq> None" "conns w' q' \<noteq> None" "sock_of q w' = sock_of q' w'" for q q'
      using that d(8) [of q q'] free by (auto simp: so x(3) sock_free_def split: if_splits)
    show "0 < q \<and> q < int (next_addr w')" if "conns w' q \<noteq> None" for q
      using that d(2) d(9,10) [of q] by (auto simp: x split: if_splits)
  qed
  then show ?thesis
    using inv x(4) rooms_inv_later [of A sv w w'] assign_inv_later [of S sv w w']
    by (simp add: server_inv_def rooms_inv_def assign_inv_def assigned_def)
qed

lemma accept_client_inv:
  assumes inv: "server_inv A S sv w" and a: "accept_client sv w = Inr (sv', w')"
  shows "server_inv A S sv' w'"
proof -
  obtain s w1 where s: "sys_accept (srvSock sv) w = (s, w1)" by fastforce
  have i1: "server_inv A S sv w1" using server_inv_kept [OF inv sys_accept_kept [OF s]] .
  then have conns1: "conns_inv sv w1" by (simp add: server_inv_def)
  show ?thesis
  proof (cases "s = - 1")
    case True
    then show ?thesis using a s i1 by (simp add: accept_client_def)
  next
    case False
    let ?ss = "map (\<lambda>p. sock_of p w1) (lobbyConns sv)"
    let ?e = "case last_index s ?ss of None \<Rightarrow> (sv, w1) | Some i \<Rightarrow> erase_lobbyConn i (sv, w1)"
    obtain sv2 w2 where e1: "?e = (sv2, w2)" by (rule prod.exhaust)
    let ?f = "if map_of (roomConns sv2) s \<noteq> None \<or> map_of (roomAssignments sv2) s \<noteq> None
      then erase_sock s (sv2, w2) else (sv2, w2)"
    obtain sv3 w3 where e2: "?f = (sv3, w3)" by (rule prod.exhaust)
    have "lobby_socks sv w1 = Inr ?ss" by (rule lobby_socks_eq [OF conns1])
    then obtain p w4 where n: "Connection_new s w3 = Inr (p, w4)"
        "sv' = sv3\<lparr>lobbyConns := lobbyConns sv3 @ [p]\<rparr>" "w' = syscall (EpollAdd (lobbyEpollSock sv3) s) w4"
      using a s False e1 e2 by (auto simp: accept_client_def)
    have i2: "server_inv A S sv2 w2 \<and> (sock_free s w2 \<or> (\<forall>p\<in>set (lobbyConns sv2). sock_of p w2 \<noteq> s))"
    proof (cases "last_index s ?ss")
      case None
      then have "s \<notin> set ?ss" unfolding last_index_None .
      then show ?thesis using e1 None i1 by auto
    next
      case (Some i)
      then have e: "erase_lobbyConn i (sv, w1) = (sv2, w2)" using e1 by simp
      have i: "i < length (lobbyConns sv)" "sock_of (lobbyConns sv ! i) w1 = s"
        using last_index_Some [OF Some] by auto
      have live: "conns w1 (lobbyConns sv ! i) \<noteq> None" using conns_invD(7) [OF conns1] i(1) by simp
      have "sock_of q w2 \<noteq> s" if "conns w2 q \<noteq> None" for q
      proof
        assume "sock_of q w2 = s"
        moreover have "conns w1 q = conns w2 q" "q \<noteq> lobbyConns sv ! i"
          using that e by (auto simp: erase_lobbyConn_def delete_conn_def split: if_splits)
        ultimately show False
          using that conns_invD(8) [OF conns1 _ live, of q] i(2) by (simp add: sock_of_def)
      qed
      then show ?thesis using erase_lobbyConn_inv [OF i1 i(1) e] by (simp add: sock_free_def)
    qed
    have i3: "server_inv A S sv3 w3 \<and> sock_free s w3"
    proof (cases "map_of (roomConns sv2) s \<noteq> None \<or> map_of (roomAssignments sv2) s \<noteq> None")
      case True
      then have e: "erase_sock s (sv2, w2) = (sv3, w3)" using e2 by simp
      have "server_inv A S sv3 w3"
        by (rule erase_sock_inv [OF _ e]) (use i2 server_inv_mono [of A S sv2 w2 A "insert s S"] in blast)
      moreover have "sock_free s w3"
        using i2 sock_free_fewer [OF _ erase_sock_conns [OF e]] erase_sock_frees [OF _ e]
        by (auto simp: server_inv_def)
      ultimately show ?thesis ..
    next
      case False
      then have "sv3 = sv2" "w3 = w2" using e2 by auto
      moreover have "sock_free s w2"
        using i2 conns_invD(3,5) [of sv2 w2] False by (fastforce simp: server_inv_def sock_free_def)
      ultimately show ?thesis using i2 by simp
    qed
    then have "server_inv A S sv' w4" using Connection_new_inv [of A S sv3 w3 s p w4] n(1,2) by simp
    then show ?thesis using server_inv_kept n(3) by simp
  qed
qed

subsection \<open>The list of rooms\<close>

definition room_of :: "server \<Rightarrow> string \<Rightarrow> room" where
  "room_of sv n = the (room_heap sv (the (map_of (rooms sv) n)))"

definition listed :: "server \<Rightarrow> string list \<Rightarrow> (string \<times> int \<times> int) list" where
  "listed sv ns = map (\<lambda>n. (n, PlayerCount (room_of sv n), 4)) (filter (\<lambda>n. PlayerCount (room_of sv n) \<noteq> 4) ns)"

lemma list_rooms_eq:
  assumes "rooms_inv A sv w" "set ns \<subseteq> fst ` set (rooms sv)"
  shows "iterE (list_room sv) ns (rl, fin) =
    Inr (rl @ listed sv ns, fin @ filter (\<lambda>n. IsGameOver (room_of sv n)) ns)"
  using assms(2)
proof (induction ns arbitrary: rl fin)
  case (Cons n ns)
  then obtain a where a: "(n, a) \<in> set (rooms sv)" by auto
  then have m: "map_of (rooms sv) n = Some a" using assms(1) by (simp add: rooms_inv_def)
  moreover obtain r where "room_heap sv a = Some r" using assms(1) a by (force simp: rooms_inv_def)
  ultimately have "list_room sv n (rl, fin) =
      Inr (rl @ listed sv [n], fin @ filter (\<lambda>n. IsGameOver (room_of sv n)) [n])"
    by (simp add: list_room_def get_room_def listed_def room_of_def)
  then show ?case using Cons by (simp add: listed_def)
qed (simp add: listed_def)

lemma iteration_perm: "mset (iteration w ks) = mset ks"
  by (simp add: iteration_def)

lemma iteration_set: "set (iteration w ks) = set ks"
  using iteration_perm by (rule mset_eq_setD)

lemma erase_room_inv:
  assumes inv: "server_inv {} S sv w" and over: "\<And>a r. map_of (rooms sv) n = Some a \<Longrightarrow> room_heap sv a = Some r \<Longrightarrow> rstate r = GAME_OVER"
  shows "server_inv {} S (erase_room n sv) w"
proof (cases "map_of (rooms sv) n")
  case None
  then have "n \<notin> fst ` set (rooms sv)" by (simp only: map_of_eq_None_iff not_False_eq_True)
  then have "erase_room n sv = sv" using None by (simp add: erase_room_def del: map_of_eq_None_iff)
  then show ?thesis using inv by simp
next
  case (Some a)
  have R: "rooms_inv {} sv w" and C: "conns_inv sv w" and G: "assign_inv S sv w"
    using inv by (simp_all add: server_inv_def)
  have mem: "(n, a) \<in> set (rooms sv)" using Some by (rule map_of_SomeD)
  then obtain r where r: "room_heap sv a = Some r" using R by (force simp: rooms_inv_def)
  have none: "players r = []" using over [OF Some r] R r by (cases "players r") (auto simp: rooms_inv_def)
  have e: "erase_room n sv = sv\<lparr>rooms := AList.delete n (rooms sv), room_heap := (room_heap sv)(a := None)\<rparr>"
    using Some by (simp add: erase_room_def)
  have d: "distinct (map fst (rooms sv))" "distinct (map snd (rooms sv))" using R by (simp_all add: rooms_inv_def)
  have dom: "b \<in> snd ` set (AList.delete n (rooms sv)) \<longleftrightarrow> b \<in> snd ` set (rooms sv) \<and> b \<noteq> a" for b
  proof -
    have "set (AList.delete n (rooms sv)) = set (rooms sv) - {(n, a)}"
    proof (rule set_eqI)
      fix x show "x \<in> set (AList.delete n (rooms sv)) \<longleftrightarrow> x \<in> set (rooms sv) - {(n, a)}"
        using eq_key_imp_eq_value [OF d(1) mem, of "snd x"] by (cases x) (auto simp: AList.delete_eq)
    qed
    moreover have "inj_on snd (set (rooms sv))" using d(2) by (simp add: distinct_map)
    from inj_on_image_set_diff [OF this, of "set (rooms sv)" "{(n, a)}"] mem
    have "snd ` (set (rooms sv) - {(n, a)}) = snd ` set (rooms sv) - {a}" by simp
    ultimately show ?thesis by simp
  qed
  have "rooms_inv {} (erase_room n sv) w"
    using R dom by (auto simp: rooms_inv_def e AList.distinct_delete AList.delete_eq distinct_map_filter)
  moreover have "assigned (erase_room n sv) s pl" if "assigned sv s pl" for s pl
    using that r none by (auto simp: assigned_def e find_player_def)
  then have "assign_inv S (erase_room n sv) w" using G by (simp add: assign_inv_def e)
  moreover have "conns_inv (erase_room n sv) w"
    by (rule conns_inv_cong [OF C]) (simp_all add: e)
  ultimately show ?thesis using inv by (simp add: server_inv_def e)
qed

lemma erase_room_find: "map_of (rooms (erase_room n sv)) m = Some a \<Longrightarrow> room_heap (erase_room n sv) a = Some r \<Longrightarrow>
    map_of (rooms sv) m = Some a \<and> room_heap sv a = Some r"
  by (auto simp: erase_room_def AList.delete_conv' split: option.splits if_splits)

lemma erase_rooms_inv:
  assumes "server_inv {} S sv w"
    and "\<And>n a r. n \<in> set ns \<Longrightarrow> map_of (rooms sv) n = Some a \<Longrightarrow> room_heap sv a = Some r \<Longrightarrow> rstate r = GAME_OVER"
  shows "server_inv {} S (foldl (\<lambda>sv n. erase_room n sv) sv ns) w"
  using assms
proof (induction ns arbitrary: sv)
  case (Cons n ns)
  have "server_inv {} S (erase_room n sv) w"
    by (rule erase_room_inv [OF Cons.prems(1)]) (use Cons.prems(2) [of n] in simp)
  then have "server_inv {} S (foldl (\<lambda>sv n. erase_room n sv) (erase_room n sv) ns) w"
  proof (rule Cons.IH)
    fix m a r assume m: "m \<in> set ns" "map_of (rooms (erase_room n sv)) m = Some a"
      "room_heap (erase_room n sv) a = Some r"
    show "rstate r = GAME_OVER"
      using Cons.prems(2) [of m a r] m(1) erase_room_find [OF m(2,3)] by simp
  qed
  then show ?case by simp
qed simp

definition finished_rooms :: "server \<Rightarrow> world \<Rightarrow> string list" where
  "finished_rooms sv w = filter (\<lambda>n. IsGameOver (room_of sv n)) (iteration w (map fst (rooms sv)))"

lemma send_room_list_eq:
  assumes "server_inv {} S sv w"
  shows "send_room_list c (sv, w) =
    send_or_close (SendRoomList (listed sv (iteration w (map fst (rooms sv))))) c
      (foldl (\<lambda>sv n. erase_room n sv) sv (finished_rooms sv w), w)"
  using list_rooms_eq [of "{}" sv w "iteration w (map fst (rooms sv))" "[]" "[]"] assms
  by (simp add: send_room_list_def finished_rooms_def iteration_set server_inv_def)

lemma send_room_list_inv:
  assumes inv: "server_inv {} S sv w" and s: "send_room_list c (sv, w) = Inr (sv', w')"
  shows "server_inv {} S sv' w'"
proof (rule send_or_close_inv [OF _ erase_rooms_inv [OF inv]])
  show "send_or_close (SendRoomList (listed sv (iteration w (map fst (rooms sv))))) c
      (foldl (\<lambda>sv n. erase_room n sv) sv (finished_rooms sv w), w) = Inr (sv', w')"
    using s by (simp add: send_room_list_eq [OF inv])
  show "rstate r = GAME_OVER"
    if "n \<in> set (finished_rooms sv w)" "map_of (rooms sv) n = Some a" "room_heap sv a = Some r" for n a r
    using that by (simp add: finished_rooms_def room_of_def IsGameOver_def)
qed (rule snd_roomlist.message_sender_axioms)

subsection \<open>Joining a room\<close>

lemma add_room_inv:
  assumes inv: "server_inv {} S sv w" and new: "map_of (rooms sv) n = None"
    and r: "room_inv r w" "rstate r \<noteq> GAME_OVER" and a: "add_room n r (sv, w) = (a, sv', w')"
  shows "server_inv {} S sv' w' \<and> room_heap sv' a = Some r \<and> lobbyConns sv' = lobbyConns sv \<and>
    roomConns sv' = roomConns sv \<and> conns w' = conns w \<and> kept w w' \<and> lobbyEpollSock sv' = lobbyEpollSock sv"
proof -
  have R: "rooms_inv {} sv w" and C: "conns_inv sv w" and G: "assign_inv S sv w"
    using inv by (simp_all add: server_inv_def)
  have notin: "n \<notin> fst ` set (rooms sv)" using new by (simp only: map_of_eq_None_iff not_False_eq_True)
  have e: "erase_room n sv = sv" using notin new by (simp add: erase_room_def del: map_of_eq_None_iff)
  have x: "a = next_addr w" "sv' = sv\<lparr>rooms := (n, a) # rooms sv, room_heap := (room_heap sv)(a \<mapsto> r)\<rparr>"
    "w' = w\<lparr>next_addr := Suc a\<rparr>"
    using a by (auto simp: add_room_def Let_def e)
  have k: "kept w w'" by (simp add: keptI x(1,3))
  have fresh: "room_heap sv (next_addr w) = None"
  proof (cases "room_heap sv (next_addr w)")
    case (Some q)
    then show ?thesis using R unfolding rooms_inv_def by blast
  qed
  then have notin2: "next_addr w \<notin> snd ` set (rooms sv)" using R unfolding rooms_inv_def by blast
  have R': "rooms_inv {} sv w'" using rooms_inv_later [OF R kept_next [OF k]] .
  have "rooms_inv {} sv' w'"
    unfolding rooms_inv_def
  proof (intro conjI allI impI)
    fix b q assume q: "room_heap sv' b = Some q"
    show "b < next_addr w'" "room_inv q w'"
      using q R' room_inv_later [OF r(1) kept_next [OF k]] by (auto simp: x rooms_inv_def split: if_splits)
    show "\<forall>p\<in>set (players q). markedForDisconnect p \<and> b \<in> {}" if "rstate q = GAME_OVER"
      using q R' r(2) that by (auto simp: x rooms_inv_def split: if_splits)
  next
    fix b
    show "room_heap sv' b \<noteq> None \<longleftrightarrow> b \<in> snd ` set (rooms sv')"
      using R by (auto simp: x rooms_inv_def)
  qed (use R notin notin2 in \<open>auto simp: x rooms_inv_def\<close>)
  moreover have "assigned sv' s pl" if as: "assigned sv s pl" for s pl
  proof -
    have "pir_room pl \<noteq> next_addr w" using as fresh by (auto simp: assigned_def)
    then show ?thesis using as by (simp add: assigned_def x(1,2))
  qed
  then have "assign_inv S sv' w'"
    using assign_inv_later [OF G kept_next [OF k]] by (simp add: assign_inv_def x(2))
  moreover have "conns_inv sv' w'"
    by (rule conns_inv_cong [OF conns_inv_kept [OF C k]]) (simp_all add: x(2))
  ultimately show ?thesis using inv k by (simp add: server_inv_def x)
qed

text \<open>The connection moves: it was in the lobby, and now is the room connection of its socket.\<close>

lemma move_to_room_Inr:
  assumes C: "conns_inv sv w" and m: "move_to_room c s (sv, w) = Inr (sv', w')"
    and s: "conns w c \<noteq> None" "s = sock_of c w"
  shows "c \<in> set (lobbyConns sv) \<and> map_of (roomConns sv) s = None \<and> w' = w \<and>
    (\<exists>ls. sv' = sv\<lparr>roomConns := (s, c) # roomConns sv, lobbyConns := ls\<rparr> \<and>
      set ls = set (lobbyConns sv) - {c} \<and> distinct ls)"
proof -
  note d = conns_invD [OF C]
  let ?ss = "map (\<lambda>p. sock_of p w) (lobbyConns sv)"
  obtain i where i: "last_index s ?ss = Some i"
    using m by (auto simp: move_to_room_def lobby_socks_eq [OF C] split: option.splits)
  have il: "i < length (lobbyConns sv)" "sock_of (lobbyConns sv ! i) w = s"
    using last_index_Some [OF i] by auto
  have p: "lobbyConns sv ! i = c" using d(8) [OF d(7) s(1)] il s(2) by simp
  have none: "map_of (roomConns sv) s = None"
  proof (rule ccontr)
    assume "map_of (roomConns sv) s \<noteq> None"
    then obtain q where q: "map_of (roomConns sv) s = Some q" by blast
    have "q = c" using d(8) [OF d(6) [OF q] s(1)] d(5) [OF q] s(2) by simp
    then show False using d(4) [OF q] p il(1) by auto
  qed
  then have notin: "s \<notin> fst ` set (roomConns sv)" by (simp only: map_of_eq_None_iff not_False_eq_True)
  have e: "erase_roomConn s (sv, w) = (sv, w)"
    using none notin by (simp add: erase_roomConn_def del: map_of_eq_None_iff)
  have "sv' = sv\<lparr>roomConns := (s, c) # roomConns sv, lobbyConns := erase_at i (lobbyConns sv)\<rparr> \<and> w' = w"
    using m by (simp add: move_to_room_def lobby_socks_eq [OF C] i p e Let_def)
  moreover have "c \<in> set (lobbyConns sv)" using p il(1) nth_mem by blast
  ultimately show ?thesis using none erase_at_remove [OF d(1) il(1)] unfolding p by blast
qed

lemma moved_conns_inv:
  assumes C: "conns_inv sv w" and s: "conns w c \<noteq> None" "s = sock_of c w"
    and c: "c \<in> set (lobbyConns sv)" "map_of (roomConns sv) s = None"
    and sv': "map_of (roomConns sv') = (map_of (roomConns sv))(s \<mapsto> c)"
      "set (lobbyConns sv') = set (lobbyConns sv) - {c}" "distinct (lobbyConns sv')"
  shows "conns_inv sv' w"
proof (rule conns_invI)
  note d = conns_invD [OF C]
  show "distinct (lobbyConns sv')" "0 < next_addr w" by (rule sv'(3)) (rule d(2))
  show "conns w p \<noteq> None \<longleftrightarrow> p \<in> set (lobbyConns sv') \<or> (\<exists>t. map_of (roomConns sv') t = Some p)" for p
  proof (cases "p = c")
    case True
    then show ?thesis using s(1) by (auto simp: sv'(1))
  next
    case False
    have "map_of (roomConns sv') t = Some p \<longleftrightarrow> map_of (roomConns sv) t = Some p" for t
      using False c(2) by (simp add: sv'(1))
    then show ?thesis using d(3) [of p] False by (simp add: sv'(2))
  qed
  show "p \<notin> set (lobbyConns sv') \<and> sock_of p w = t" if "map_of (roomConns sv') t = Some p" for t p
    using that d(4,5) [of t p] s(2) by (cases "t = s") (auto simp: sv'(1,2))
  show "p = q" if "conns w p \<noteq> None" "conns w q \<noteq> None" "sock_of p w = sock_of q w" for p q
    using d(8) that .
  show "0 < p \<and> p < int (next_addr w)" if "conns w p \<noteq> None" for p using d(9,10) [OF that] ..
qed

lemma room_changes:
  assumes R: "rooms_inv {} sv w" and a: "room_heap sv a = Some r" and k: "next_addr w \<le> next_addr w'"
    and r': "room_inv r' w'" "rstate r' = GAME_OVER \<longrightarrow> players r' = []"
    and sv': "rooms sv' = rooms sv" "room_heap sv' = (room_heap sv)(a \<mapsto> r')"
  shows "rooms_inv {} sv' w'"
  unfolding rooms_inv_def
proof (intro conjI allI impI)
  note R' = rooms_inv_later [OF R k]
  fix b q assume q: "room_heap sv' b = Some q"
  show "b < next_addr w'" "room_inv q w'"
    using q R' a r'(1) by (auto simp: sv'(2) rooms_inv_def split: if_splits)
  show "\<forall>p\<in>set (players q). markedForDisconnect p \<and> b \<in> {}" if "rstate q = GAME_OVER"
    using q R' r'(2) that by (auto simp: sv'(2) rooms_inv_def split: if_splits)
qed (use R a in \<open>auto simp: sv' rooms_inv_def\<close>)

text \<open>The entry of a player that has joined.\<close>

lemma assign_new_inv:
  assumes G: "assign_inv {} sv w" and a: "room_heap sv a = Some r" and none: "map_of (roomConns sv) s = None"
    and k: "next_addr w \<le> next_addr w1"
    and p: "addr p = n" "conn p = c" "list_all2 same_person (p # players r) (players r')"
    and old: "\<forall>q\<in>set (players r). addr q < n"
    and sv': "roomAssignments sv' = (s, \<lparr>pir_node = next_addr w1, pir_player = n, pir_room = a\<rparr>) # roomAssignments sv"
      "roomConns sv' = (s, c) # roomConns sv" "room_heap sv' = (room_heap sv)(a \<mapsto> r')"
    and k': "next_addr w1 < next_addr w'"
  shows "assign_inv {} sv' w'"
proof -
  have dom: "dom (map_of (roomAssignments sv)) = dom (map_of (roomConns sv))"
    and dist: "distinct (map fst (roomAssignments sv))" "distinct (map (\<lambda>x. pir_node (snd x)) (roomAssignments sv))"
    and lt: "\<forall>x\<in>set (roomAssignments sv). pir_node (snd x) < next_addr w"
    and as: "\<And>t pl. map_of (roomAssignments sv) t = Some pl \<Longrightarrow> assigned sv t pl"
    using G by (auto simp: assign_inv_def)
  have noas: "map_of (roomAssignments sv) s = None" using dom none by blast
  then have notin: "s \<notin> fst ` set (roomAssignments sv)" by (simp only: map_of_eq_None_iff not_False_eq_True)
  have fp: "\<exists>q. find_player b r' = Some q \<and> conn q = conn q0"
    if "find (\<lambda>p. addr p = b) (p # players r) = Some q0" for b q0
    using same_person_find [OF p(3) that] by (simp add: find_player_def)
  have "assigned sv' t pl" if t: "map_of (roomAssignments sv') t = Some pl" for t pl
  proof (cases "t = s")
    case True
    then have pl: "pl = \<lparr>pir_node = next_addr w1, pir_player = n, pir_room = a\<rparr>" using t by (simp add: sv'(1))
    then show ?thesis using fp [of n p] p(1,2) True by (auto simp: assigned_def sv'(2,3))
  next
    case False
    then have "assigned sv t pl" using t as by (simp add: sv'(1))
    then obtain r0 q where q: "room_heap sv (pir_room pl) = Some r0" "find_player (pir_player pl) r0 = Some q"
        "map_of (roomConns sv) t = Some (conn q)" by (auto simp: assigned_def)
    show ?thesis
    proof (cases "pir_room pl = a")
      case True
      then have "find (\<lambda>p. addr p = pir_player pl) (p # players r) = Some q"
        using q(1,2) a old find_player_Some [OF q(2)] p(1) by (auto simp: find_player_def)
      from fp [OF this] show ?thesis using True q(3) False by (auto simp: assigned_def sv'(2,3))
    next
      case other: False
      then show ?thesis using q False by (auto simp: assigned_def sv'(2,3))
    qed
  qed
  moreover have "distinct (map (\<lambda>x. pir_node (snd x)) (roomAssignments sv'))"
    using dist(2) lt k by (auto simp: sv'(1))
  moreover have "\<forall>x\<in>set (roomAssignments sv'). pir_node (snd x) < next_addr w'"
    using lt k k' by (auto simp: sv'(1))
  ultimately show ?thesis
    using dist(1) notin dom by (simp add: assign_inv_def sv'(1,2))
qed

lemma enter_room_Inr:
  assumes C: "conns_inv sv w" and e: "enter_room c name a (sv, w) = Inr (sv', w')"
  obtains ls r p r2 w1 w2 w3 where "conns w c \<noteq> None" "c \<in> set (lobbyConns sv)"
    "map_of (roomConns sv) (sock_of c w) = None" "set ls = set (lobbyConns sv) - {c}" "distinct ls"
    "room_heap sv a = Some r" "kept w w1" "next_addr w1 = next_addr w" "conns w1 = conns w"
    "JoinPlayer c name r w1 = Inr (p, r2, w2)" "kept w2 w3" "p = None \<or> w3 = w2"
    "case p of None \<Rightarrow> (sv', w') = erase_roomConn (sock_of c w) (set_room a r2 (sv\<lparr>roomConns := (sock_of c w, c) # roomConns sv,
        lobbyConns := ls\<rparr>), drop_socket (lobbyEpollSock sv) (sock_of c w) w3)
     | Some b \<Rightarrow> \<exists>sv3 w4. assign_player (sock_of c w) b a (set_room a r2 (sv\<lparr>roomConns := (sock_of c w, c) # roomConns sv,
        lobbyConns := ls\<rparr>), w3) = (sv3, w4) \<and> sv' = sv3 \<and> w' = syscall (EpollAdd (roomEpollSock sv3) (sock_of c w)) w4"
proof -
  let ?s = "sock_of c w" and ?w1 = "syscall (EpollDel (lobbyEpollSock sv) (sock_of c w)) w"
  from e obtain sv1 w1 r p r2 w2 where x: "conns w c \<noteq> None" "move_to_room c ?s (sv, ?w1) = Inr (sv1, w1)"
      "room_heap sv1 a = Some r" "JoinPlayer c name r w1 = Inr (p, r2, w2)"
      "(case p of None \<Rightarrow> andThen (SendError ''Cannot join room'' c w2) (\<lambda>(_, w3).
           Inr (erase_roomConn ?s (set_room a r2 sv1, drop_socket (lobbyEpollSock (set_room a r2 sv1)) ?s w3)))
        | Some b \<Rightarrow> let (sv3, w3) = assign_player ?s b a (set_room a r2 sv1, w2) in
           Inr (sv3, syscall (EpollAdd (roomEpollSock sv3) ?s) w3)) = Inr (sv', w')"
    by (auto simp: enter_room_def conn_sock_Inr Let_def)
  have C1: "conns_inv sv ?w1" by (rule conns_inv_kept [OF C kept_sys(1)])
  have s1: "conns ?w1 = conns w" "sock_of c ?w1 = ?s" by (simp_all add: syscall_def sock_of_def)
  have "conns ?w1 c \<noteq> None" "?s = sock_of c ?w1" using x(1) s1 by simp_all
  from move_to_room_Inr [OF C1 x(2) this] obtain ls where m: "c \<in> set (lobbyConns sv)"
      "map_of (roomConns sv) ?s = None" "w1 = ?w1" "sv1 = sv\<lparr>roomConns := (?s, c) # roomConns sv, lobbyConns := ls\<rparr>"
      "set ls = set (lobbyConns sv) - {c}" "distinct ls" by blast
  have w1: "kept w w1" "next_addr w1 = next_addr w" "conns w1 = conns w"
    by (simp_all add: m(3)) (simp_all add: syscall_def)
  have r: "room_heap sv a = Some r" using x(3) by (simp add: m(4))
  show thesis
  proof (cases p)
    case None
    then obtain v w3 where w3: "SendError ''Cannot join room'' c w2 = Inr (v, w3)"
        "(sv', w') = erase_roomConn ?s (set_room a r2 sv1, drop_socket (lobbyEpollSock sv) ?s w3)"
      using x(5) by (auto simp: set_room_def m(4))
    show thesis
      by (rule that [OF x(1) m(1,2,5,6) r w1 x(4) kept_io [OF snd_error.frame [OF w3(1)]]])
        (use None w3(2) in \<open>simp_all add: m(4)\<close>)
  next
    case (Some b)
    obtain sv3 w4 where "assign_player ?s b a (set_room a r2 sv1, w2) = (sv3, w4)" by fastforce
    then show thesis
      by (intro that [OF x(1) m(1,2,5,6) r w1 x(4) kept_refl]) (use Some x(5) in \<open>auto simp: m(4)\<close>)
  qed
qed

lemma enter_room_inv:
  assumes inv: "server_inv {} {} sv w" and e: "enter_room c name a (sv, w) = Inr (sv', w')"
    and can: "\<And>r. room_heap sv a = Some r \<Longrightarrow> CanJoin name r = None"
  shows "server_inv {} {} sv' w'"
proof -
  have R: "rooms_inv {} sv w" and C: "conns_inv sv w" and G: "assign_inv {} sv w" and B: "birs sv = (\<lambda>_. None)"
    using inv by (simp_all add: server_inv_def)
  obtain ls r p r2 w1 w2 w3 where x: "conns w c \<noteq> None" "c \<in> set (lobbyConns sv)"
    "map_of (roomConns sv) (sock_of c w) = None" "set ls = set (lobbyConns sv) - {c}" "distinct ls"
    "room_heap sv a = Some r" "kept w w1" "next_addr w1 = next_addr w" "conns w1 = conns w"
    "JoinPlayer c name r w1 = Inr (p, r2, w2)" "kept w2 w3" "p = None \<or> w3 = w2"
    "case p of None \<Rightarrow> (sv', w') = erase_roomConn (sock_of c w) (set_room a r2 (sv\<lparr>roomConns := (sock_of c w, c) # roomConns sv,
        lobbyConns := ls\<rparr>), drop_socket (lobbyEpollSock sv) (sock_of c w) w3)
     | Some b \<Rightarrow> \<exists>sv3 w4. assign_player (sock_of c w) b a (set_room a r2 (sv\<lparr>roomConns := (sock_of c w, c) # roomConns sv,
        lobbyConns := ls\<rparr>), w3) = (sv3, w4) \<and> sv' = sv3 \<and> w' = syscall (EpollAdd (roomEpollSock sv3) (sock_of c w)) w4"
    by (rule enter_room_Inr [OF C e])
  let ?s = "sock_of c w"
  let ?sv2 = "set_room a r2 (sv\<lparr>roomConns := (?s, c) # roomConns sv, lobbyConns := ls\<rparr>)"
  note j = JoinPlayer_roster [OF x(10)]
  have ri: "room_inv r w" using R x(6) by (simp add: rooms_inv_def)
  then have ri2: "room_inv r2 w2" by (intro JoinPlayer_inv [OF x(10)] can [OF x(6)]) (use x(8) room_inv_later in auto)
  have k13: "kept w w3" using j kept_trans [OF x(7) kept_trans [OF _ x(11)]] by blast
  have over: "rstate r2 = GAME_OVER \<longrightarrow> players r2 = []"
    using j R x(6) by (cases p) (auto simp: rooms_inv_def)
  have C2: "conns_inv ?sv2 w"
    by (rule moved_conns_inv [OF C x(1) refl x(2,3)]) (use x(4,5) in \<open>simp_all add: set_room_def\<close>)
  have none: "?s \<notin> fst ` set (roomConns sv)" using x(3) by (simp only: map_of_eq_None_iff not_False_eq_True)
  show ?thesis
  proof (cases p)
    case None
    then have e: "(sv', w') = erase_roomConn ?s (?sv2, drop_socket (lobbyEpollSock sv) ?s w3)" using x(13) by simp
    have "r2 = r" using j None by simp
    then have heap: "room_heap ?sv2 = room_heap sv" using x(6) by (auto simp: set_room_def)
    have k: "kept w (drop_socket (lobbyEpollSock sv) ?s w3)" using kept_trans [OF k13 kept_sys(3)] .
    have sv': "sv' = ?sv2\<lparr>roomConns := roomConns sv\<rparr>" "next_addr w' = next_addr (drop_socket (lobbyEpollSock sv) ?s w3)"
      using e none by (auto simp: erase_roomConn_def set_room_def delete_conn_def)
    have "conns_inv sv' w'"
      by (rule conns_inv_erase [where s = ?s, OF conns_inv_kept [OF C2 k]])
        (use e x(3) none in \<open>auto simp: sv' erase_roomConn_def set_room_def\<close>)
    moreover have n: "next_addr w \<le> next_addr w'" using kept_next [OF k] sv'(2) by simp
    moreover have "rooms_inv {} sv' w'"
      using rooms_inv_later [OF R n] heap by (simp add: rooms_inv_def sv'(1) set_room_def)
    moreover have "assign_inv {} sv' w'"
      using assign_inv_later [OF G n] heap by (simp add: assign_inv_def assigned_def sv'(1) set_room_def)
    ultimately show ?thesis using B by (simp add: server_inv_def sv'(1) set_room_def)
  next
    case (Some b)
    then have w3: "w3 = w2" using x(12) by simp
    have dom: "dom (map_of (roomAssignments sv)) = dom (map_of (roomConns sv))" using G by (simp add: assign_inv_def)
    have "?s \<notin> dom (map_of (roomConns sv))" using x(3) unfolding domIff by blast
    then have noas: "map_of (roomAssignments sv) ?s = None" by (simp only: dom [symmetric] domIff not_not)
    obtain q where q: "b = next_addr w" "addr q = next_addr w" "conn q = c" "next_addr w < next_addr w2"
        "list_all2 same_person (q # players r) (players r2)"
      using j Some x(8) marks_same_persons by auto
    have e: "sv' = ?sv2\<lparr>roomAssignments := (?s, \<lparr>pir_node = next_addr w2, pir_player = b, pir_room = a\<rparr>) # roomAssignments sv\<rparr>"
      "w' = syscall (EpollAdd (roomEpollSock sv) ?s) (w2\<lparr>next_addr := Suc (next_addr w2)\<rparr>)"
      using x(13) Some noas w3 by (auto simp: assign_player_def set_room_def)
    have k2: "kept w2 w'" by (simp add: e(2) syscall_def keptI)
    then have k: "kept w w'" using kept_trans k13 w3 by blast
    have "conns_inv sv' w'"
      by (rule conns_inv_cong [OF conns_inv_kept [OF C2 k]]) (simp_all add: e(1))
    moreover have "rooms_inv {} sv' w'"
      by (rule room_changes [OF R x(6) kept_next [OF k] room_inv_later [OF ri2 kept_next [OF k2]] over])
        (simp_all add: e(1) set_room_def)
    moreover have "assign_inv {} sv' w'"
      by (rule assign_new_inv [OF G x(6,3) _ q(2,3,5), where ?w1.0 = w2])
        (use ri q(1,4) in \<open>simp_all add: e set_room_def room_inv_def syscall_def\<close>)
    ultimately show ?thesis using B by (simp add: server_inv_def e(1) set_room_def)
  qed
qed

text \<open>A message that creates a room draws a name nobody uses.\<close>

definition fresh_name :: "GameMessage \<Rightarrow> server \<times> world \<Rightarrow> bool" where
  "fresh_name m x \<longleftrightarrow> (mtype m = JOIN_ROOM \<and> snd (msg_joinroom m) = None \<longrightarrow>
    map_of (rooms (fst x)) (fst (RandomString 10 (snd x))) = None)"

lemma RandomString_kept: "RandomString n w = (s, w') \<Longrightarrow> kept w w'"
proof -
  have "RandomString_loop n acc w = (s, w') \<Longrightarrow> kept w w'" for acc
  proof (induction n arbitrary: acc w)
    case (Suc n)
    have "kept w (w\<lparr>rtick := Suc (rtick w)\<rparr>)" by (simp add: keptI)
    then show ?case using Suc by (auto simp: uniform_int_def Let_def intro: kept_trans)
  qed simp
  then show "RandomString n w = (s, w') \<Longrightarrow> kept w w'" by (simp add: RandomString_def)
qed

lemma join_room_inv:
  assumes inv: "server_inv {} {} sv w" and j: "join_room name roomname c (sv, w) = Inr (sv', w')"
    and fresh: "roomname = None \<Longrightarrow> map_of (rooms sv) (fst (RandomString 10 w)) = None"
  shows "server_inv {} {} sv' w'"
proof -
  from j obtain room sv1 w1 where x: "(case roomname of
         None \<Rightarrow>
           let (new_room_name, w1) = RandomString 10 w in
           andThen (Room_new (roomEpollSock sv)) (\<lambda>r.
           let (a, sv1, w2) = add_room new_room_name r (sv, w1) in Inr (Some a, sv1, w2))
       | Some n \<Rightarrow> Inr (map_of (rooms sv) n, sv, w)) = Inr (room, sv1, w1)"
      "(case room of
         None \<Rightarrow> send_or_close (SendError ''There is no room with that name man'') c (sv1, w1)
       | Some a \<Rightarrow> andThen (get_room a sv1) (\<lambda>r.
           case CanJoin name r of
             Some reason \<Rightarrow> send_or_close (SendError (''Cannot join room, reason: '' @ reason)) c (sv1, w1)
           | None \<Rightarrow> enter_room c name a (sv1, w1))) = Inr (sv', w')"
    by (auto simp: join_room_def)
  have i1: "server_inv {} {} sv1 w1"
  proof (cases roomname)
    case None
    obtain n w0 where n: "RandomString 10 w = (n, w0)" by fastforce
    obtain r where r: "Room_new (roomEpollSock sv) = Inr r" by (simp add: Room_new_eq)
    obtain a where a: "add_room n r (sv, w0) = (a, sv1, w1)" using x(1) None n r by (auto split: prod.splits)
    have "rstate r \<noteq> GAME_OVER" using r by (auto simp: Room_new_eq)
    then show ?thesis
      using add_room_inv [OF server_inv_kept [OF inv RandomString_kept [OF n]] _ Room_new_inv [OF r] _ a] fresh None n by simp
  next
    case (Some n)
    then show ?thesis using x(1) inv by simp
  qed
  show ?thesis
  proof (cases room)
    case None
    then show ?thesis using send_or_close_inv [OF snd_error.message_sender_axioms i1] x(2) by simp
  next
    case (Some a)
    then obtain r where r: "room_heap sv1 a = Some r"
      "(case CanJoin name r of
         Some reason \<Rightarrow> send_or_close (SendError (''Cannot join room, reason: '' @ reason)) c (sv1, w1)
       | None \<Rightarrow> enter_room c name a (sv1, w1)) = Inr (sv', w')"
      using x(2) by auto
    show ?thesis
    proof (cases "CanJoin name r")
      case None
      then have "enter_room c name a (sv1, w1) = Inr (sv', w')" using r(2) by simp
      then show ?thesis by (rule enter_room_inv [OF i1]) (use None r(1) in simp)
    next
      case (Some reason)
      then have "send_or_close (SendError (''Cannot join room, reason: '' @ reason)) c (sv1, w1) = Inr (sv', w')"
        using r(2) by simp
      then show ?thesis by (rule send_or_close_inv [OF snd_error.message_sender_axioms i1])
    qed
  qed
qed

lemma handleLobbyMessage_inv:
  assumes inv: "server_inv {} {} sv w" and h: "handleLobbyMessage c m (sv, w) = Inr (sv', w')"
    and fresh: "fresh_name m (sv, w)"
  shows "server_inv {} {} sv' w'"
proof -
  consider "send_room_list c (sv, w) = Inr (sv', w')"
    | name roomname where "mtype m = JOIN_ROOM" "msg_joinroom m = (name, roomname)"
        "join_room name roomname c (sv, w) = Inr (sv', w')"
    | "send_or_close (SendError ''Unexpected message'') c (sv, w) = Inr (sv', w')"
    using h by (cases "mtype m"; cases "msg_joinroom m") (auto simp: handleLobbyMessage_def)
  then show ?thesis
  proof cases
    case 1
    then show ?thesis by (rule send_room_list_inv [OF inv])
  next
    case (2 name roomname)
    show ?thesis by (rule join_room_inv [OF inv 2(3)]) (use fresh 2(1,2) in \<open>simp add: fresh_name_def\<close>)
  next
    case 3
    then show ?thesis by (rule send_or_close_inv [OF snd_error.message_sender_axioms inv])
  qed
qed

end
