(* ===== verification/ServerProps.thy ===== *)
theory ServerProps
  imports ServerLobby RoomProps
begin

section \<open>The server as a state machine\<close>

text \<open>
  The three threads of the server, interleaved: the steps are an event or the next piece of work of
  the lobby thread, an event of the rooms thread, an explosion, and between them anything the
  kernel does to the streams. The reading of a \<open>BombInRoom\<close> whose block has ended is left open:
  an explosion may come with any descriptor and any room. A message that creates a room is
  assumed to draw a name that is not in use (the code does not check it).
\<close>

subsection \<open>Events of the rooms\<close>

lemma get_pir_Inr:
  assumes "assign_inv S sv w"
  shows "get_pir a sv = Inr pl \<longleftrightarrow> (\<exists>s. map_of (roomAssignments sv) s = Some pl \<and> pir_node pl = a)"
proof -
  have d: "distinct (map fst (roomAssignments sv))" "distinct (map (\<lambda>x. pir_node (snd x)) (roomAssignments sv))"
    using assms by (simp_all add: assign_inv_def)
  have "(\<exists>s. find (\<lambda>(s, pl). pir_node pl = a) (roomAssignments sv) = Some (s, pl)) \<longleftrightarrow>
      (\<exists>s. (s, pl) \<in> set (roomAssignments sv) \<and> pir_node pl = a)"
  proof
    assume "\<exists>s. find (\<lambda>(s, pl). pir_node pl = a) (roomAssignments sv) = Some (s, pl)"
    then show "\<exists>s. (s, pl) \<in> set (roomAssignments sv) \<and> pir_node pl = a"
      by (auto simp: find_Some_iff) (metis nth_mem)
  next
    assume "\<exists>s. (s, pl) \<in> set (roomAssignments sv) \<and> pir_node pl = a"
    then obtain s where s: "(s, pl) \<in> set (roomAssignments sv)" "pir_node pl = a" by blast
    then obtain t ql where q: "find (\<lambda>(s, pl). pir_node pl = a) (roomAssignments sv) = Some (t, ql)"
      by (cases "find (\<lambda>(s, pl). pir_node pl = a) (roomAssignments sv)") (auto simp: find_None_iff)
    then have "(t, ql) \<in> set (roomAssignments sv)" "pir_node ql = a" by (auto simp: find_Some_iff) (metis nth_mem)
    then have "(t, ql) = (s, pl)" using d(2) s inj_onD [of "\<lambda>x. pir_node (snd x)" "set (roomAssignments sv)" "(t, ql)" "(s, pl)"]
      by (simp add: distinct_map)
    with q show "\<exists>s. find (\<lambda>(s, pl). pir_node pl = a) (roomAssignments sv) = Some (s, pl)" by blast
  qed
  then show ?thesis using d(1) by (auto simp: get_pir_def split: option.splits)
qed

lemma pir_player_of_Inr:
  "pir_player_of pl sv = Inr (r, p) \<longleftrightarrow> room_heap sv (pir_room pl) = Some r \<and> find_player (pir_player pl) r = Some p"
  by (auto simp: pir_player_of_def get_player_def andThen_eq_Inr split: option.splits)

text \<open>The cases of an event of a player.\<close>

lemma room_message_cases:
  assumes "room_message a (sv, w) = Some (Inr (sv', w'))"
  obtains (ignored) pl r p where "sv' = sv" "w' = w" "get_pir a sv = Inr pl" "room_heap sv (pir_room pl) = Some r"
      "find_player (pir_player pl) r = Some p" "conn p = 0 \<or> markedForDisconnect p \<or> rstate r = GAME_OVER"
  | (lost) pl r w1 p where "get_pir a sv = Inr pl" "room_heap sv (pir_room pl) = Some r" "find_player (pir_player pl) r = Some p"
      "rstate r \<noteq> GAME_OVER" "Receive (conn p) w = Some (Inr (None, w1))"
      "handleRoomPostEvent (pir_room pl) (set_room (pir_room pl) (upd_player (pir_player pl) mark r) sv, w1) = Inr (sv', w')"
  | (handled) pl r p m w1 b r2 w2 sv3 w3 sv4 w4 pl4 where "get_pir a sv = Inr pl" "room_heap sv (pir_room pl) = Some r"
      "find_player (pir_player pl) r = Some p" "rstate r \<noteq> GAME_OVER" "Receive (conn p) w = Some (Inr (Some m, w1))"
      "HandleMessage m (pir_player pl) r w1 = Inr (b, r2, w2)"
      "(if b then arm_bomb (pir_room pl) (set_room (pir_room pl) r2 sv, w2) else Inr (set_room (pir_room pl) r2 sv, w2)) = Inr (sv3, w3)"
      "handleRoomPostEvent (pir_room pl) (sv3, w3) = Inr (sv4, w4)" "get_pir a sv4 = Inr pl4"
      "handleRoomPostEvent (pir_room pl4) (sv4, w4) = Inr (sv', w')"
proof -
  from assms obtain pl r p where x: "get_pir a sv = Inr pl" "room_heap sv (pir_room pl) = Some r"
      "find_player (pir_player pl) r = Some p"
      "(if conn p = 0 \<or> markedForDisconnect p \<or> IsGameOver r then Some (Inr (sv, w))
       else andThenO (Receive (conn p) w) (\<lambda>(m, w1).
       Some (case m of
         None \<Rightarrow> handleRoomPostEvent (pir_room pl)
             (set_room (pir_room pl) (upd_player (pir_player pl) mark r) sv, w1)
       | Some payload \<Rightarrow>
           andThen (HandleMessage payload (pir_player pl) r w1) (\<lambda>(place_bomb, r2, w2).
           let x2 = (set_room (pir_room pl) r2 sv, w2) in
           andThen (if place_bomb then arm_bomb (pir_room pl) x2 else Inr x2) (\<lambda>x3.
           andThen (handleRoomPostEvent (pir_room pl) x3) (\<lambda>x4.
           andThen (get_pir a (fst x4)) (\<lambda>pl.
           andThen (pir_player_of pl (fst x4)) (\<lambda>(r, p).
           if \<not> markedForDisconnect p \<and> conn p = 0 then Inl (Undefined ''null connection'')
           else handleRoomPostEvent (pir_room pl) x4)))))))) = Some (Inr (sv', w'))"
    by (auto simp: room_message_undrained pir_player_of_Inr)
  show thesis
  proof (cases "conn p = 0 \<or> markedForDisconnect p \<or> IsGameOver r")
    case True
    then show thesis using x ignored by (simp add: IsGameOver_def)
  next
    case False
    then have st: "rstate r \<noteq> GAME_OVER" by (simp add: IsGameOver_def)
    from False x(4) obtain m w1 where m: "Receive (conn p) w = Some (Inr (m, w1))" by auto
    show thesis
    proof (cases m)
      case None
      then show thesis using lost [OF x(1-3) st] m x(4) False by simp
    next
      case (Some payload)
      then obtain b r2 w2 sv3 w3 sv4 w4 pl4 r4 p4 where h: "HandleMessage payload (pir_player pl) r w1 = Inr (b, r2, w2)"
          "(if b then arm_bomb (pir_room pl) (set_room (pir_room pl) r2 sv, w2) else Inr (set_room (pir_room pl) r2 sv, w2)) = Inr (sv3, w3)"
          "handleRoomPostEvent (pir_room pl) (sv3, w3) = Inr (sv4, w4)" "get_pir a sv4 = Inr pl4"
          "pir_player_of pl4 sv4 = Inr (r4, p4)"
          "(if \<not> markedForDisconnect p4 \<and> conn p4 = 0 then Inl (Undefined ''null connection'')
           else handleRoomPostEvent (pir_room pl4) (sv4, w4)) = Inr (sv', w')"
        using x(4) False m by (auto simp: Let_def)
      then have "handleRoomPostEvent (pir_room pl4) (sv4, w4) = Inr (sv', w')" by (auto split: if_splits)
      then show thesis using handled [OF x(1-3) st _ h(1-4)] m Some by blast
    qed
  qed
qed

lemma set_room_birs: "birs (set_room a r sv) = birs sv"
  by (simp add: set_room_def)

lemma room_message_inv:
  assumes inv: "server_inv {} {} sv w" and m: "room_message a (sv, w) = Some (Inr (sv', w'))"
  shows "server_inv {} {} sv' w'"
  using m
proof (cases rule: room_message_cases)
  case ignored
  then show ?thesis using inv by simp
next
  case (lost pl r w1 p)
  have k: "kept w w1" using Receive_kept [OF lost(5)] ..
  have "room_inv (upd_player (pir_player pl) mark r) w1"
    using sent_room_inv [OF upd_player_mark_sent] room_inv_later [OF server_inv_room [OF inv lost(2)] kept_next [OF k]] by blast
  moreover have "list_all2 same_person (players r) (players (upd_player (pir_player pl) mark r))"
    using marks_same_persons [OF sent_simps(6) [OF upd_player_mark_sent]] by blast
  ultimately have "server_inv {pir_room pl} {} (set_room (pir_room pl) (upd_player (pir_player pl) mark r) sv) w1"
    by (intro set_room_same_inv [OF inv lost(2) k]) (use lost(4) in \<open>simp_all add: upd_player_def\<close>)
  then show ?thesis by (rule handleRoomPostEvent_inv [OF _ lost(6)])
next
  case (handled pl r p m w1 b r2 w2 sv3 w3 sv4 w4 pl4)
  have k: "kept w w1" using Receive_kept [OF handled(5)] ..
  have r: "room_inv r w1" using room_inv_later [OF server_inv_room [OF inv handled(2)] kept_next [OF k]] .
  note h = HandleMessage_roster [OF handled(6) r]
  have i2: "server_inv {} {} (set_room (pir_room pl) r2 sv) w2"
    by (rule set_room_same_inv [OF inv handled(2) kept_trans [OF k] HandleMessage_inv [OF handled(6) r]])
      (use h handled(4) in auto)
  have "server_inv {} {} sv3 w3"
  proof (cases b)
    case True
    then have "arm_bomb (pir_room pl) (set_room (pir_room pl) r2 sv, w2) = Inr (sv3, w3)" using handled(7) by simp
    moreover have "birs (set_room (pir_room pl) r2 sv) = (\<lambda>_. None)"
      using inv by (simp add: server_inv_def set_room_birs)
    ultimately have "sv3 = set_room (pir_room pl) r2 sv" "kept w2 w3" using arm_bomb_kept by blast+
    then show ?thesis using server_inv_kept [OF i2] by simp
  next
    case False
    then show ?thesis using handled(7) i2 by simp
  qed
  then have "server_inv {} {} sv4 w4"
    using handleRoomPostEvent_inv [OF _ handled(8)] server_inv_mono by blast
  then show ?thesis using handleRoomPostEvent_inv [OF _ handled(10)] server_inv_mono by blast
qed

lemma explode_in_inv:
  assumes inv: "server_inv {} {} sv w" and e: "explode_in bir (sv, w) = Inr (sv', w')"
  shows "server_inv {} {} sv' w'"
proof -
  let ?a = "bir_room bir"
  from e obtain r r1 w1 w2 where x: "room_heap sv ?a = Some r" "NotifyExplosion r w = Inr (r1, w1)"
      "handleRoomPostEvent ?a (set_room ?a r1 sv, w1) = Inr (sv', w2)" "w' = sys_close (bir_fd bir) w2"
    by (auto simp: explode_in_def)
  have r: "room_inv r w" by (rule server_inv_room [OF inv x(1)])
  note n = NotifyExplosion_roster [OF x(2) r]
  have over: "rstate r1 = GAME_OVER \<longrightarrow> (\<forall>p\<in>set (players r1). markedForDisconnect p \<and> ?a \<in> {?a})"
    using n inv x(1) by (auto simp: server_inv_def rooms_inv_def)
  have "server_inv {?a} {} (set_room ?a r1 sv) w1"
    by (rule set_room_same_inv [OF inv x(1) NotifyExplosion_kept [OF x(2)] NotifyExplosion_inv [OF x(2) r] over])
      (use n in auto)
  from handleRoomPostEvent_inv [OF this x(3)] show ?thesis using server_inv_kept x(4) by blast
qed

lemma lobby_receive_inv:
  assumes inv: "server_inv {} {} sv w" and l: "lobby_receive pc p (sv, w) = Some (Inr (pc', sv', w'))"
  shows "server_inv {} {} sv' w'"
proof -
  from l obtain m w1 where m: "Receive p w = Some (Inr (m, w1))"
      "(case m of None \<Rightarrow> Some (andThen (conn_sock p w1) (\<lambda>s. andThen (cleanupSock s (sv, w1)) (\<lambda>x1. Inr (pc, x1))))
        | Some payload \<Rightarrow> Some (Inr (Handling p payload, sv, w1))) = Some (Inr (pc', sv', w'))"
    by (auto simp: lobby_receive_def)
  have i: "server_inv {} {} sv w1" using server_inv_kept [OF inv] Receive_kept [OF m(1)] by blast
  show ?thesis
  proof (cases m)
    case None
    then obtain s where "cleanupSock s (sv, w1) = Inr (sv', w')" using m(2) by auto
    then show ?thesis by (rule cleanupSock_inv [OF i])
  next
    case (Some payload)
    then show ?thesis using m(2) i by simp
  qed
qed

subsection \<open>The steps of the three threads\<close>

datatype server_event =
  LobbyPoll lobby_event
| LobbyWork
| RoomsPoll rooms_event
| Explosion BombInRoom
| Kernel

definition draws_fresh :: "lobby_pc \<Rightarrow> server \<times> world \<Rightarrow> bool" where
  "draws_fresh pc x = (case pc of Handling p m \<Rightarrow> fresh_name m x | _ \<Rightarrow> True)"

definition kernel_change :: "world \<Rightarrow> world \<Rightarrow> bool" where
  "kernel_change w w' \<longleftrightarrow> conns w' = conns w \<and> next_addr w' = next_addr w"

inductive server_step :: "lobby_pc \<times> server \<times> world \<Rightarrow> server_event \<Rightarrow> lobby_pc \<times> server \<times> world \<Rightarrow> bool" where
  step_poll: "lobby_poll ev x = Some (Inr (pc, x')) \<Longrightarrow> server_step (Polling, x) (LobbyPoll ev) (pc, x')"
| step_work: "lobby_work pc x = Some (Inr (pc', x')) \<Longrightarrow> draws_fresh pc x \<Longrightarrow> server_step (pc, x) LobbyWork (pc', x')"
| step_rooms: "rooms_poll ev x = Some (Inr x') \<Longrightarrow> server_step (pc, x) (RoomsPoll ev) (pc, x')"
| step_bomb: "explode_in bir x = Inr x' \<Longrightarrow> server_step (pc, x) (Explosion bir) (pc, x')"
| step_kernel: "kernel_change w w' \<Longrightarrow> server_step (pc, sv, w) Kernel (pc, sv, w')"

inductive_cases server_stepE: "server_step (pc, sv, w) e (pc', sv', w')"

definition server_init :: "lobby_pc \<times> server \<times> world \<Rightarrow> bool" where
  "server_init x \<longleftrightarrow> (case x of (pc, sv, w) \<Rightarrow> pc = Polling \<and>
    (\<exists>port w0. Server_new port w0 = (Inr sv, w) \<and> conns w0 = (\<lambda>_. None) \<and> 0 < next_addr w0))"

definition server_ok :: "lobby_pc \<times> server \<times> world \<Rightarrow> bool" where
  "server_ok x \<longleftrightarrow> server_inv {} {} (fst (snd x)) (snd (snd x))"

lemma checked_Inr:
  assumes "checked call fds what rest w = (Inr sv, w')"
  obtains r w1 where "call w = (r, w1)" "r \<noteq> - 1" "rest r w1 = (Inr sv, w')"
  using assms by (auto simp: checked_def split: prod.splits if_splits)

lemma Server_new_state:
  assumes "Server_new port w = (Inr sv, w')"
  shows "rooms sv = [] \<and> room_heap sv = (\<lambda>_. None) \<and> roomConns sv = [] \<and> roomAssignments sv = [] \<and>
    lobbyConns sv = [] \<and> birs sv = (\<lambda>_. None) \<and> \<not> ended sv \<and> conns w' = conns w \<and> next_addr w' = next_addr w"
  using assms unfolding Server_new_def
  by (elim checked_Inr) (auto dest!: sys_calls_same)

lemma server_init_ok: "server_init x \<Longrightarrow> server_ok x"
  by (auto simp: server_init_def server_ok_def server_inv_def rooms_inv_def assign_inv_def
      dest!: Server_new_state intro!: conns_invI)

lemma server_step_ok: "server_step x e y \<Longrightarrow> server_ok x \<Longrightarrow> server_ok y"
proof (induction rule: server_step.induct)
  case (step_poll ev x pc x')
  obtain sv w sv' w' where x: "x = (sv, w)" "x' = (sv', w')" by (cases x, cases x')
  have i: "server_inv {} {} sv w" using step_poll.prems by (simp add: server_ok_def x)
  have "server_inv {} {} (sv\<lparr>ended := True\<rparr>) w"
    using i conns_inv_cong [of sv w "sv\<lparr>ended := True\<rparr>"]
    by (simp add: server_inv_def rooms_inv_def assign_inv_def assigned_def)
  then show ?case using step_poll.hyps i accept_client_inv [OF i] lobby_receive_inv [OF i]
    by (cases ev) (auto simp: lobby_poll_def server_ok_def x)
next
  case (step_work pc x pc' x')
  obtain sv w sv' w' where x: "x = (sv, w)" "x' = (sv', w')" by (cases x, cases x')
  have i: "server_inv {} {} sv w" using step_work.prems by (simp add: server_ok_def x)
  show ?case using step_work.hyps i handleLobbyMessage_inv [OF i] lobby_receive_inv [OF i]
    by (cases pc) (auto simp: lobby_work_def server_ok_def x draws_fresh_def split: if_splits)
next
  case (step_rooms ev x x' pc)
  obtain sv w sv' w' where x: "x = (sv, w)" "x' = (sv', w')" by (cases x, cases x')
  have i: "server_inv {} {} sv w" using step_rooms.prems by (simp add: server_ok_def x)
  have "server_inv {} {} (sv\<lparr>ended := True\<rparr>) w"
    using i conns_inv_cong [of sv w "sv\<lparr>ended := True\<rparr>"]
    by (simp add: server_inv_def rooms_inv_def assign_inv_def assigned_def)
  then show ?case using step_rooms.hyps room_message_inv [OF i]
    by (cases ev) (auto simp: rooms_poll_def server_ok_def x)
next
  case (step_bomb bir x x' pc)
  then show ?case using explode_in_inv by (cases x, cases x') (auto simp: server_ok_def)
next
  case (step_kernel w w' pc sv)
  then show ?case using server_inv_kept [OF _ keptI] by (auto simp: server_ok_def kernel_change_def)
qed

interpretation server_machine: state_machine server_init server_step server_ok
  by unfold_locales (fact server_init_ok, rule server_step_ok)

end
