(* ===== verification/ServerActions.thy ===== *)
theory ServerActions
  imports ServerProps RoomActions
begin

section \<open>Properties of the server\<close>

text \<open>
  A sample server: connection 7 in the lobby, the game of \<open>playing_room\<close> and an empty room.
\<close>

definition server_world :: world where
  "server_world = sample_world\<lparr>kans := (\<lambda>n. 10 + int n), next_addr := 20,
    conns := [5 \<mapsto> \<lparr>sock = 50, msg = GameMessage_default, inboundQueue = []\<rparr>,
      6 \<mapsto> \<lparr>sock = 60, msg = GameMessage_default, inboundQueue = []\<rparr>,
      7 \<mapsto> \<lparr>sock = 70, msg = GameMessage_default, inboundQueue = []\<rparr>]\<rparr>"

definition queued :: "int \<Rightarrow> GameMessage list \<Rightarrow> world \<Rightarrow> world" where
  "queued p q w = set_queue p q w"

definition sample_server :: server where
  "sample_server = \<lparr>ended = False, rooms = [(''one'', 10), (''two'', 11)],
    room_heap = [10 \<mapsto> playing_room, 11 \<mapsto> empty_room], roomConns = [(50, 5), (60, 6)],
    roomAssignments = [(50, \<lparr>pir_node = 12, pir_player = 0, pir_room = 10\<rparr>),
      (60, \<lparr>pir_node = 13, pir_player = 1, pir_room = 10\<rparr>)],
    lobbyConns = [7], birs = (\<lambda>_. None), roomEpollSock = 9, lobbyEpollSock = 8, bombEpollSock = 7,
    srvSock = 3, sigSock = 4\<rparr>"

lemma sample_rooms_inv: "20 \<le> next_addr w \<Longrightarrow> room_inv playing_room w \<and> room_inv empty_room w"
  by (simp add: room_inv_def playing_room_def empty_room_def bob_def sample_player_def player_wf_def
      mk_coords_def in_array_def server_tile_start)

lemma sample_server_inv: "server_inv {} {} sample_server server_world"
proof -
  have "conns_inv sample_server server_world"
    by (rule conns_invI)
      (auto simp: sample_server_def server_world_def sock_of_def intro: exI [of _ 50] split: if_splits)
  moreover have "rooms_inv {} sample_server server_world"
    using sample_rooms_inv [of server_world]
    by (auto simp: rooms_inv_def sample_server_def server_world_def playing_room_def empty_room_def)
  moreover have "assign_inv {} sample_server server_world"
    by (auto simp: assign_inv_def assigned_def sample_server_def server_world_def playing_room_def
        bob_def sample_player_def find_player_def split: if_splits)
  ultimately show ?thesis by (simp add: server_inv_def sample_server_def)
qed

lemma queued_inv: "server_inv {} {} sv w \<Longrightarrow> server_inv {} {} sv (queued p q w)"
  unfolding queued_def by (rule server_inv_kept [OF _ set_queue_kept])

text \<open>A server that has started and accepted a connection.\<close>

lemma sample_run:
  "\<exists>pc sv w. reach server_init server_step (pc, sv, w) \<and> lobbyConns sv = [1] \<and> conns w 1 \<noteq> None"
proof -
  let ?w0 = "sample_world\<lparr>kans := (\<lambda>n. 10 + int n)\<rparr>"
  have ev: "yields (fst (Server_new 1234 ?w0)) (\<lambda>sv.
      yieldsO (lobby_poll LobbyAccept (sv, snd (Server_new 1234 ?w0))) (\<lambda>(pc, sv', w').
        lobbyConns sv' = [1] \<and> conns w' 1 \<noteq> None))"
    by code_simp
  obtain sv where sv: "fst (Server_new 1234 ?w0) = Inr sv"
      "yieldsO (lobby_poll LobbyAccept (sv, snd (Server_new 1234 ?w0))) (\<lambda>(pc, sv', w').
        lobbyConns sv' = [1] \<and> conns w' 1 \<noteq> None)"
    using ev by (rule yieldsE)
  obtain w where w: "Server_new 1234 ?w0 = (Inr sv, w)" using sv(1) by (metis prod.collapse)
  obtain pc sv' w' where run: "Server_new 1234 ?w0 = (Inr sv, w)"
      "lobby_poll LobbyAccept (sv, w) = Some (Inr (pc, sv', w'))" "lobbyConns sv' = [1]" "conns w' 1 \<noteq> None"
    using sv(2) w by (auto elim!: yieldsOE)
  have "server_init (Polling, sv, w)"
    unfolding server_init_def prod.case by (intro conjI exI [of _ 1234] exI [of _ ?w0]) (use run(1) in auto)
  then have "reach server_init server_step (Polling, sv, w)" by (rule reach_init)
  then have "reach server_init server_step (pc, sv', w')" by (rule reach_step) (rule step_poll [OF run(2)])
  then show ?thesis using run(3,4) by blast
qed

subsection \<open>The invariant\<close>

text \<open>
  C1. Whatever the threads do in whatever order, the server stays consistent: every room is
  well-formed, listed under a name, and empty once its game is over; every connection that lives is
  either in the lobby or the room connection of its own socket, never both, and no two share a
  socket; and every assignment leads to a living player of a living room, whose connection is the
  living one of the assigned socket.
\<close>

theorem server_consistent:
  assumes "reach server_init server_step (pc, sv, w)"
  shows "(\<forall>a r. room_heap sv a = Some r \<longrightarrow> room_inv r w \<and> (\<exists>n. (n, a) \<in> set (rooms sv)) \<and>
      (rstate r = GAME_OVER \<longrightarrow> players r = [])) \<and>
    (\<forall>p. conns w p \<noteq> None \<longrightarrow> (p \<in> set (lobbyConns sv)) \<noteq> (map_of (roomConns sv) (sock_of p w) = Some p)) \<and>
    (\<forall>p q. conns w p \<noteq> None \<and> conns w q \<noteq> None \<and> sock_of p w = sock_of q w \<longrightarrow> p = q) \<and>
    (\<forall>s pl. map_of (roomAssignments sv) s = Some pl \<longrightarrow> (\<exists>r p. room_heap sv (pir_room pl) = Some r \<and>
      find_player (pir_player pl) r = Some p \<and> conns w (conn p) \<noteq> None \<and> sock_of (conn p) w = s))"
proof -
  have inv: "server_inv {} {} sv w" using server_machine.reach_inv [OF assms] by (simp add: server_ok_def)
  then have C: "conns_inv sv w" and R: "rooms_inv {} sv w" and G: "assign_inv {} sv w"
    by (simp_all add: server_inv_def)
  note d = conns_invD [OF C]
  have "room_inv r w \<and> (\<exists>n. (n, a) \<in> set (rooms sv)) \<and> (rstate r = GAME_OVER \<longrightarrow> players r = [])"
    if r: "room_heap sv a = Some r" for a r
  proof -
    have "a \<in> snd ` set (rooms sv)" using R r unfolding rooms_inv_def by blast
    then have "\<exists>n. (n, a) \<in> set (rooms sv)" by force
    moreover have "rstate r = GAME_OVER \<longrightarrow> players r = []" using R r by (cases "players r") (auto simp: rooms_inv_def)
    ultimately show ?thesis using server_inv_room [OF inv r] by blast
  qed
  moreover have "(p \<in> set (lobbyConns sv)) \<noteq> (map_of (roomConns sv) (sock_of p w) = Some p)"
    if "conns w p \<noteq> None" for p
    using d(3) [of p] d(4) [of "sock_of p w" p] d(5) that by metis
  moreover have "p = q" if "conns w p \<noteq> None" "conns w q \<noteq> None" "sock_of p w = sock_of q w" for p q
    using d(8) that .
  moreover have "\<exists>r p. room_heap sv (pir_room pl) = Some r \<and>
      find_player (pir_player pl) r = Some p \<and> conns w (conn p) \<noteq> None \<and> sock_of (conn p) w = s"
    if "map_of (roomAssignments sv) s = Some pl" for s pl
  proof -
    have "assigned sv s pl" using G that unfolding assign_inv_def by blast
    then obtain r p where "room_heap sv (pir_room pl) = Some r" "find_player (pir_player pl) r = Some p"
        "map_of (roomConns sv) s = Some (conn p)" by (auto simp: assigned_def)
    then show ?thesis using d(5,6) by blast
  qed
  ultimately show ?thesis by blast
qed

theorem server_consistent_witness:
  "\<exists>pc sv w. reach server_init server_step (pc, sv, w) \<and> lobbyConns sv = [1] \<and>
    map_of (roomConns sv) (sock_of 1 w) \<noteq> Some 1"
proof -
  obtain pc sv' w' where r: "reach server_init server_step (pc, sv', w')" "lobbyConns sv' = [1]" "conns w' 1 \<noteq> None"
    using sample_run by blast
  have "(1 \<in> set (lobbyConns sv')) \<noteq> (map_of (roomConns sv') (sock_of 1 w') = Some 1)"
    using server_consistent [OF r(1), THEN conjunct2, THEN conjunct1] r(3) by blast
  then have "map_of (roomConns sv') (sock_of 1 w') \<noteq> Some 1" using r(2) by simp
  with r(1,2) show ?thesis by blast
qed

subsection \<open>The rooms thread\<close>

text \<open>
  An event of a player that is still assigned starts safely: in every state of the invariant
  the pointer the event carries leads to a living assignment, player and room, and the connection
  the code is about to read from lives, is not null, and has the assigned socket.
\<close>

theorem room_event_starts_safely:
  assumes "server_inv {} {} sv w" and "map_of (roomAssignments sv) s = Some pl"
  shows "get_pir (pir_node pl) sv = Inr pl \<and> (\<exists>r p. pir_player_of pl sv = Inr (r, p) \<and> room_inv r w \<and>
    conn p \<noteq> 0 \<and> conn_sock (conn p) w = Inr s)"
proof -
  have C: "conns_inv sv w" and G: "assign_inv {} sv w" using assms(1) by (simp_all add: server_inv_def)
  have "get_pir (pir_node pl) sv = Inr pl" using get_pir_Inr [OF G] assms(2) by blast
  moreover have "assigned sv s pl" using G assms(2) unfolding assign_inv_def by blast
  then obtain r p where p: "room_heap sv (pir_room pl) = Some r" "find_player (pir_player pl) r = Some p"
      "map_of (roomConns sv) s = Some (conn p)" by (auto simp: assigned_def)
  moreover have "conns w (conn p) \<noteq> None" "sock_of (conn p) w = s" "0 < conn p"
    using conns_invD(5,6) [OF C p(3)] conns_invD(9) [OF C] by auto
  ultimately show ?thesis
    using server_inv_room [OF assms(1) p(1)] by (auto simp: pir_player_of_Inr conn_sock_Inr)
qed

theorem room_event_starts_safely_witness:
  "\<exists>r p. pir_player_of \<lparr>pir_node = 13, pir_player = 1, pir_room = 10\<rparr> sample_server = Inr (r, p) \<and>
    conn_sock (conn p) server_world = Inr 60"
  using room_event_starts_safely [OF sample_server_inv, of 60 "\<lparr>pir_node = 13, pir_player = 1, pir_room = 10\<rparr>"]
  by (auto simp: sample_server_def)

text \<open>What is left of the assignments after the clean-up of an event.\<close>

lemma post_event_assignments:
  assumes inv: "server_inv {a} {} sv w" and h: "handleRoomPostEvent a (sv, w) = Inr (sv', w')"
  shows "map_of (roomAssignments sv') s = Some pl \<Longrightarrow> map_of (roomAssignments sv) s = Some pl"
    and "map_of (roomAssignments sv') s = Some pl \<Longrightarrow> room_heap sv a = Some r \<Longrightarrow> p \<in> set (players r) \<Longrightarrow>
      markedForDisconnect p \<Longrightarrow> sock_of (conn p) w \<noteq> s"
proof -
  obtain r' socks where e: "room_heap sv a = Some r'"
      "map_of (roomAssignments sv') = (map_of (roomAssignments sv)) |` (- set socks)"
      "\<And>p. p \<in> set (players r') \<Longrightarrow> markedForDisconnect p \<Longrightarrow> sock_of (conn p) w \<in> set socks"
    by (rule handleRoomPostEvent_Inr [OF inv h]) blast
  show "map_of (roomAssignments sv') s = Some pl \<Longrightarrow> map_of (roomAssignments sv) s = Some pl"
    by (simp add: e(2) restrict_map_def split: if_splits)
  show "sock_of (conn p) w \<noteq> s" if "map_of (roomAssignments sv') s = Some pl" "room_heap sv a = Some r"
      "p \<in> set (players r)" "markedForDisconnect p"
    using that e(1) e(3) [of p] by (auto simp: e(2) restrict_map_def split: if_splits)
qed

text \<open>
  C9. Whoever leaves a running game crashes the server. When a player's \<open>I_LEAVE\<close> has been
  handled, the clean-up destroys the player and erases the assignment, and the code goes on to read
  \<open>pl->player->markedForDisconnect\<close> through the pointer to the erased entry: no such event returns
  without undefined behaviour.
\<close>

theorem leaving_use_after_free:
  assumes "server_inv {} {} sv w" and "map_of (roomAssignments sv) s = Some pl"
    and "room_heap sv (pir_room pl) = Some r" and "rstate r = PLAY"
    and "find_player (pir_player pl) r = Some p" and "\<not> markedForDisconnect p"
    and "Receive (conn p) w = Some (Inr (Some m, w1))" and "mtype m = I_LEAVE"
  shows "room_message (pir_node pl) (sv, w) \<noteq> Some (Inr x)"
proof
  assume e: "room_message (pir_node pl) (sv, w) = Some (Inr x)"
  obtain sv' w' where x: "x = (sv', w')" by fastforce
  have C: "conns_inv sv w" and G: "assign_inv {} sv w" using assms(1) by (simp_all add: server_inv_def)
  have pl: "get_pir (pir_node pl) sv = Inr pl" using get_pir_Inr [OF G] assms(2) by blast
  have as: "map_of (roomConns sv) s = Some (conn p)"
    using G assms(2,3,5) unfolding assign_inv_def assigned_def by force
  have k: "kept w w1" using Receive_kept [OF assms(7)] ..
  have r: "room_inv r w1" using room_inv_later [OF server_inv_room [OF assms(1,3)] kept_next [OF k]] .
  have h: "HandleMessage m (pir_player pl) r w1 = Inr (False, upd_player (pir_player pl) mark r, w1)"
    using assms(4,5,8) by (simp add: HandleMessage_def get_player_def)
  from e [unfolded x] show False
  proof (cases rule: room_message_cases)
    case (ignored pl' r' p')
    then have "p' = p" "r' = r" using pl assms(3,5) by simp_all
    moreover have "0 < conn p" by (rule conns_invD(9) [OF C conns_invD(6) [OF C as]])
    ultimately show False using ignored(6) assms(4,6) by simp
  next
    case (lost pl' r' w1' p')
    then show False using pl assms(3,5,7) by simp
  next
    case (handled pl' r' p' m' w1' b r2 w2 sv3 w3 sv4 w4 pl4)
    then have eq: "pl' = pl" "r' = r" "p' = p" "m' = m" "w1' = w1" using pl assms(3,5,7) by simp_all
    have b: "\<not> b" "r2 = upd_player (pir_player pl) mark r" "w2 = w1" using handled(6) h eq by simp_all
    let ?sv3 = "set_room (pir_room pl) r2 sv"
    have 3: "sv3 = ?sv3" "w3 = w1" using handled(7) b eq by simp_all
    note hh = HandleMessage_roster [OF h r]
    have i3: "server_inv {} {} ?sv3 w1"
      by (rule set_room_same_inv [OF assms(1,3) k HandleMessage_inv [OF handled(6) [unfolded eq b(3)] r]])
        (use hh assms(4) b(2) in auto)
    have p: "mark p \<in> set (players r2)" "conn (mark p) = conn p" "markedForDisconnect (mark p)"
      using find_player_Some [OF assms(5)] by (auto simp: b(2) upd_player_def mark_def)
    have post: "handleRoomPostEvent (pir_room pl) (?sv3, w1) = Inr (sv4, w4)" using handled(8) 3 eq by simp
    have i3': "server_inv {pir_room pl} {} ?sv3 w1" using server_inv_mono [OF i3] by blast
    have "assign_inv {} sv4 w4" using handleRoomPostEvent_inv [OF i3' post] by (simp add: server_inv_def)
    then obtain t where t: "map_of (roomAssignments sv4) t = Some pl4" "pir_node pl4 = pir_node pl"
      using handled(9) get_pir_Inr by blast
    have "map_of (roomAssignments sv) t = Some pl4"
      using post_event_assignments(1) [OF i3' post t(1)] by (simp add: set_room_def)
    then have "t = s"
      using G t(2) assms(2) inj_onD [of "\<lambda>x. pir_node (snd x)" "set (roomAssignments sv)" "(t, pl4)" "(s, pl)"]
      by (auto simp: assign_inv_def distinct_map dest!: map_of_SomeD)
    moreover have "sock_of (conn (mark p)) w1 = s"
      using kept_sock_of [OF k] conns_invD(5,6) [OF C as] p(2) by simp
    ultimately show False
      using post_event_assignments(2) [OF i3' post t(1) _ p(1,3)] by (simp add: set_room_def)
  qed
qed

theorem leaving_use_after_free_witness:
  "\<forall>x. room_message 13 (sample_server, queued 6 [message I_LEAVE ILeaveB] server_world) \<noteq> Some (Inr x)"
proof -
  let ?w = "queued 6 [message I_LEAVE ILeaveB] server_world"
  have "yieldsO (Receive (conn bob) ?w) (\<lambda>(m, w). m = Some (message I_LEAVE ILeaveB))" by code_simp
  then obtain w1 where "Receive (conn bob) ?w = Some (Inr (Some (message I_LEAVE ILeaveB), w1))"
    by (auto elim!: yieldsOE)
  then show ?thesis
    using leaving_use_after_free [OF queued_inv [OF sample_server_inv], of 60
        "\<lparr>pir_node = 13, pir_player = 1, pir_room = 10\<rparr>" playing_room bob 6 "[message I_LEAVE ILeaveB]"]
    by (simp add: sample_server_def playing_room_def bob_def sample_player_def find_player_def message_def)
qed

text \<open>
  C30. Messages that arrive together are not handled together. The loop that should handle what is
  still queued is guarded by \<open>!pl->player->conn\<close>, so it is never entered: after an event that
  returns, whatever \<open>Receive\<close> left in the queue of the connection is still there.
\<close>

theorem queued_messages_wait:
  assumes "server_inv {} {} sv w" and "map_of (roomAssignments sv) s = Some pl"
    and "room_heap sv (pir_room pl) = Some r" and "find_player (pir_player pl) r = Some p"
    and "rstate r \<noteq> GAME_OVER" and "\<not> markedForDisconnect p"
    and "Receive (conn p) w = Some (Inr (Some m, w1))" and "conns w1 (conn p) = Some c1"
    and "room_message (pir_node pl) (sv, w) = Some (Inr (sv', w'))" and "conns w' (conn p) = Some c'"
  shows "inboundQueue c' = inboundQueue c1"
proof -
  have C: "conns_inv sv w" and G: "assign_inv {} sv w" using assms(1) by (simp_all add: server_inv_def)
  have pl: "get_pir (pir_node pl) sv = Inr pl" using get_pir_Inr [OF G] assms(2) by blast
  have as: "map_of (roomConns sv) s = Some (conn p)"
    using G assms(2-4) unfolding assign_inv_def assigned_def by force
  from assms(9) show ?thesis
  proof (cases rule: room_message_cases)
    case (ignored pl' r' p')
    then have "p' = p" "r' = r" using pl assms(3,4) by simp_all
    moreover have "0 < conn p" by (rule conns_invD(9) [OF C conns_invD(6) [OF C as]])
    ultimately show ?thesis using ignored(6) assms(5,6) by simp
  next
    case (lost pl' r' w1' p')
    then show ?thesis using pl assms(3,4,7) by simp
  next
    case (handled pl' r' p' m' w1' b r2 w2 sv3 w3 sv4 w4 pl4)
    then have eq: "pl' = pl" "r' = r" "p' = p" "m' = m" "w1' = w1" using pl assms(3,4,7) by simp_all
    have k: "kept w w1" using Receive_kept [OF assms(7)] ..
    have r: "room_inv r w1" using room_inv_later [OF server_inv_room [OF assms(1,3)] kept_next [OF k]] .
    note h = HandleMessage_roster [OF handled(6) [unfolded eq] r]
    let ?sv3 = "set_room (pir_room pl) r2 sv"
    have i2: "server_inv {} {} ?sv3 w2"
      by (rule set_room_same_inv [OF assms(1,3) kept_trans [OF k] HandleMessage_inv [OF handled(6) [unfolded eq] r]])
        (use h assms(5) in auto)
    have "birs ?sv3 = (\<lambda>_. None)" using i2 by (simp add: server_inv_def)
    then have 3: "sv3 = ?sv3 \<and> kept w2 w3 \<and> conns w3 = conns w2"
      using handled(7) arm_bomb_kept eq(1) by (cases b) auto
    have i3: "server_inv {pir_room pl} {} sv3 w3"
      using server_inv_mono [OF server_inv_kept [OF i2]] 3 by blast
    have post: "handleRoomPostEvent (pir_room pl) (sv3, w3) = Inr (sv4, w4)" using handled(8) eq(1) by simp
    have i4: "server_inv {pir_room pl4} {} sv4 w4"
      using server_inv_mono [OF handleRoomPostEvent_inv [OF i3 post]] by blast
    obtain c4 where c4: "conns w4 (conn p) = Some c4" "inboundQueue c' = inboundQueue c4"
      by (rule handleRoomPostEvent_Inr [OF i4 handled(10)]) (use assms(10) in blast)
    obtain c3 where c3: "conns w3 (conn p) = Some c3" "inboundQueue c4 = inboundQueue c3"
      by (rule handleRoomPostEvent_Inr [OF i3 post]) (use c4 in blast)
    have "quiet w1 w2" using h by simp
    from quiet_queue [OF this assms(8)] show ?thesis using c3 c4(2) 3 by auto
  qed
qed

theorem queued_messages_wait_witness:
  "\<exists>sv' w' c'. room_message 13 (sample_server, queued 6 [message I_MOVE (IMoveB (Fin 14) (Fin 1)),
      message I_LEAVE ILeaveB] server_world) = Some (Inr (sv', w')) \<and>
    conns w' 6 = Some c' \<and> inboundQueue c' = [message I_LEAVE ILeaveB]"
proof -
  let ?w = "queued 6 [message I_MOVE (IMoveB (Fin 14) (Fin 1)), message I_LEAVE ILeaveB] server_world"
  have "yieldsO (Receive 6 ?w) (\<lambda>(m, w). m = Some (message I_MOVE (IMoveB (Fin 14) (Fin 1))) \<and>
      map_option inboundQueue (conns w 6) = Some [message I_LEAVE ILeaveB])" by code_simp
  then obtain w1 c1 where 1: "Receive 6 ?w = Some (Inr (Some (message I_MOVE (IMoveB (Fin 14) (Fin 1))), w1))"
      "conns w1 6 = Some c1" "inboundQueue c1 = [message I_LEAVE ILeaveB]"
    by (auto elim!: yieldsOE)
  have "yieldsO (room_message 13 (sample_server, ?w)) (\<lambda>(sv', w'). conns w' 6 \<noteq> None)" by code_simp
  then obtain sv' w' c' where 2: "room_message 13 (sample_server, ?w) = Some (Inr (sv', w'))" "conns w' 6 = Some c'"
    by (auto elim!: yieldsOE)
  have "inboundQueue c' = inboundQueue c1"
    by (rule queued_messages_wait [OF queued_inv [OF sample_server_inv], of 60
          "\<lparr>pir_node = 13, pir_player = 1, pir_room = 10\<rparr>" playing_room bob 6
          "[message I_MOVE (IMoveB (Fin 14) (Fin 1)), message I_LEAVE ILeaveB]"
          "message I_MOVE (IMoveB (Fin 14) (Fin 1))" w1])
      (use 1 2 in \<open>simp_all add: sample_server_def playing_room_def bob_def sample_player_def find_player_def\<close>)
  then show ?thesis using 1(3) 2 by simp
qed

subsection \<open>The bombs thread\<close>

text \<open>
  C18. No bomb timer ever explodes in the abstract machine of the language. In every state the
  server reaches, an event of the bombs thread is undefined: the one of a timer reads a
  \<open>BombInRoom\<close> that was local to a block that has ended, the one of the signal uses the
  descriptor \<open>sigSock\<close> as a pointer.
\<close>

theorem bomb_events_undefined:
  assumes "reach server_init server_step (pc, sv, w)"
  shows "\<exists>e. bombs_poll ev (sv, w) = Inl (Undefined e)"
proof -
  have "birs sv = (\<lambda>_. None)"
    using server_machine.reach_inv [OF assms] by (simp add: server_ok_def server_inv_def)
  then show ?thesis by (cases ev) (simp_all add: bombs_poll_def)
qed

theorem bomb_events_undefined_witness:
  "\<exists>pc sv w e. reach server_init server_step (pc, sv, w) \<and> bombs_poll BombsSignal (sv, w) = Inl (Undefined e)"
  using sample_run bomb_events_undefined by meson

subsection \<open>The lobby thread\<close>

text \<open>
  C16. Joining a room moves the connection. When a player of the lobby asks to join a waiting room
  that admits it and the operation returns, the server differs from before in exactly this: the
  connection has left the lobby and is the room connection of its socket, which had neither a
  connection nor an assignment; the room has one more player, in front, with that name and
  connection, three lives, the colour of the number of players and its start, one more join, and
  is playing if that was the fourth (its bombs, its board and, but for the mark of a failed send, its other players
  are as before); and that player is what the socket is assigned to.
\<close>

theorem lobby_join_effect:
  assumes "server_inv {} {} sv w" and "mtype m = JOIN_ROOM" and "msg_joinroom m = (name, Some n)"
    and "map_of (rooms sv) n = Some a" and "room_heap sv a = Some r" and "CanJoin name r = None"
    and "rstate r = WAIT_FOR_START" and "handleLobbyMessage c m (sv, w) = Inr (sv', w')"
  shows "c \<in> set (lobbyConns sv) \<and> map_of (roomConns sv) (sock_of c w) = None \<and>
    map_of (roomAssignments sv) (sock_of c w) = None \<and>
    (\<exists>r' p pl ls. set ls = set (lobbyConns sv) - {c} \<and> distinct ls \<and>
      sv' = sv\<lparr>lobbyConns := ls, roomConns := (sock_of c w, c) # roomConns sv,
        roomAssignments := (sock_of c w, pl) # roomAssignments sv, room_heap := (room_heap sv)(a \<mapsto> r')\<rparr> \<and>
      r' = r\<lparr>players := players r', clientCount := clientCount r + 1,
        rstate := if clientCount r + 1 = 4 then PLAY else WAIT_FOR_START\<rparr> \<and>
      list_all2 marks (p # players r) (players r') \<and> addr p \<notin> addr ` set (players r) \<and>
      username p = name \<and> conn p = c \<and> livesRemaining p = 3 \<and> color p = color_of_size (length (players r)) \<and>
      start_coords (color p) = Some (coords p) \<and> pir_room pl = a \<and> pir_player pl = addr p)"
proof -
  have C: "conns_inv sv w" and G: "assign_inv {} sv w" using assms(1) by (simp_all add: server_inv_def)
  have e: "enter_room c name a (sv, w) = Inr (sv', w')"
    using assms(2-6,8) by (simp add: handleLobbyMessage_def join_room_def get_room_def)
  obtain ls r0 p r2 w1 w2 w3 where x: "conns w c \<noteq> None" "c \<in> set (lobbyConns sv)"
    "map_of (roomConns sv) (sock_of c w) = None" "set ls = set (lobbyConns sv) - {c}" "distinct ls"
    "room_heap sv a = Some r0" "kept w w1" "next_addr w1 = next_addr w" "conns w1 = conns w"
    "JoinPlayer c name r0 w1 = Inr (p, r2, w2)" "kept w2 w3" "p = None \<or> w3 = w2"
    "case p of None \<Rightarrow> (sv', w') = erase_roomConn (sock_of c w) (set_room a r2 (sv\<lparr>roomConns := (sock_of c w, c) # roomConns sv,
        lobbyConns := ls\<rparr>), drop_socket (lobbyEpollSock sv) (sock_of c w) w3)
     | Some b \<Rightarrow> \<exists>sv3 w4. assign_player (sock_of c w) b a (set_room a r2 (sv\<lparr>roomConns := (sock_of c w, c) # roomConns sv,
        lobbyConns := ls\<rparr>), w3) = (sv3, w4) \<and> sv' = sv3 \<and> w' = syscall (EpollAdd (roomEpollSock sv3) (sock_of c w)) w4"
    by (rule enter_room_Inr [OF C e])
  let ?s = "sock_of c w"
  have r: "r0 = r" using x(6) assms(5) by simp
  have "room_inv r w1" using room_inv_later [OF server_inv_room [OF assms(1,5)] kept_next [OF x(7)]] .
  from JoinPlayer_effect [OF x(10) [unfolded r] assms(7) this] obtain q where q:
      "list_all2 marks (q # players r) (players r2)" "p = Some (addr q)" "addr q \<notin> addr ` set (players r)"
      "conn q = c" "username q = name" "livesRemaining q = 3" "color q = color_of_size (length (players r))"
      "start_coords (color q) = Some (coords q)"
    and r2: "r2 = r\<lparr>players := players r2, clientCount := clientCount r + 1,
      rstate := if clientCount r + 1 = 4 then PLAY else WAIT_FOR_START\<rparr>" by blast
  have dom: "dom (map_of (roomAssignments sv)) = dom (map_of (roomConns sv))" using G by (simp add: assign_inv_def)
  have "?s \<notin> dom (map_of (roomConns sv))" using x(3) unfolding domIff by blast
  then have noas: "map_of (roomAssignments sv) ?s = None" by (simp only: dom [symmetric] domIff not_not)
  let ?pl = "\<lparr>pir_node = next_addr w3, pir_player = addr q, pir_room = a\<rparr>"
  have "sv' = sv\<lparr>lobbyConns := ls, roomConns := (?s, c) # roomConns sv,
      roomAssignments := (?s, ?pl) # roomAssignments sv, room_heap := (room_heap sv)(a \<mapsto> r2)\<rparr>"
    using x(13) q(2) noas by (auto simp: assign_player_def set_room_def)
  then show ?thesis
    using x(2-5) noas q r2
    by (intro conjI exI [of _ r2] exI [of _ q] exI [of _ ?pl] exI [of _ ls]) simp_all
qed

theorem lobby_join_effect_witness:
  "\<exists>sv' w' r'. handleLobbyMessage 7 (message JOIN_ROOM (JoinRoomB ''eve'' (Some ''two''))) (sample_server, server_world) =
      Inr (sv', w') \<and> lobbyConns sv' = [] \<and> map_of (roomConns sv') 70 = Some 7 \<and>
    room_heap sv' 11 = Some r' \<and> map username (players r') = [''eve''] \<and> clientCount r' = 1 \<and> rmap r' = server_map"
proof -
  let ?m = "message JOIN_ROOM (JoinRoomB ''eve'' (Some ''two''))"
  have "yields (handleLobbyMessage 7 ?m (sample_server, server_world)) (\<lambda>_. True)" by code_simp
  then obtain sv' w' where h: "handleLobbyMessage 7 ?m (sample_server, server_world) = Inr (sv', w')"
    by (auto elim!: yieldsE)
  from lobby_join_effect [OF sample_server_inv _ _ _ _ _ _ h, of "''eve''" "''two''" 11 empty_room]
  obtain r' p pl ls where e: "set ls = set (lobbyConns sample_server) - {7}"
      "sv' = sample_server\<lparr>lobbyConns := ls, roomConns := (sock_of 7 server_world, 7) # roomConns sample_server,
        roomAssignments := (sock_of 7 server_world, pl) # roomAssignments sample_server,
        room_heap := (room_heap sample_server)(11 \<mapsto> r')\<rparr>"
    and r': "r' = empty_room\<lparr>players := players r', clientCount := clientCount empty_room + 1,
        rstate := if clientCount empty_room + 1 = 4 then PLAY else WAIT_FOR_START\<rparr>"
    and p: "list_all2 marks (p # players empty_room) (players r')" "username p = ''eve''"
    by (auto simp: message_def msg_joinroom_def sample_server_def empty_room_def CanJoin_def)
  have "clientCount r' = 1" "rmap r' = server_map" by (subst r', simp add: empty_room_def)+
  moreover have "map username (players r') = [''eve'']" using marks_maps [OF p(1)] p(2) by (simp add: empty_room_def)
  moreover have "lobbyConns sv' = []" "map_of (roomConns sv') 70 = Some 7" "room_heap sv' 11 = Some r'"
    using e by (simp_all add: sample_server_def server_world_def sock_of_def)
  ultimately show ?thesis using h by (intro exI conjI)
qed

text \<open>
  C17. The list of rooms. \<open>GET_ROOM_LIST\<close> is answered with every room of the table that has not had
  four joins, each once with its number of joins, in the order of the table's iteration; the rooms
  whose game is over are then destroyed, and no other. A room that is over is thus listed once more
  if it was not full.
\<close>

theorem room_list_effect:
  assumes "server_inv {} {} sv w" and "mtype m = GET_ROOM_LIST"
  shows "\<exists>ns sv1. mset ns = mset (map fst (rooms sv)) \<and>
    handleLobbyMessage c m (sv, w) = send_or_close (SendRoomList
      (map (\<lambda>n. (n, clientCount (room_of sv n), 4)) (filter (\<lambda>n. clientCount (room_of sv n) \<noteq> 4) ns))) c (sv1, w) \<and>
    (\<forall>n. map_of (rooms sv1) n = (if map_of (rooms sv) n \<noteq> None \<and> rstate (room_of sv n) = GAME_OVER then None
      else map_of (rooms sv) n)) \<and>
    (\<forall>n a. map_of (rooms sv1) n = Some a \<longrightarrow> room_heap sv1 a = room_heap sv a) \<and>
    lobbyConns sv1 = lobbyConns sv \<and> roomConns sv1 = roomConns sv \<and> roomAssignments sv1 = roomAssignments sv"
proof -
  let ?ns = "iteration w (map fst (rooms sv))"
  let ?sv1 = "foldl (\<lambda>sv n. erase_room n sv) sv (finished_rooms sv w)"
  have h: "handleLobbyMessage c m (sv, w) = send_or_close (SendRoomList
      (map (\<lambda>n. (n, clientCount (room_of sv n), 4)) (filter (\<lambda>n. clientCount (room_of sv n) \<noteq> 4) ?ns))) c (?sv1, w)"
    using send_room_list_eq [OF assms(1)] assms(2) by (simp add: handleLobbyMessage_def listed_def PlayerCount_def)
  have same: "map_of (rooms (foldl (\<lambda>sv n. erase_room n sv) s ns)) = (map_of (rooms s)) |` (- set ns) \<and>
      lobbyConns (foldl (\<lambda>sv n. erase_room n sv) s ns) = lobbyConns s \<and>
      roomConns (foldl (\<lambda>sv n. erase_room n sv) s ns) = roomConns s \<and>
      roomAssignments (foldl (\<lambda>sv n. erase_room n sv) s ns) = roomAssignments s" for s ns
  proof (induction ns arbitrary: s)
    case (Cons n ns)
    have "map_of (rooms (erase_room n s)) = map_of (AList.delete n (rooms s))" by (simp add: erase_room_def)
    then show ?case using Cons.IH [of "erase_room n s"] by (simp add: delete_restrict) (simp add: erase_room_def)
  qed (simp add: restrict_map_def fun_eq_iff)
  have heap: "map_of (rooms s) m = Some a \<Longrightarrow> distinct (map snd (rooms s)) \<Longrightarrow> m \<notin> set ns \<Longrightarrow>
      room_heap (foldl (\<lambda>sv n. erase_room n sv) s ns) a = room_heap s a" for s ns m a
  proof (induction ns arbitrary: s)
    case (Cons n ns)
    have "map_of (rooms (erase_room n s)) m = Some a"
      using Cons.prems(1,3) by (simp add: erase_room_def)
    moreover have "distinct (map snd (rooms (erase_room n s)))"
      using Cons.prems(2) by (simp add: erase_room_def AList.delete_eq distinct_map_filter)
    moreover have "room_heap (erase_room n s) a = room_heap s a"
      using Cons.prems inj_onD [of snd "set (rooms s)" "(m, a)" "(n, a)"]
      by (auto simp: erase_room_def distinct_map dest!: map_of_SomeD split: option.splits)
    ultimately show ?case using Cons.IH [of "erase_room n s"] Cons.prems(3) by simp
  qed simp
  have fin: "n \<in> set (finished_rooms sv w) \<longleftrightarrow> map_of (rooms sv) n \<noteq> None \<and> rstate (room_of sv n) = GAME_OVER" for n
    by (auto simp: finished_rooms_def iteration_set IsGameOver_def map_of_eq_None_iff)
  have "distinct (map snd (rooms sv))" using assms(1) by (simp add: server_inv_def rooms_inv_def)
  then have "room_heap ?sv1 a = room_heap sv a" if "map_of (rooms ?sv1) n = Some a" for n a
    using that same [of sv "finished_rooms sv w"] heap [of sv n a "finished_rooms sv w"]
    by (auto simp: restrict_map_def split: if_splits)
  moreover have "map_of (rooms ?sv1) n = (if map_of (rooms sv) n \<noteq> None \<and> rstate (room_of sv n) = GAME_OVER then None
      else map_of (rooms sv) n)" for n
    using same [of sv "finished_rooms sv w"] fin [of n] by (simp add: restrict_map_def)
  ultimately show ?thesis
    using h iteration_perm same [of sv "finished_rooms sv w"] by (intro exI [of _ ?ns] exI [of _ ?sv1]) blast
qed

theorem room_list_effect_witness:
  "\<exists>ns sv1. mset ns = {#''one'', ''two''#} \<and> map_of (rooms sv1) ''two'' = Some 11 \<and>
    handleLobbyMessage 7 (message GET_ROOM_LIST GetRoomListB) (sample_server, server_world) =
      send_or_close (SendRoomList [(''two'', 0, 4)]) 7 (sv1, server_world)"
proof -
  have r: "clientCount (room_of sample_server ''one'') = 4" "clientCount (room_of sample_server ''two'') = 0"
      "rstate (room_of sample_server ''two'') = WAIT_FOR_START"
    by (simp_all add: room_of_def sample_server_def playing_room_def empty_room_def)
  obtain ns sv1 where x: "mset ns = mset (map fst (rooms sample_server))"
    "handleLobbyMessage 7 (message GET_ROOM_LIST GetRoomListB) (sample_server, server_world) =
      send_or_close (SendRoomList (map (\<lambda>n. (n, clientCount (room_of sample_server n), 4))
        (filter (\<lambda>n. clientCount (room_of sample_server n) \<noteq> 4) ns))) 7 (sv1, server_world)"
    "map_of (rooms sv1) ''two'' = (if map_of (rooms sample_server) ''two'' \<noteq> None \<and>
        rstate (room_of sample_server ''two'') = GAME_OVER then None else map_of (rooms sample_server) ''two'')"
    using room_list_effect [OF sample_server_inv, of "message GET_ROOM_LIST GetRoomListB" 7] by (auto simp: message_def)
  have "mset ns = {#''one'', ''two''#}" using x(1) by (simp add: sample_server_def)
  then have "ns = [''one'', ''two''] \<or> ns = [''two'', ''one'']"
    by (cases ns; cases "tl ns") (auto simp: add_eq_conv_ex)
  then show ?thesis using x r by (auto simp: sample_server_def)
qed

text \<open>
  C31. Joining twice indexes \<open>lobbyConns[-1]\<close>. The lobby goes on to handle the queued messages of a
  connection that has just joined a room; when one of them asks to join a room that admits it, the
  connection is not found in the lobby any more and the index -1 is used.
\<close>

theorem second_join_out_of_bounds:
  assumes "server_inv {} {} sv w" and "conns w c \<noteq> None" and "c \<notin> set (lobbyConns sv)"
    and "mtype m = JOIN_ROOM" and "msg_joinroom m = (name, Some n)" and "map_of (rooms sv) n = Some a"
    and "room_heap sv a = Some r" and "CanJoin name r = None"
  shows "handleLobbyMessage c m (sv, w) = Inl (Undefined ''lobbyConns[-1]'')"
proof -
  let ?w1 = "syscall (EpollDel (lobbyEpollSock sv) (sock_of c w)) w"
  have C: "conns_inv sv w" using assms(1) by (simp add: server_inv_def)
  have C1: "conns_inv sv ?w1" by (rule conns_inv_kept [OF C kept_sys(1)])
  have so: "sock_of p ?w1 = sock_of p w" for p by (simp add: sock_of_def syscall_def)
  have "sock_of c w \<notin> set (map (\<lambda>p. sock_of p ?w1) (lobbyConns sv))"
    using conns_invD(8) [OF C assms(2) conns_invD(7) [OF C]] assms(3) by (auto simp: so)
  then have "last_index (sock_of c w) (map (\<lambda>p. sock_of p ?w1) (lobbyConns sv)) = None"
    by (simp only: last_index_None not_False_eq_True)
  then have mv: "move_to_room c (sock_of c w) (sv, ?w1) = Inl (Undefined ''lobbyConns[-1]'')"
    by (simp add: move_to_room_def lobby_socks_eq [OF C1])
  have "conn_sock c w = Inr (sock_of c w)" using assms(2) by (simp add: conn_sock_Inr)
  then show ?thesis
    using assms(4-8) mv by (simp add: handleLobbyMessage_def join_room_def get_room_def enter_room_def)
qed

theorem second_join_out_of_bounds_witness:
  "handleLobbyMessage 6 (message JOIN_ROOM (JoinRoomB ''eve'' (Some ''two''))) (sample_server, server_world) =
    Inl (Undefined ''lobbyConns[-1]'')"
  by (rule second_join_out_of_bounds [OF sample_server_inv, of _ _ "''eve''" "''two''" 11 empty_room])
    (simp_all add: server_world_def sample_server_def message_def msg_joinroom_def empty_room_def CanJoin_def)

text \<open>A connection that is closed does not live any more.\<close>

lemma cleanupSock_destroys:
  assumes inv: "server_inv {} {} sv w" and p: "conns w p \<noteq> None" and c: "cleanupSock (sock_of p w) (sv, w) = Inr (sv', w')"
  shows "conns w' p = None"
proof (rule ccontr)
  assume live: "conns w' p \<noteq> None"
  let ?s = "sock_of p w"
  let ?w3 = "sys_close ?s (syscall (Shutdown ?s) (syscall (EpollDel (roomEpollSock sv) ?s)
    (syscall (EpollDel (lobbyEpollSock sv) ?s) w)))"
  have w3: "conns ?w3 = conns w" "sock_of q ?w3 = sock_of q w" for q
    by (simp_all add: sock_of_def sys_close_def syscall_def)
  have C: "conns_inv sv w" using inv by (simp add: server_inv_def)
  have C3: "conns_inv sv ?w3"
    by (rule conns_inv_kept [OF C keptI]) (simp_all add: sys_close_def syscall_def)
  let ?ss = "map (\<lambda>q. sock_of q ?w3) (lobbyConns sv)"
  let ?e = "case first_index ?s ?ss of None \<Rightarrow> (sv, ?w3) | Some i \<Rightarrow> erase_lobbyConn i (sv, ?w3)"
  obtain sv1 w4 where e1: "?e = (sv1, w4)" by (rule prod.exhaust)
  have e2: "erase_sock ?s (sv1, w4) = (sv', w')"
    using c e1 by (simp add: cleanupSock_def Let_def lobby_socks_eq [OF C3])
  have "conns w4 p \<noteq> None" using erase_sock_conns [OF e2 live] live by simp
  show False
  proof (cases "p \<in> set (lobbyConns sv)")
    case True
    then have "?s \<in> set ?ss" using w3(2) by auto
    then obtain i where i: "first_index ?s ?ss = Some i" using first_index_None [of ?s ?ss] by blast
    then have "i < length (lobbyConns sv)" "sock_of (lobbyConns sv ! i) w = ?s"
      using first_index_Some [OF i] w3(2) by auto
    then have "lobbyConns sv ! i = p" using conns_invD(8) [OF C conns_invD(7) [OF C] p] by simp
    then have "conns w4 p = None" using e1 i by (auto simp: erase_lobbyConn_def delete_conn_def)
    with \<open>conns w4 p \<noteq> None\<close> show False by simp
  next
    case False
    then obtain t where "map_of (roomConns sv) t = Some p" using conns_invD(3) [OF C, of p] p by blast
    then have "map_of (roomConns sv) ?s = Some p" using conns_invD(5) [OF C] by blast
    moreover have "roomConns sv1 = roomConns sv" using e1 by (auto simp: erase_lobbyConn_def split: option.splits)
    ultimately have "conns w' p = None"
      using e2 by (auto simp: erase_sock_def erase_roomConn_def delete_conn_def)
    with live show False by simp
  qed
qed

lemma send_or_close_destroys:
  assumes f: "message_sender f" and inv: "server_inv {} {} sv w" and p: "conns w p \<noteq> None"
    and fail: "f p w = Inr (None, w1)" and c: "send_or_close f p (sv, w) = Inr (sv', w')"
  shows "conns w' p = None"
proof -
  have k: "kept w w1" by (rule kept_io) (rule message_sender.frame [OF f fail])
  have p1: "conns w1 p \<noteq> None" using kept_None [OF k] p by simp
  then have "cleanupSock (sock_of p w1) (sv, w1) = Inr (sv', w')"
    using c fail by (auto simp: send_or_close_def conn_sock_Inr andThen_eq_Inr)
  then show ?thesis using cleanupSock_destroys [OF server_inv_kept [OF inv k] p1] by blast
qed

text \<open>
  C32. A client that cannot be answered crashes the server. When the answer to an unexpected
  message cannot be sent, the handler closes the connection and destroys it; the lobby thread
  then asks the destroyed connection for more messages.
\<close>

theorem failed_answer_use_after_free:
  assumes "server_inv {} {} sv w" and "conns w p \<noteq> None"
    and "mtype m \<noteq> GET_ROOM_LIST" and "mtype m \<noteq> JOIN_ROOM"
    and "SendError ''Unexpected message'' p w = Inr (None, w1)"
    and "lobby_work (Handling p m) (sv, w) = Some (Inr (pc, x))"
  shows "lobby_work pc x = Some (Inl (Undefined ''use of a destroyed connection''))"
proof -
  obtain sv' w' where x: "x = (sv', w')" by fastforce
  have "handleLobbyMessage p m (sv, w) = send_or_close (SendError ''Unexpected message'') p (sv, w)"
    using assms(3,4) by (cases "mtype m") (simp_all add: handleLobbyMessage_def)
  then have "pc = Draining p" "send_or_close (SendError ''Unexpected message'') p (sv, w) = Inr (sv', w')"
    using assms(6) x by (auto simp: lobby_work_def)
  then show ?thesis
    using send_or_close_destroys [OF snd_error.message_sender_axioms assms(1,2,5)] x
    by (simp add: lobby_work_def HasMoreMessages_def)
qed

theorem failed_answer_use_after_free_witness:
  "\<exists>pc x. lobby_work (Handling 7 (message I_LEAVE ILeaveB)) (sample_server, server_world\<lparr>wr_events := (\<lambda>_. [WriteError])\<rparr>) =
      Some (Inr (pc, x)) \<and> lobby_work pc x = Some (Inl (Undefined ''use of a destroyed connection''))"
proof -
  let ?w = "server_world\<lparr>wr_events := (\<lambda>_. [WriteError])\<rparr>" and ?m = "message I_LEAVE ILeaveB"
  have inv: "server_inv {} {} sample_server ?w"
    by (rule server_inv_kept [OF sample_server_inv keptI]) simp_all
  have "yields (SendError ''Unexpected message'' 7 ?w) (\<lambda>(b, w). b = None)" by code_simp
  then obtain w1 where 1: "SendError ''Unexpected message'' 7 ?w = Inr (None, w1)" by (auto elim!: yieldsE)
  have "yieldsO (lobby_work (Handling 7 ?m) (sample_server, ?w)) (\<lambda>_. True)" by code_simp
  then obtain pc x where 2: "lobby_work (Handling 7 ?m) (sample_server, ?w) = Some (Inr (pc, x))"
    by (auto elim!: yieldsOE)
  have "lobby_work pc x = Some (Inl (Undefined ''use of a destroyed connection''))"
    by (rule failed_answer_use_after_free [OF inv _ _ _ 1 2]) (simp_all add: server_world_def message_def)
  with 2 show ?thesis by blast
qed

subsection \<open>Starting\<close>

lemma checked_answers:
  "kans w (ktick w) \<noteq> - 1 \<Longrightarrow> checked (sys_call c) fds what rest w =
    rest (kans w (ktick w)) (w\<lparr>ktick := Suc (ktick w), sys := sys w @ [c]\<rparr>)"
  "kans w (ktick w) \<noteq> - 1 \<Longrightarrow> checked (sys_open c) fds what rest w =
    rest (kans w (ktick w)) (w\<lparr>ktick := Suc (ktick w), sys := sys w @ [c],
      fd_open := (fd_open w)(kans w (ktick w) := True)\<rparr>)"
  by (simp_all add: checked_def sys_call_def sys_open_def syscall_def)

lemma checked_fails:
  "kans w (ktick w) = - 1 \<Longrightarrow> checked (sys_call c) fds what rest w =
    (Inl (RuntimeError what), close_all (fds (- 1)) (w\<lparr>ktick := Suc (ktick w), sys := sys w @ [c]\<rparr>))"
  "kans w (ktick w) = - 1 \<Longrightarrow> checked (sys_open c) fds what rest w =
    (Inl (RuntimeError what), close_all (fds (- 1)) (w\<lparr>ktick := Suc (ktick w), sys := sys w @ [c]\<rparr>))"
  by (simp_all add: checked_def sys_call_def sys_open_def syscall_def)

lemma checked_ok:
  assumes "checked (sys_call c) fds what rest w = (Inr sv, w') \<or> checked (sys_open c) fds what rest w = (Inr sv, w')"
  obtains w1 where "kans w (ktick w) \<noteq> - 1" "kans w1 = kans w" "ktick w1 = Suc (ktick w)"
    "rest (kans w (ktick w)) w1 = (Inr sv, w')"
  using assms
  by (elim disjE; intro that) (auto simp: checked_def sys_call_def sys_open_def syscall_def Let_def split: if_splits)

lemmas checked_oks = checked_ok [OF disjI1] checked_ok [OF disjI2]

lemma checked_error:
  assumes "checked call fds what rest w = (Inl e, w')"
    and "\<And>r w1. rest r w1 = (Inl e, w') \<Longrightarrow> \<exists>what. e = RuntimeError what"
  shows "\<exists>what. e = RuntimeError what"
  using assms by (auto simp: checked_def split: prod.splits if_splits)

text \<open>
  The server starts exactly when none of its thirteen system calls fails, with empty
  tables and the descriptors the calls returned, the signal watched by all three epoll instances
  and the listening socket by the lobby's.
\<close>

theorem server_starts_iff:
  "(\<exists>sv. fst (Server_new port w) = Inr sv) = list_all (\<lambda>i. kans w (ktick w + i) \<noteq> - 1) [0..<13] \<and>
   (case Server_new port w of
      (Inr sv, w') \<Rightarrow> rooms sv = [] \<and> lobbyConns sv = [] \<and> roomConns sv = [] \<and> roomAssignments sv = [] \<and>
        srvSock sv = kans w (ktick w) \<and> sigSock sv = kans w (ktick w + 6) \<and>
        {EpollAdd (lobbyEpollSock sv) (sigSock sv), EpollAdd (lobbyEpollSock sv) (srvSock sv),
         EpollAdd (roomEpollSock sv) (sigSock sv), EpollAdd (bombEpollSock sv) (sigSock sv),
         Bind (srvSock sv) port} \<subseteq> set (sys w')
    | (Inl e, w') \<Rightarrow> \<exists>what. e = RuntimeError what)"
proof (cases "list_all (\<lambda>i. kans w (ktick w + i) \<noteq> - 1) [0..<13]")
  case True
  then have all: "kans w (ktick w + i) \<noteq> - 1" if "i < 13" for i using that by (simp add: list_all_iff)
  have a: "kans w (ktick w) \<noteq> - 1" "kans w (ktick w + 1) \<noteq> - 1" "kans w (ktick w + 2) \<noteq> - 1"
      "kans w (ktick w + 3) \<noteq> - 1" "kans w (ktick w + 4) \<noteq> - 1" "kans w (ktick w + 5) \<noteq> - 1"
      "kans w (ktick w + 6) \<noteq> - 1" "kans w (ktick w + 7) \<noteq> - 1" "kans w (ktick w + 8) \<noteq> - 1"
      "kans w (ktick w + 9) \<noteq> - 1" "kans w (ktick w + 10) \<noteq> - 1" "kans w (ktick w + 11) \<noteq> - 1"
      "kans w (ktick w + 12) \<noteq> - 1"
    using all [of 0] all [of 1] all [of 2] all by simp_all
  have s: "\<exists>sv w'. Server_new port w = (Inr sv, w') \<and> rooms sv = [] \<and> lobbyConns sv = [] \<and> roomConns sv = [] \<and>
      roomAssignments sv = [] \<and> srvSock sv = kans w (ktick w) \<and> sigSock sv = kans w (ktick w + 6) \<and>
        {EpollAdd (lobbyEpollSock sv) (sigSock sv), EpollAdd (lobbyEpollSock sv) (srvSock sv),
         EpollAdd (roomEpollSock sv) (sigSock sv), EpollAdd (bombEpollSock sv) (sigSock sv),
         Bind (srvSock sv) port} \<subseteq> set (sys w')"
    unfolding Server_new_def using a by (simp add: checked_answers numeral_eq_Suc)
  then show ?thesis using True by auto
next
  case False
  obtain e w' where e: "Server_new port w = (Inl e, w')"
  proof (cases "fst (Server_new port w)")
    case (Inl e)
    then show thesis using that by (metis prod.collapse)
  next
    case (Inr sv)
    then obtain w' where "Server_new port w = (Inr sv, w')" by (metis prod.collapse)
    then have "list_all (\<lambda>i. kans w (ktick w + i) \<noteq> - 1) [0..<13]"
      unfolding Server_new_def
      by (elim checked_oks) (simp add: upt_rec numeral_eq_Suc)
    with False show thesis by simp
  qed
  then have "\<exists>what. e = RuntimeError what"
    unfolding Server_new_def by - ((erule checked_error)+, simp)
  then show ?thesis using False e by simp
qed

text \<open>
  A server that fails to start may leave its socket listening: when blocking the signal or
  creating its descriptor fails, the constructor throws without closing anything.
\<close>

theorem failed_start_leaks:
  assumes "list_all (\<lambda>i. kans w (ktick w + i) \<noteq> - 1) [0..<k]" and "kans w (ktick w + k) = - 1" and "k = 5 \<or> k = 6"
  shows "\<exists>what w'. Server_new port w = (Inl (RuntimeError what), w') \<and> fd_open w' (kans w (ktick w)) \<and>
    Listen (kans w (ktick w)) 1 \<in> set (sys w') \<and> (\<forall>fd. Close fd \<in> set (sys w') \<longrightarrow> Close fd \<in> set (sys w))"
proof -
  have all: "kans w (ktick w + i) \<noteq> - 1" if "i < k" for i using assms(1) that by (simp add: list_all_iff)
  have a: "kans w (ktick w) \<noteq> - 1" "kans w (ktick w + 1) \<noteq> - 1" "kans w (ktick w + 2) \<noteq> - 1"
      "kans w (ktick w + 3) \<noteq> - 1" "kans w (ktick w + 4) \<noteq> - 1"
    using all [of 0] all [of 1] all [of 2] all assms(3) by auto
  show ?thesis
  proof (cases "k = 5")
    case True
    then show ?thesis unfolding Server_new_def using a assms(2)
      by (simp add: checked_answers checked_fails close_all_def numeral_eq_Suc)
  next
    case False
    then have "kans w (ktick w + 5) \<noteq> - 1" "kans w (ktick w + 6) = - 1" using all [of 5] assms(2,3) by auto
    then show ?thesis unfolding Server_new_def using a
      by (simp add: checked_answers checked_fails close_all_def numeral_eq_Suc)
  qed
qed

theorem failed_start_leaks_witness:
  "\<exists>what w'. Server_new 1234 (sample_world\<lparr>kans := (\<lambda>n. if n = 5 then - 1 else 10 + int n)\<rparr>) =
    (Inl (RuntimeError what), w') \<and> fd_open w' 10"
  using failed_start_leaks [of "sample_world\<lparr>kans := (\<lambda>n. if n = 5 then - 1 else 10 + int n)\<rparr>" 5 1234]
  by (auto simp: upt_rec sample_world_def)

end
