(* ===== verification/ServerLoops.thy ===== *)
theory ServerLoops
  imports ServerActions
begin

section \<open>The loops of the server's threads (\<open>server/Server.cpp\<close>)\<close>

text \<open>
  The bodies of the three threads: while the flag \<open>end\<close> is not set, wait for a batch of events and
  handle them in order. The batches \<open>epoll_wait\<close> returns are a list, an interrupted call is an
  empty batch; the list is over when the thread waits for good. Here a thread runs alone; its
  interleaving with the others is \<open>server_step\<close>. The properties relate the two and show what
  the interrupt signal does to each thread.
\<close>

primrec for_events :: "('e \<Rightarrow> 's \<Rightarrow> 's res option) \<Rightarrow> 'e list \<Rightarrow> 's \<Rightarrow> 's res option" where
  "for_events handle [] x = Some (Inr x)"
| "for_events handle (ev # evs) x = andThenO (handle ev x) (for_events handle evs)"

primrec poll_loop ::
  "('e \<Rightarrow> server \<times> 'w \<Rightarrow> (server \<times> 'w) res option) \<Rightarrow> 'e list list \<Rightarrow> server \<times> 'w \<Rightarrow>
    (server \<times> 'w) res option" where
  "poll_loop handle [] x = Some (Inr x)"
| "poll_loop handle (evs # batches) x =
    (if ended (fst x) then Some (Inr x)
     else andThenO (for_events handle evs x) (poll_loop handle batches))"

text \<open>An event of the lobby with the messages that came with it.\<close>

partial_function (option) lobby_drain :: "lobby_pc \<times> server \<times> world \<Rightarrow> (server \<times> world) res option" where
  "lobby_drain s = (case s of (pc, x) \<Rightarrow>
    (case pc of
       Polling \<Rightarrow> Some (Inr x)
     | _ \<Rightarrow> (case lobby_work pc x of
         None \<Rightarrow> None
       | Some (Inl e) \<Rightarrow> Some (Inl e)
       | Some (Inr t) \<Rightarrow> lobby_drain t)))"

declare lobby_drain.simps [code]

definition lobby_event_handler :: "lobby_event \<Rightarrow> server \<times> world \<Rightarrow> (server \<times> world) res option" where
  "lobby_event_handler ev x = andThenO (lobby_poll ev x) lobby_drain"

definition runLobby :: "lobby_event list list \<Rightarrow> server \<times> world \<Rightarrow> (server \<times> world) res option" where
  "runLobby = poll_loop lobby_event_handler"

definition runRooms :: "rooms_event list list \<Rightarrow> server \<times> world \<Rightarrow> (server \<times> world) res option" where
  "runRooms = poll_loop rooms_poll"

definition runBombs :: "bombs_event list list \<Rightarrow> server \<times> world \<Rightarrow> (server \<times> world) res option" where
  "runBombs = poll_loop (\<lambda>ev x. Some (bombs_poll ev x))"

subsection \<open>The flag\<close>

text \<open>Handling a message or an explosion leaves the flag as it is.\<close>

lemma erase_sock_ended: "ended (fst (erase_sock s x)) = ended (fst x)"
  by (cases x) (simp add: erase_sock_def erase_roomConn_def erase_assignment_def)

lemma erase_socks_ended: "ended (fst (foldl (\<lambda>x s. erase_sock s x) x ss)) = ended (fst x)"
  by (induction ss arbitrary: x) (simp_all add: erase_sock_ended)

lemma erase_rooms_ended: "ended (foldl (\<lambda>sv n. erase_room n sv) sv ns) = ended sv"
  by (induction ns arbitrary: sv) (simp_all add: erase_room_def)

lemma arm_bomb_ended: "arm_bomb a x = Inr y \<Longrightarrow> ended (fst y) = ended (fst x)"
  by (cases x) (auto simp: arm_bomb_def Let_def split: prod.splits)

lemma arm_bombs_ended:
  assumes "iterE (\<lambda>_. arm_bomb a) ns x = Inr y"
  shows "ended (fst y) = ended (fst x)"
  using assms by (induction ns arbitrary: x) (auto dest!: arm_bomb_ended)

lemma handleRoomPostEvent_ended: "handleRoomPostEvent a x = Inr y \<Longrightarrow> ended (fst y) = ended (fst x)"
  by (cases x) (auto simp: handleRoomPostEvent_def erase_socks_ended set_room_def
      dest!: arm_bombs_ended split: prod.splits)

lemma cleanupSock_ended: "cleanupSock s x = Inr y \<Longrightarrow> ended (fst y) = ended (fst x)"
  by (cases x) (auto simp: cleanupSock_def Let_def erase_sock_ended erase_lobbyConn_def split: option.splits)

lemma send_or_close_ended: "send_or_close f c x = Inr y \<Longrightarrow> ended (fst y) = ended (fst x)"
  by (cases x) (auto simp: send_or_close_def dest!: cleanupSock_ended split: prod.splits if_splits)

lemma accept_client_ended: "accept_client sv w = Inr y \<Longrightarrow> ended (fst y) = ended sv"
  using erase_sock_ended
  by (auto simp: accept_client_def Let_def erase_lobbyConn_def erase_sock_def erase_roomConn_def
      erase_assignment_def split: prod.splits if_splits option.splits)

lemma send_room_list_ended: "send_room_list c x = Inr y \<Longrightarrow> ended (fst y) = ended (fst x)"
  by (cases x) (auto simp: send_room_list_def erase_rooms_ended dest!: send_or_close_ended)

lemma enter_room_ended: "enter_room c n a x = Inr y \<Longrightarrow> ended (fst y) = ended (fst x)"
  by (cases x) (auto simp: enter_room_def move_to_room_def erase_roomConn_def assign_player_def
      set_room_def Let_def split: prod.splits option.splits)

lemma join_room_ended: "join_room n r c x = Inr y \<Longrightarrow> ended (fst y) = ended (fst x)"
  by (cases x) (auto simp: join_room_def add_room_def erase_room_def Let_def
      dest!: send_or_close_ended enter_room_ended split: prod.splits option.splits)

lemma handleLobbyMessage_ended: "handleLobbyMessage c m x = Inr y \<Longrightarrow> ended (fst y) = ended (fst x)"
  using send_room_list_ended join_room_ended send_or_close_ended
  by (auto simp: handleLobbyMessage_def split: MessageType.splits prod.splits)

lemma room_message_ended:
  assumes "room_message a x = Some (Inr y)"
  shows "ended (fst y) = ended (fst x)"
  using assms
  by (cases x) (auto simp: room_message_undrained set_room_def Let_def
      dest!: handleRoomPostEvent_ended arm_bomb_ended split: prod.splits option.splits if_splits)

lemma lobby_receive_ended:
  "lobby_receive pc p x = Some (Inr (pc', y)) \<Longrightarrow> ended (fst y) = ended (fst x)"
  by (cases x) (auto simp: lobby_receive_def dest!: cleanupSock_ended split: option.splits)

lemma lobby_work_ended: "lobby_work pc x = Some (Inr (pc', y)) \<Longrightarrow> ended (fst y) = ended (fst x)"
  by (cases x) (auto simp: lobby_work_def dest!: handleLobbyMessage_ended lobby_receive_ended
      split: lobby_pc.splits if_splits)

lemma lobby_drain_ended:
  assumes "lobby_drain s = Some (Inr y)"
  shows "ended (fst y) = ended (fst (snd s))"
proof -
  let ?P = "\<lambda>s r. \<forall>y. r = Inr y \<longrightarrow> ended (fst y) = ended (fst (snd s))"
  have "?P s r" if "lobby_drain s = Some r" for s r
  proof (rule lobby_drain.raw_induct [where P = ?P, OF _ that], goal_cases)
    case (1 rec s r)
    note IH = 1(1) and eq = 1(2)
    obtain pc x where s: "s = (pc, x)" by (cases s)
    have "ended (fst y) = ended (fst x)" if r: "r = Inr y" for y
    proof -
      consider "y = x" | t where "lobby_work pc x = Some (Inr t)" "rec t = Some (Inr y)"
        using eq r unfolding s by (auto split: lobby_pc.splits option.splits sum.splits)
      then show ?thesis
        using IH lobby_work_ended by cases (simp, metis prod.collapse snd_conv)
    qed
    then show ?case by (simp add: s)
  qed
  with assms show ?thesis by blast
qed

text \<open>The events of the batches up to and with the one that has the signal.\<close>

primrec until_signal :: "'e \<Rightarrow> 'e list list \<Rightarrow> 'e list" where
  "until_signal signal [] = []"
| "until_signal signal (evs # batches) =
    evs @ (if signal \<in> set evs then [] else until_signal signal batches)"

lemma for_events_append:
  "for_events handle (evs @ evs') x = andThenO (for_events handle evs x) (for_events handle evs')"
  by (induction evs arbitrary: x) (simp_all add: andThenO_def split: option.split sum.split)

text \<open>What a loop over batches relies on: only the signal sets the flag, and nothing resets it.\<close>

locale polling_thread =
  fixes handle :: "'e \<Rightarrow> server \<times> 'w \<Rightarrow> (server \<times> 'w) res option"
    and signal :: 'e
  assumes flag: "handle ev x = Some (Inr y) \<Longrightarrow> ended (fst y) \<longleftrightarrow> ended (fst x) \<or> ev = signal"
begin

lemma for_events_flag:
  "for_events handle evs x = Some (Inr y) \<Longrightarrow> ended (fst y) \<longleftrightarrow> ended (fst x) \<or> signal \<in> set evs"
  by (induction evs arbitrary: x) (auto dest!: flag)

lemma stopped: "ended (fst x) \<Longrightarrow> poll_loop handle batches x = Some (Inr x)"
  by (cases batches) simp_all

lemma poll_loop_until_signal:
  "\<not> ended (fst x) \<Longrightarrow> poll_loop handle batches x = for_events handle (until_signal signal batches) x"
proof (induction batches arbitrary: x)
  case (Cons evs batches)
  have "poll_loop handle batches y = for_events handle (if signal \<in> set evs then [] else until_signal signal batches) y"
    if "for_events handle evs x = Some (Inr y)" for y
    using for_events_flag [OF that] Cons.prems Cons.IH [of y] stopped [of y] by auto
  then show ?case using Cons.prems by (auto simp: for_events_append intro!: andThenO_cong)
qed simp

end

interpretation rooms_thread: polling_thread rooms_poll RoomsSignal
  by unfold_locales (auto simp: rooms_poll_def dest!: room_message_ended split: rooms_event.splits)

interpretation lobby_thread: polling_thread lobby_event_handler LobbySignal
  by unfold_locales (auto simp: lobby_event_handler_def lobby_poll_def
      dest!: lobby_drain_ended lobby_receive_ended accept_client_ended split: lobby_event.splits)

lemma for_events_runs:
  assumes "\<And>ev x y. handle ev x = Some (Inr y) \<Longrightarrow> transition (pc, x) (f ev) (pc, y)"
    and "for_events handle evs x = Some (Inr y)"
  shows "runs transition (pc, x) (map f evs) (pc, y)"
  using assms(2)
proof (induction evs arbitrary: x)
  case (Cons ev evs)
  then obtain z where "handle ev x = Some (Inr z)" "for_events handle evs z = Some (Inr y)" by auto
  then show ?case using Cons.IH [of z] runs_more [of transition "(pc, x)" "f ev" "(pc, z)"] assms(1) by simp
qed (simp add: runs_done)

subsection \<open>Properties of the threads\<close>

text \<open>
  C19. A thread handles the batches in order up to the one that has the interrupt signal, all of
  that one, and no other: this is what the loop over the flag \<open>end\<close> amounts to, whatever the
  events do. The bombs thread never gets past the signal.
\<close>

theorem threads_stop_at_signal:
  assumes "\<not> ended (fst x)"
  shows "runRooms batches x = for_events rooms_poll (until_signal RoomsSignal batches) x \<and>
    runLobby lobby_batches x = for_events lobby_event_handler (until_signal LobbySignal lobby_batches) x \<and>
    (BombsSignal \<in> set evs \<longrightarrow> runBombs [evs] x \<noteq> Some (Inr y))"
proof (intro conjI impI)
  assume "BombsSignal \<in> set evs"
  then have "for_events (\<lambda>ev x. Some (bombs_poll ev x)) evs x \<noteq> Some (Inr z)" for x z
  proof (induction evs arbitrary: x)
    case (Cons ev evs)
    then show ?case by (cases ev) (auto simp: bombs_poll_def split: option.splits)
  qed simp
  then show "runBombs [evs] x \<noteq> Some (Inr y)" using assms by (simp add: runBombs_def andThenO_eq del: split_paired_Ex)
qed (use assms in \<open>simp_all add: runRooms_def runLobby_def rooms_thread.poll_loop_until_signal
    lobby_thread.poll_loop_until_signal\<close>)

theorem threads_stop_at_signal_witness:
  "runRooms [[RoomsSignal], [RoomsReady 0]] (sample_server, server_world) = Some (Inr (sample_server\<lparr>ended := True\<rparr>, server_world)) \<and>
    runLobby [[LobbyNotIn, LobbySignal], [LobbyReady 0]] (sample_server, server_world) = Some (Inr (sample_server\<lparr>ended := True\<rparr>, server_world)) \<and>
    runBombs [[BombsSignal]] (sample_server, server_world) \<noteq> Some (Inr (sample_server, server_world))"
proof -
  have "\<not> ended (fst (sample_server, server_world))" by (simp add: sample_server_def)
  note t = threads_stop_at_signal [OF this]
  show ?thesis
    using t [of "[[RoomsSignal], [RoomsReady 0]]" "[[LobbyNotIn, LobbySignal], [LobbyReady 0]]" "[BombsSignal]"
        "(sample_server, server_world)"]
    by (simp add: rooms_poll_def lobby_event_handler_def lobby_poll_def lobby_drain.simps)
qed

text \<open>
  C8. What the rooms thread does is a run of the server. When its loop returns, it has taken one
  step for each event up to the signal, the invariant of the server holds again, and the loop has
  been left through the flag exactly when the signal came.
\<close>

theorem rooms_thread_runs:
  assumes "server_inv {} {} sv w" "\<not> ended sv" "runRooms batches (sv, w) = Some (Inr (sv', w'))"
  shows "runs server_step (pc, sv, w) (map RoomsPoll (until_signal RoomsSignal batches)) (pc, sv', w') \<and>
    server_inv {} {} sv' w' \<and> (ended sv' \<longleftrightarrow> RoomsSignal \<in> set (concat batches))"
proof -
  have e: "for_events rooms_poll (until_signal RoomsSignal batches) (sv, w) = Some (Inr (sv', w'))"
    using assms(2,3) by (simp add: runRooms_def rooms_thread.poll_loop_until_signal)
  have r: "runs server_step (pc, sv, w) (map RoomsPoll (until_signal RoomsSignal batches)) (pc, sv', w')"
    by (rule for_events_runs [OF _ e]) (rule step_rooms)
  have "RoomsSignal \<in> set (until_signal RoomsSignal batches) \<longleftrightarrow> RoomsSignal \<in> set (concat batches)"
    by (induction batches) auto
  moreover have "server_ok (pc, sv', w')"
    by (rule server_machine.runs_inv [OF r]) (simp add: server_ok_def assms(1))
  ultimately show ?thesis
    using r rooms_thread.for_events_flag [OF e] assms(2) by (simp add: server_ok_def)
qed

theorem rooms_thread_runs_witness:
  "\<exists>sv w. runs server_step (Polling, sample_server, queued 6 [message I_MOVE (IMoveB (Fin 14) (Fin 1)),
      message I_MOVE (IMoveB (Fin 13) (Fin 1))] server_world)
      [RoomsPoll (RoomsReady 13), RoomsPoll RoomsSignal, RoomsPoll (RoomsReady 13)] (Polling, sv, w) \<and> ended sv"
proof -
  let ?w = "queued 6 [message I_MOVE (IMoveB (Fin 14) (Fin 1)), message I_MOVE (IMoveB (Fin 13) (Fin 1))] server_world"
  let ?b = "[[RoomsReady 13], [RoomsSignal, RoomsReady 13], [RoomsReady 0]]"
  have "yieldsO (runRooms ?b (sample_server, ?w)) (\<lambda>_. True)" by code_simp
  then obtain sv w where r: "runRooms ?b (sample_server, ?w) = Some (Inr (sv, w))" by (auto elim!: yieldsOE)
  have "\<not> ended sample_server" by (simp add: sample_server_def)
  from rooms_thread_runs [OF queued_inv [OF sample_server_inv] this r, of Polling] show ?thesis by auto
qed

end
