(* ===== verification/Raylib.thy ===== *)
theory Raylib
  imports TileMap
begin

section \<open>What the client uses of raylib\<close>

text \<open>
  The graphics library is not part of the repository. What the client draws and whose position
  depends on the game is a list of \<open>DrawRectangle\<close> calls in the order they are made; texts, buttons and the
  background are left out. Input is a record of arbitrary functions of the number \<open>frames\<close> of frames
  shown, since raylib polls the devices in \<open>EndDrawing\<close>, and the test of a point against a rectangle
  is an arbitrary function too: nothing is assumed of any of them. The key codes are those of
  \<open>raylib.h\<close>; the left mouse button is the only one the client asks for. The floats of a rectangle are rationals:
  the client computes them from 800 by 450 with results that are exact.
\<close>

datatype Color = NoColor | RED | GREEN | BLUE | YELLOW | BLACK | GRAY | WHITE

datatype draw = DrawRectangle int int int int Color

record Rectangle =
  rect_x :: rat
  rect_y :: rat
  rect_width :: rat
  rect_height :: rat

definition rectangle :: "rat \<Rightarrow> rat \<Rightarrow> rat \<Rightarrow> rat \<Rightarrow> Rectangle" where
  "rectangle x y wd h = \<lparr>rect_x = x, rect_y = y, rect_width = wd, rect_height = h\<rparr>"

record ui =
  frames :: nat
  WindowShouldClose :: "nat \<Rightarrow> bool"
  IsKeyPressed :: "nat \<Rightarrow> int \<Rightarrow> bool"
  GetKeyPressed :: "nat \<Rightarrow> int"
  IsMouseButtonPressed :: "nat \<Rightarrow> bool"
  GetMousePosition :: "nat \<Rightarrow> rat \<times> rat"
  CheckCollisionPointRec :: "rat \<times> rat \<Rightarrow> Rectangle \<Rightarrow> bool"

definition EndDrawing :: "ui \<Rightarrow> ui" where
  "EndDrawing u = u\<lparr>frames := Suc (frames u)\<rparr>"

definition clicked :: "ui \<Rightarrow> Rectangle \<Rightarrow> bool" where
  "clicked u r \<longleftrightarrow> IsMouseButtonPressed u (frames u) \<and>
    CheckCollisionPointRec u (GetMousePosition u (frames u)) r"

definition pressed :: "ui \<Rightarrow> int \<Rightarrow> bool" where
  "pressed u k \<longleftrightarrow> IsKeyPressed u (frames u) k"

abbreviation (input) KEY_SPACE :: int where "KEY_SPACE \<equiv> 32"
abbreviation (input) KEY_ESCAPE :: int where "KEY_ESCAPE \<equiv> 256"
abbreviation (input) KEY_ENTER :: int where "KEY_ENTER \<equiv> 257"
abbreviation (input) KEY_BACKSPACE :: int where "KEY_BACKSPACE \<equiv> 259"
abbreviation (input) KEY_RIGHT :: int where "KEY_RIGHT \<equiv> 262"
abbreviation (input) KEY_LEFT :: int where "KEY_LEFT \<equiv> 263"
abbreviation (input) KEY_DOWN :: int where "KEY_DOWN \<equiv> 264"
abbreviation (input) KEY_UP :: int where "KEY_UP \<equiv> 265"

subsection \<open>Pixels\<close>

text \<open>The result of an \<open>int\<close> operation that must not overflow.\<close>

definition int_result :: "int \<Rightarrow> int res" where
  "int_result i = (if int32_ok i then Inr i else Inl (Undefined ''signed overflow''))"

lemma int_result_Inr [simp]: "int_result i = Inr j \<longleftrightarrow> int32_ok i \<and> j = i"
  by (auto simp: int_result_def)

lemma int_result_ok [simp]: "int32_ok i \<Longrightarrow> int_result i = Inr i"
  by simp

text \<open>\<open>v * map->offset + s + d\<close>.\<close>

definition pixel :: "tmap \<Rightarrow> int \<Rightarrow> int \<Rightarrow> int \<Rightarrow> int res" where
  "pixel m v s d = andThen (int_result (v * offset m)) (\<lambda>a.
    andThen (int_result (a + s)) (\<lambda>b. int_result (b + d)))"

text \<open>The square of a tile, \<open>inset\<close> pixels smaller on every side.\<close>

definition draw_square :: "tmap \<Rightarrow> int \<Rightarrow> int \<Rightarrow> int \<Rightarrow> Color \<Rightarrow> draw res" where
  "draw_square m x y inset c =
    andThen (pixel m x (start_x m) inset) (\<lambda>px.
    andThen (pixel m y (start_y m) inset) (\<lambda>py.
    andThen (int_result (tsize m - 2 * inset)) (\<lambda>sz.
      Inr (DrawRectangle px py sz sz c))))"

text \<open>The map of the client: 25 pixels a tile in a window of 800 by 450.\<close>

definition client_map :: tmap where
  "client_map = \<lparr>grid = initial_grid, cols = 17, rows = 11, offset = 33, start_x = 136,
    start_y = 60, tsize = 25\<rparr>"

lemma Map_new_client: "Map_new 25 800 450 = Inr client_map"
proof -
  have "truncate_rat (of_int (25 * 4) / 3) = 33" by (simp add: truncate_rat_def floor_eq_iff)
  then show ?thesis
    by (simp add: Map_new_def client_map_def Let_def truncate_rat_def int32_ok_def to_int32_def)
qed

text \<open>What is drawn of the board's size: the geometry of a map does not change during a game.\<close>

definition client_geometry :: "tmap \<Rightarrow> bool" where
  "client_geometry m \<longleftrightarrow> cols m = 17 \<and> rows m = 11 \<and> offset m = 33 \<and> start_x m = 136 \<and>
    start_y m = 60 \<and> tsize m = 25"

lemma client_map_geometry [simp]: "client_geometry client_map"
  by (simp add: client_geometry_def client_map_def)

lemma client_map_wf [simp]: "map_wf client_map"
  using Map_new_wf [OF Map_new_client] by simp

lemma pixel_board:
  assumes "client_geometry m" "\<bar>v\<bar> \<le> 1000000" "s \<in> {start_x m, start_y m}" "\<bar>d\<bar> \<le> 25"
  shows "pixel m v s d = Inr (33 * v + s + d)"
proof -
  have s: "s = 136 \<or> s = 60" "offset m = 33" using assms(1,3) by (auto simp: client_geometry_def)
  have "int32_ok (v * 33)" "int32_ok (v * 33 + s)" "int32_ok (v * 33 + s + d)"
    using assms(2,4) s(1) unfolding int32_ok_def by auto
  then show ?thesis using s(2) by (simp add: pixel_def)
qed

lemma draw_square_board:
  assumes "client_geometry m" "\<bar>x\<bar> \<le> 1000000" "\<bar>y\<bar> \<le> 1000000" "0 \<le> inset" "inset \<le> 12"
  shows "draw_square m x y inset c =
    Inr (DrawRectangle (33 * x + 136 + inset) (33 * y + 60 + inset) (25 - 2 * inset) (25 - 2 * inset) c)"
proof -
  have "start_x m = 136" "start_y m = 60" "tsize m = 25"
    using assms(1) by (auto simp: client_geometry_def)
  moreover have "int32_ok (25 - 2 * inset)" using assms(4,5) by (simp add: int32_ok_def)
  ultimately show ?thesis
    using pixel_board [OF assms(1,2), of "start_x m" inset]
      pixel_board [OF assms(1,3), of "start_y m" inset] assms(4,5)
    by (simp add: draw_square_def)
qed

end
