(* ===== verification/Boomberman.thy ===== *)
theory Boomberman
  imports Raylib World
begin

section \<open>The client's player (\<open>client/Boomberman.h\<close>, \<open>client/Boomberman.cpp\<close>)\<close>

text \<open>
  A player as a client sees it. \<open>position\<close> is the array of two \<open>int\<close>s the object points to, \<open>None\<close>
  once \<open>cleanUp\<close> has freed it; \<open>bm_state\<close> is 1 while the player is shown and -1 while it blinks
  away; \<open>iframes\<close> counts the frames it goes on blinking for. The object has no destructor and its
  copies are shallow, so exactly one object of a vector owns an array. \<open>iframes\<close> is only ever set to
  90 and counted down to 0, so its decrement is left unchecked, unlike that of \<open>health\<close>.
\<close>

record boomberman =
  position :: "(int \<times> int) option"
  bm_state :: int
  bm_animation_start :: int
  iframes :: int
  health :: int
  bm_color :: Color
  pseudonim :: string

definition Boomberman_new :: "string \<Rightarrow> Color \<Rightarrow> int \<Rightarrow> int \<Rightarrow> int \<Rightarrow> boomberman" where
  "Boomberman_new name c x y h =
    \<lparr>position = Some (x, y), bm_state = 1, bm_animation_start = 0, iframes = 0, health = h,
     bm_color = c, pseudonim = name\<rparr>"

definition getBoombermanPos :: "boomberman \<Rightarrow> (int \<times> int) res" where
  "getBoombermanPos b = (case position b of
     None \<Rightarrow> Inl (Undefined ''use of a freed position'') | Some p \<Rightarrow> Inr p)"

definition setBoombermanPos :: "int \<Rightarrow> int \<Rightarrow> boomberman \<Rightarrow> boomberman res" where
  "setBoombermanPos x y b = (case position b of
     None \<Rightarrow> Inl (Undefined ''use of a freed position'')
   | Some _ \<Rightarrow> Inr (b\<lparr>position := Some (x, y)\<rparr>))"

text \<open>
  \<open>curr_pos\<close> holds floats that are converted \<open>int\<close>s: the model keeps the integer and rounds the sum
  (\<open>float_of_int\<close>).
\<close>

definition move :: "tmap \<Rightarrow> int \<times> int \<Rightarrow> int \<Rightarrow> int \<Rightarrow> boomberman \<Rightarrow> (bool \<times> boomberman) res" where
  "move m curr_pos x y b =
    (let new_x = float_of_int (fst curr_pos + x); new_y = float_of_int (snd curr_pos + y) in
     andThen (to_int32 new_x) (\<lambda>ix. andThen (to_int32 new_y) (\<lambda>iy.
     andThen (getSquareState m ix iy) (\<lambda>is_wall.
       if is_wall \<noteq> 1 \<and> is_wall \<noteq> 2
       then andThen (setBoombermanPos ix iy b) (\<lambda>b'. Inr (True, b'))
       else Inr (False, b)))))"

definition cleanUp :: "boomberman \<Rightarrow> boomberman res" where
  "cleanUp b = (case position b of
     None \<Rightarrow> Inl (Undefined ''position freed twice'') | Some _ \<Rightarrow> Inr (b\<lparr>position := None\<rparr>))"

definition decrementIframes :: "boomberman \<Rightarrow> boomberman" where
  "decrementIframes b =
    (if iframes b \<noteq> 0 then b\<lparr>iframes := iframes b - 1\<rparr> else b\<lparr>bm_state := 1\<rparr>)"

definition gotHit :: "int \<Rightarrow> boomberman \<Rightarrow> boomberman res" where
  "gotHit time b = andThen (int_result (health b - 1)) (\<lambda>h.
    Inr (b\<lparr>health := h, bm_animation_start := time, iframes := 90\<rparr>))"

definition animateHit :: "boomberman \<Rightarrow> world \<Rightarrow> boomberman \<times> world" where
  "animateHit b w = (let (now, w1) = TimestampMillis w in
    (if iframes b = 0 then b
     else if now - bm_animation_start b \<ge> 150
       then b\<lparr>bm_state := bm_state b * - 1, bm_animation_start := now\<rparr> else b, w1))"

definition getState :: "boomberman \<Rightarrow> int" where
  "getState b = bm_state b"

subsection \<open>Well-formed players\<close>

text \<open>What every operation but \<open>cleanUp\<close> keeps.\<close>

definition boomberman_wf :: "boomberman \<Rightarrow> bool" where
  "boomberman_wf b \<longleftrightarrow> position b \<noteq> None \<and> (bm_state b = 1 \<or> bm_state b = - 1) \<and>
    0 \<le> iframes b \<and> iframes b \<le> 90"

lemma Boomberman_new_wf [simp]: "boomberman_wf (Boomberman_new name c x y h)"
  by (simp add: boomberman_wf_def Boomberman_new_def)

lemma Boomberman_new_simps [simp]:
  "position (Boomberman_new name c x y h) = Some (x, y)"
  "health (Boomberman_new name c x y h) = h"
  "iframes (Boomberman_new name c x y h) = 0"
  "bm_color (Boomberman_new name c x y h) = c"
  "pseudonim (Boomberman_new name c x y h) = name"
  by (simp_all add: Boomberman_new_def)

lemma setBoombermanPos_Inr:
  "setBoombermanPos x y b = Inr b' \<longleftrightarrow> position b \<noteq> None \<and> b' = b\<lparr>position := Some (x, y)\<rparr>"
  by (auto simp: setBoombermanPos_def split: option.splits)

lemma getBoombermanPos_Inr: "getBoombermanPos b = Inr p \<longleftrightarrow> position b = Some p"
  by (auto simp: getBoombermanPos_def split: option.splits)

lemma setBoombermanPos_wf: "setBoombermanPos x y b = Inr b' \<Longrightarrow> boomberman_wf b \<Longrightarrow> boomberman_wf b'"
  by (auto simp: setBoombermanPos_Inr boomberman_wf_def)

lemma gotHit_Inr:
  "gotHit t b = Inr b' \<longleftrightarrow> int32_ok (health b - 1) \<and>
    b' = b\<lparr>health := health b - 1, bm_animation_start := t, iframes := 90\<rparr>"
  by (auto simp: gotHit_def)

lemma gotHit_wf: "gotHit t b = Inr b' \<Longrightarrow> boomberman_wf b \<Longrightarrow> boomberman_wf b'"
  by (auto simp: gotHit_Inr boomberman_wf_def)

text \<open>One frame of a player: \<open>animateHit\<close>, then \<open>decrementIframes\<close>.\<close>

definition player_frame :: "boomberman \<Rightarrow> world \<Rightarrow> boomberman \<times> world" where
  "player_frame b w = (let (b1, w1) = animateHit b w in (decrementIframes b1, w1))"

lemma player_frame_simps:
  assumes "player_frame b w = (b', w')"
  shows "position b' = position b" "health b' = health b" "pseudonim b' = pseudonim b"
    "bm_color b' = bm_color b" "w' = w\<lparr>tick := Suc (tick w)\<rparr>"
    "iframes b' = (if iframes b = 0 then 0 else iframes b - 1)"
    "iframes b = 0 \<Longrightarrow> bm_state b' = 1"
    "bm_state b' = 1 \<or> bm_state b' = bm_state b \<or> bm_state b' = - bm_state b"
  using assms
  by (auto simp: player_frame_def animateHit_def decrementIframes_def TimestampMillis_def Let_def
      split: if_splits)

lemma player_frame_wf:
  assumes "player_frame b w = (b', w')" "boomberman_wf b"
  shows "boomberman_wf b'"
  using player_frame_simps [OF assms(1)] assms(2) unfolding boomberman_wf_def by auto

text \<open>A number of frames.\<close>

primrec player_frames :: "nat \<Rightarrow> boomberman \<times> world \<Rightarrow> boomberman \<times> world" where
  "player_frames 0 s = s"
| "player_frames (Suc n) s = player_frames n (player_frame (fst s) (snd s))"

lemma player_frames_iframes:
  "iframes b = int k \<Longrightarrow> iframes (fst (player_frames n (b, w))) = int (k - n)"
proof (induction n arbitrary: b w k)
  case 0
  then show ?case by simp
next
  case (Suc n)
  obtain b' w' where f: "player_frame b w = (b', w')" by fastforce
  have "iframes b' = int (k - 1)" using player_frame_simps(6) [OF f] Suc.prems by (cases k) auto
  from Suc.IH [OF this, of w'] show ?case by (simp add: f)
qed

lemma player_frames_steady:
  "iframes b = 0 \<Longrightarrow> 0 < n \<Longrightarrow> bm_state (fst (player_frames n (b, w))) = 1"
proof (induction n arbitrary: b w)
  case 0
  then show ?case by simp
next
  case (Suc n)
  obtain b' w' where f: "player_frame b w = (b', w')" by fastforce
  have z: "iframes b' = 0" "bm_state b' = 1"
    using player_frame_simps(6,7) [OF f] Suc.prems(1) by auto
  show ?case
    using Suc.IH [OF z(1), of w'] z(2) f by (cases n) auto
qed

lemma player_frames_append: "player_frames (n + k) s = player_frames k (player_frames n s)"
  by (induction n arbitrary: s) simp_all

text \<open>
  A hit ends: whatever the clock says, a player that has just been hit counts one frame of its
  90 down at each frame, and from the 91st frame on, until it is hit again, it is shown steadily.
\<close>

theorem hit_blinks_90_frames:
  assumes "gotHit t b = Inr b'"
  shows "iframes (fst (player_frames n (b', w))) = int (90 - n) \<and>
    (90 < n \<longrightarrow> bm_state (fst (player_frames n (b', w))) = 1)"
proof -
  have k: "iframes b' = int 90" using assms by (simp add: gotHit_Inr)
  have "bm_state (fst (player_frames n (b', w))) = 1" if "90 < n"
  proof -
    let ?s = "player_frames 90 (b', w)"
    have "iframes (fst ?s) = 0" using player_frames_iframes [OF k, of 90 w] by simp
    moreover have "player_frames n (b', w) = player_frames (n - 90) (fst ?s, snd ?s)"
      using player_frames_append [of 90 "n - 90"] that by simp
    ultimately show ?thesis
      using player_frames_steady [of "fst ?s" "n - 90" "snd ?s"] that by simp
  qed
  then show ?thesis using player_frames_iframes [OF k] by blast
qed

theorem hit_blinks_90_frames_witness:
  "\<exists>b'. gotHit 1000 (Boomberman_new ''a'' RED 1 1 3) = Inr b' \<and> health b' = 2 \<and>
    iframes (fst (player_frames 50 (b', sample_world))) = 40 \<and>
    bm_state (fst (player_frames 91 (b', sample_world))) = 1"
proof -
  obtain b' where b: "gotHit 1000 (Boomberman_new ''a'' RED 1 1 3) = Inr b'" "health b' = 2"
    by (simp add: gotHit_def int32_ok_def)
  show ?thesis
    using hit_blinks_90_frames [OF b(1), of 50 sample_world]
      hit_blinks_90_frames [OF b(1), of 91 sample_world] b by auto
qed

subsection \<open>Moves\<close>

lemma move_Inr:
  "move m c x y b = Inr (ok, b') \<longleftrightarrow>
    (let nx = float_of_int (fst c + x); ny = float_of_int (snd c + y) in
      int32_ok nx \<and> int32_ok ny \<and> in_array nx ny \<and>
      (if tile m nx ny \<noteq> 1 \<and> tile m nx ny \<noteq> 2
       then ok \<and> position b \<noteq> None \<and> b' = b\<lparr>position := Some (nx, ny)\<rparr>
       else \<not> ok \<and> b' = b))"
proof -
  let ?nx = "float_of_int (fst c + x)" and ?ny = "float_of_int (snd c + y)"
  consider "\<not> int32_ok ?nx" | "int32_ok ?nx" "\<not> int32_ok ?ny"
    | "int32_ok ?nx" "int32_ok ?ny" "\<not> in_array ?nx ?ny"
    | "int32_ok ?nx" "int32_ok ?ny" "in_array ?nx ?ny" by blast
  then show ?thesis
  proof cases
    case 4
    then show ?thesis
      by (cases "position b") (auto simp: move_def Let_def getSquareState_in setBoombermanPos_def)
  qed (simp_all add: move_def Let_def to_int32_def getSquareState_def)
qed

lemma small_float: "\<bar>i\<bar> \<le> 1000 \<Longrightarrow> float_of_int i = i"
  by (rule float_of_int_exact) simp

lemma in_array_float:
  assumes "in_array x y" "\<bar>dx\<bar> \<le> 1" "\<bar>dy\<bar> \<le> 1"
  shows "float_of_int (x + dx) = x + dx" "float_of_int (y + dy) = y + dy"
    "float_of_int x = x" "float_of_int y = y"
  using assms unfolding in_array_def by (auto intro: small_float)

lemma in_array_int32: "in_array x y \<Longrightarrow> int32_ok x \<and> int32_ok y"
  by (simp add: in_array_def int32_ok_def)

text \<open>From inside the walls a step is always defined.\<close>

lemma move_from_interior:
  assumes "map_wf m" "interior x y" "position b = Some p" "\<bar>dx\<bar> + \<bar>dy\<bar> = 1"
  shows "move m (x, y) dx dy b =
    (if tile m (x + dx) (y + dy) = 0
     then Inr (True, b\<lparr>position := Some (x + dx, y + dy)\<rparr>) else Inr (False, b))"
proof -
  have a: "in_array (x + dx) (y + dy)" using interior_neighbour [OF assms(2,4)] .
  have f: "float_of_int (x + dx) = x + dx" "float_of_int (y + dy) = y + dy"
    using in_array_float [of x y dx dy] interior_in_array [OF assms(2)] assms(4) by simp_all
  show ?thesis
    using f in_array_int32 [OF a] map_wf_tile [OF assms(1) a] assms(3)
    by (auto simp: move_def Let_def getSquareState_in [OF a] setBoombermanPos_def)
qed

end
