(* ===== verification/EntityHandler.thy ===== *)
theory EntityHandler
  imports Boomberman Bomb
begin

section \<open>The entities of the client (\<open>client/EntityHandler.h\<close>, \<open>client/EntityHandler.cpp\<close>)\<close>

text \<open>
  Three vectors: the players, the bombs and the tiles on fire. A pointer or an iterator into a
  vector is modelled by the index of its slot, and a slot past the end of the vector holds a
  destroyed object. That is more than the C++ standard promises after an \<open>erase\<close> (every iterator
  and reference at or behind the erased element is invalid): what is undefined in the model is
  undefined in C++, and what is defined is what the compiled vector does, which the client
  relies on.
\<close>

record entity_handler =
  eplayers :: "boomberman list"
  ebombs :: "bomb list"
  theFloorIsLava :: "TileOnFire list"

definition EntityHandler_new :: entity_handler where
  "EntityHandler_new = \<lparr>eplayers = [], ebombs = [], theFloorIsLava = []\<rparr>"

definition placeBomb ::
  "int \<Rightarrow> int \<Rightarrow> int \<Rightarrow> int \<Rightarrow> int \<Rightarrow> int \<Rightarrow> bool \<Rightarrow> entity_handler \<Rightarrow> entity_handler" where
  "placeBomb x y expl sz timestamp t atomic eh =
    eh\<lparr>ebombs := ebombs eh @ [Bomb_new x y expl sz timestamp (of_int t) atomic]\<rparr>"

subsection \<open>Players and fire on the screen\<close>

definition draw_player :: "tmap \<Rightarrow> boomberman \<Rightarrow> world \<Rightarrow> (draw list \<times> boomberman \<times> world) res" where
  "draw_player m p w =
    (let (p1, w1) = animateHit p w; p2 = decrementIframes p1 in
     if getState p2 = 1 \<and> health p2 \<ge> 0 then
       andThen (getBoombermanPos p2) (\<lambda>(x, y).
       andThen (draw_square m x y 3 (bm_color p2)) (\<lambda>d. Inr ([d], p2, w1)))
     else Inr ([], p2, w1))"

primrec draw_players ::
  "tmap \<Rightarrow> boomberman list \<Rightarrow> world \<Rightarrow> (draw list \<times> boomberman list \<times> world) res" where
  "draw_players m [] w = Inr ([], [], w)"
| "draw_players m (p # ps) w =
    andThen (draw_player m p w) (\<lambda>(ds, p', w1).
    andThen (draw_players m ps w1) (\<lambda>(ds', ps', w2). Inr (ds @ ds', p' # ps', w2)))"

definition drawPlayers ::
  "tmap \<Rightarrow> entity_handler \<Rightarrow> world \<Rightarrow> (draw list \<times> entity_handler \<times> world) res" where
  "drawPlayers m eh w = andThen (draw_players m (eplayers eh) w) (\<lambda>(ds, ps, w1).
    Inr (ds, eh\<lparr>eplayers := ps\<rparr>, w1))"

definition drawFire :: "tmap \<Rightarrow> entity_handler \<Rightarrow> draw list res" where
  "drawFire m eh = iterE (\<lambda>t ds.
      andThen (draw_square m (fire_x t) (fire_y t) 0 RED) (\<lambda>d. Inr (ds @ [d])))
    (theFloorIsLava eh) []"

subsection \<open>Bombs\<close>

text \<open>
  \<open>explodeBomb\<close> is given a bomb by its slot. The \<open>printf\<close> after the \<open>erase\<close> reads that slot again.
\<close>

definition same_bomb :: "bomb \<Rightarrow> bomb \<Rightarrow> bool" where
  "same_bomb b c \<longleftrightarrow> pos_x c = pos_x b \<and> pos_y c = pos_y b \<and> plant_time c = plant_time b"

definition explodeBomb ::
  "nat \<Rightarrow> entity_handler \<times> tmap \<times> world \<Rightarrow> (int \<times> entity_handler \<times> tmap \<times> world) res" where
  "explodeBomb i s = (case s of (eh, m, w) \<Rightarrow>
    if length (ebombs eh) \<le> i then Inl (Undefined ''use of a destroyed bomb'')
    else let b = ebombs eh ! i in
      case find_index (same_bomb b) (ebombs eh) of
        None \<Rightarrow> Inr (1, eh, m, w)
      | Some it \<Rightarrow>
          andThen (boom (\<lambda>n. gtime w (gtick w + n)) b m) (\<lambda>(tilesExploded, m').
          let eh1 = eh\<lparr>theFloorIsLava := tilesExploded @ theFloorIsLava eh,
                ebombs := erase_at it (ebombs eh)\<rparr> in
          if length (ebombs eh1) \<le> i then Inl (Undefined ''use of a destroyed bomb'')
          else Inr (0, eh1, m', w\<lparr>gtick := gtick w + length tilesExploded\<rparr>)))"

definition bomb_color :: "bomb \<Rightarrow> Color" where
  "bomb_color b = (if bstate b = - 1 then BLACK else if is_atomic b then GREEN else RED)"

text \<open>
  The loop is a range \<open>for\<close>: its end is the end the vector had at the start, whatever
  \<open>explodeBomb\<close> erases meanwhile.
\<close>

definition draw_bomb ::
  "nat \<Rightarrow> draw list \<times> entity_handler \<times> tmap \<times> world \<Rightarrow>
    (draw list \<times> entity_handler \<times> tmap \<times> world) res" where
  "draw_bomb i s = (case s of (ds, eh, m, w) \<Rightarrow>
    if length (ebombs eh) \<le> i then Inl (Undefined ''use of a destroyed bomb'')
    else let b = ebombs eh ! i; (now, w1) = TimestampMillis w in
      if \<not> ShouldExplode now b then
        (let (now2, w2) = TimestampMillis w1; b' = animate now2 b in
         andThen (draw_square m (pos_x b') (pos_y b') 7 (bomb_color b')) (\<lambda>d.
           Inr (ds @ [d], eh\<lparr>ebombs := (ebombs eh)[i := b']\<rparr>, m, w2)))
      else andThen (explodeBomb i (eh, m, w1)) (\<lambda>(_, eh1, m1, w2). Inr (ds, eh1, m1, w2)))"

definition drawBombs ::
  "entity_handler \<times> tmap \<times> world \<Rightarrow> (draw list \<times> entity_handler \<times> tmap \<times> world) res" where
  "drawBombs s = (case s of (eh, m, w) \<Rightarrow> iterE draw_bomb [0..<length (ebombs eh)] ([], eh, m, w))"

subsection \<open>Extinguishing\<close>

function tryExtinguish_loop :: "nat \<Rightarrow> TileOnFire list \<Rightarrow> world \<Rightarrow> TileOnFire list \<times> world" where
  "tryExtinguish_loop i ts w =
    (if i < length ts then
       (let now = gtime w (gtick w); w1 = w\<lparr>gtick := Suc (gtick w)\<rparr> in
        tryExtinguish_loop (Suc i)
          (if shouldCalmDown now (ts ! i) then erase_at i ts else ts) w1)
     else (ts, w))"
  by pat_completeness auto

termination tryExtinguish_loop
  by (relation "measure (\<lambda>(i, ts, w). length ts - i)") (auto simp: length_erase_at)

declare tryExtinguish_loop.simps [simp del]

definition tryExtinguish :: "entity_handler \<times> world \<Rightarrow> entity_handler \<times> world" where
  "tryExtinguish s = (case s of (eh, w) \<Rightarrow>
    let (ts, w1) = tryExtinguish_loop 0 (theFloorIsLava eh) w in (eh\<lparr>theFloorIsLava := ts\<rparr>, w1))"

end
