(* ===== verification/RoomBox.thy ===== *)
theory RoomBox
  imports Raylib
begin

section \<open>The rooms of the menu (\<open>client/RoomBox.h\<close>, \<open>client/RoomBox.cpp\<close>)\<close>

text \<open>A rectangle on the screen with the name of a room and the number of its players.\<close>

record RoomBox =
  box_rect :: Rectangle
  label :: string
  players_in :: int

definition RoomBox_new :: "rat \<Rightarrow> rat \<Rightarrow> rat \<Rightarrow> rat \<Rightarrow> string \<Rightarrow> int \<Rightarrow> RoomBox" where
  "RoomBox_new x y wd h l n = \<lparr>box_rect = rectangle x y wd h, label = l, players_in = n\<rparr>"

end
