(* ===== verification/ServerHandler.thy ===== *)
theory ServerHandler
  imports EntityHandler Connection RoomBox
begin

section \<open>The client's side of the protocol (\<open>client/ServerHandler.h\<close>, \<open>client/ServerHandler.cpp\<close>)\<close>

text \<open>
  The connection to the server, what the client does with each message, the menu before
  the game and the wait for it to start. The result of a function that may wait forever is an
  option, \<open>None\<close> when it does. The user is the record \<open>ui\<close>. \<open>exit(0)\<close> and \<open>exit(1)\<close> are results
  of their own. What is only printed or only drawn before the game is left out. \<open>connect\<close> answers 0 or
  the \<open>errno\<close> of its failure, \<open>poll\<close> -1 or the events of its one descriptor.
\<close>

abbreviation (input) EINPROGRESS :: int where "EINPROGRESS \<equiv> 115"

record server_handler =
  sh_start_x :: int
  sh_start_y :: int
  sh_start_color :: Color
  polling_fd :: int
  sh_conn :: int
  winner :: string

definition ServerHandler_new :: "world \<Rightarrow> (server_handler \<times> world) res" where
  "ServerHandler_new w =
    (let (s, w1) = sys_open SocketCreate w in
     andThen (Connection_new s w1) (\<lambda>(p, w2).
     andThen (conn_sock p w2) (\<lambda>fd.
       Inr (\<lparr>sh_start_x = 0, sh_start_y = 0, sh_start_color = NoColor, polling_fd = fd,
         sh_conn = p, winner = []\<rparr>, w2))))"

text \<open>\<open>htons\<close> keeps the low 16 bits of the port.\<close>

definition connect2Server :: "string \<Rightarrow> int \<Rightarrow> server_handler \<Rightarrow> world \<Rightarrow> world res" where
  "connect2Server ip port sh w =
    andThen (conn_sock (sh_conn sh) w) (\<lambda>s.
    let (r, w1) = sys_call (Connect s ip (port mod 65536)) w in
    if r \<noteq> 0 then (if r \<noteq> EINPROGRESS then Inl (Exit 1) else Inr w1) else Inr w1)"

subsection \<open>Messages of a running game\<close>

definition findPlayer :: "entity_handler \<Rightarrow> string \<Rightarrow> nat option" where
  "findPlayer eh name = find_index (\<lambda>p. pseudonim p = name) (eplayers eh)"

definition place_player :: "nat \<Rightarrow> f32 \<Rightarrow> f32 \<Rightarrow> entity_handler \<Rightarrow> entity_handler res" where
  "place_player i x y eh =
    andThen (trunc_to_int x) (\<lambda>ix. andThen (trunc_to_int y) (\<lambda>iy.
    andThen (setBoombermanPos ix iy (eplayers eh ! i)) (\<lambda>b.
      Inr (eh\<lparr>eplayers := (eplayers eh)[i := b]\<rparr>))))"

definition handleMessage ::
  "GameMessage \<Rightarrow> server_handler \<times> entity_handler \<Rightarrow> (server_handler \<times> entity_handler) res" where
  "handleMessage m s = (case s of (sh, eh) \<Rightarrow>
    (case mtype m of
      OTHER_MOVE \<Rightarrow>
        (let (name, x, y) = msg_othermove m in
         if name = [] then Inr s
         else case findPlayer eh name of
           None \<Rightarrow> Inr s
         | Some i \<Rightarrow> andThen (place_player i x y eh) (\<lambda>eh'. Inr (sh, eh')))
    | OTHER_LEAVE \<Rightarrow>
        (case findPlayer eh (msg_otherleave m) of
           None \<Rightarrow> Inr s
         | Some i \<Rightarrow> Inr (sh, eh\<lparr>eplayers := erase_at i (eplayers eh)\<rparr>))
    | GOT_HIT \<Rightarrow>
        (let (name, lives, time) = msg_gothit m in
         case findPlayer eh name of
           None \<Rightarrow> Inr s
         | Some i \<Rightarrow> andThen (gotHit time (eplayers eh ! i)) (\<lambda>b.
             let ps = (eplayers eh)[i := b] in
             Inr (sh, eh\<lparr>eplayers := if lives \<le> 0 then erase_at i ps else ps\<rparr>)))
    | OTHER_BOMB_PLACE \<Rightarrow>
        (let (name, time, x, y) = msg_otherbombplace m in
         andThen (trunc_to_int x) (\<lambda>ix. andThen (trunc_to_int y) (\<lambda>iy.
           Inr (sh, if name = ''Server'' then placeBomb ix iy 9 25 time 3 True eh
             else placeBomb ix iy 3 25 time 3 False eh))))
    | MOVEMENT_CORRECTION \<Rightarrow>
        (let (x, y) = msg_movementcorrection m in
         if eplayers eh = [] then Inl (Undefined ''players[0] of an empty vector'')
         else andThen (place_player 0 x y eh) (\<lambda>eh'. Inr (sh, eh')))
    | GAME_WON \<Rightarrow> Inr (sh\<lparr>winner := msg_gamewon m\<rparr>, eh)
    | _ \<Rightarrow> Inr s))"

text \<open>
  One round of the reader thread's loop: \<open>poll\<close>, one \<open>Receive\<close>, then as many as there are
  messages in the queue.
\<close>

type_synonym client_net = "server_handler \<times> entity_handler \<times> world"

definition receive_one :: "client_net \<Rightarrow> client_net res option" where
  "receive_one s = (case s of (sh, eh, w) \<Rightarrow>
    andThenO (Receive (sh_conn sh) w) (\<lambda>(r, w1). case r of
      None \<Rightarrow> Some (Inl (Exit 0))
    | Some m \<Rightarrow> Some (andThen (handleMessage m (sh, eh)) (\<lambda>(sh', eh'). Inr (sh', eh', w1)))))"

partial_function (option) handle_queued :: "client_net \<Rightarrow> client_net res option" where
  "handle_queued s =
    (case HasMoreMessages (sh_conn (fst s)) (snd (snd s)) of
       Inl e \<Rightarrow> Some (Inl e)
     | Inr again \<Rightarrow> if \<not> again then Some (Inr s)
         else (case receive_one s of
           None \<Rightarrow> None
         | Some (Inl e) \<Rightarrow> Some (Inl e)
         | Some (Inr t) \<Rightarrow> handle_queued t))"

definition receive_round :: "client_net \<Rightarrow> client_net res option" where
  "receive_round s = (case s of (sh, eh, w) \<Rightarrow>
    let (ready, w1) = sys_call (PollOn (polling_fd sh)) w in
    if ready = - 1 then Some (Inl (Exit 1))
    else if odd ready then andThenO (receive_one (sh, eh, w1)) handle_queued
    else Some (Inr (sh, eh, w1)))"

subsection \<open>Waiting for the game\<close>

definition setPlayerParams :: "GamePlayer \<Rightarrow> server_handler \<Rightarrow> server_handler" where
  "setPlayerParams pl sh = (case pl of GamePlayer _ c \<Rightarrow>
    (case c of
      PLAYER_RED \<Rightarrow> sh\<lparr>sh_start_x := 1, sh_start_y := 1, sh_start_color := RED\<rparr>
    | PLAYER_GREEN \<Rightarrow> sh\<lparr>sh_start_x := 15, sh_start_y := 1, sh_start_color := GREEN\<rparr>
    | PLAYER_BLUE \<Rightarrow> sh\<lparr>sh_start_x := 1, sh_start_y := 9, sh_start_color := BLUE\<rparr>
    | PLAYER_YELLOW \<Rightarrow> sh\<lparr>sh_start_x := 15, sh_start_y := 9, sh_start_color := YELLOW\<rparr>
    | _ \<Rightarrow> sh))"

definition addPlayer ::
  "GamePlayer \<Rightarrow> server_handler \<times> entity_handler \<Rightarrow> server_handler \<times> entity_handler" where
  "addPlayer pl s = (case s of (sh, eh) \<Rightarrow>
    let sh' = setPlayerParams pl sh; name = (case pl of GamePlayer u _ \<Rightarrow> u) in
    (sh', eh\<lparr>eplayers := eplayers eh @
      [Boomberman_new name (sh_start_color sh') (sh_start_x sh') (sh_start_y sh') 3]\<rparr>))"

definition joinRoom ::
  "GameMessage \<Rightarrow> server_handler \<times> entity_handler \<Rightarrow> server_handler \<times> entity_handler" where
  "joinRoom m s = foldl (\<lambda>s pl. addPlayer pl s) s (msg_welcometoroom m)"

text \<open>The screen with the error and its exit button.\<close>

partial_function (option) error_screen :: "ui \<Rightarrow> unit res option" where
  "error_screen u =
    (if clicked u (rectangle 10 10 80 30) then Some (Inl (Exit 0)) else error_screen (EndDrawing u))"

definition handleLobbyMsg ::
  "GameMessage \<Rightarrow> server_handler \<times> entity_handler \<Rightarrow> ui \<Rightarrow>
    (bool \<times> (server_handler \<times> entity_handler) \<times> ui) res option" where
  "handleLobbyMsg m s u =
    (if mtype m = GAME_START then Some (Inr (True, s, u))
     else andThenO
       (if mtype m = WELCOME_TO_ROOM then Some (Inr (joinRoom m s))
        else if mtype m = GAME_JOIN then Some (Inr (addPlayer (msg_gamejoin m) s))
        else if mtype m = ERROR then andThenO (error_screen u) (\<lambda>_. Some (Inr s))
        else Some (Inr s))
       (\<lambda>s'. Some (Inr (False, s', EndDrawing u))))"

partial_function (option) wait4Game :: "client_net \<times> ui \<Rightarrow> (client_net \<times> ui) res option" where
  "wait4Game c = (case c of ((sh, eh, w), u) \<Rightarrow>
    (case Receive (sh_conn sh) w of
       None \<Rightarrow> None
     | Some (Inl e) \<Rightarrow> Some (Inl e)
     | Some (Inr (r, w1)) \<Rightarrow> (case r of
         None \<Rightarrow> Some (Inl (Exit 0))
       | Some m \<Rightarrow> (case handleLobbyMsg m (sh, eh) u of
           None \<Rightarrow> None
         | Some (Inl e) \<Rightarrow> Some (Inl e)
         | Some (Inr (esc, (sh', eh'), u')) \<Rightarrow>
             if esc then Some (Inr ((sh', eh', w1), u')) else wait4Game ((sh', eh', w1), u')))))"

subsection \<open>The menu\<close>

definition invalid_chars :: "int list" where
  "invalid_chars = [32] @ [256..269] @ [280..284] @ [340..348]"

definition c_strlen :: "string \<Rightarrow> nat" where
  "c_strlen s = length (takeWhile (\<lambda>c. c \<noteq> CHR 0x00) s)"

definition type_key :: "int \<Rightarrow> string \<Rightarrow> string" where
  "type_key key name =
    (if key = 0 then name
     else if key = KEY_BACKSPACE then (if c_strlen name > 0 then butlast name else name)
     else if key = KEY_ENTER then name
     else if key \<in> set invalid_chars then name
     else name @ [char_of (nat (key mod 256))])"

partial_function (option) selectUsername_loop :: "ui \<Rightarrow> string \<Rightarrow> (string \<times> ui) option" where
  "selectUsername_loop u name =
    (if WindowShouldClose u (frames u) then Some (name, u)
     else let key = GetKeyPressed u (frames u) in
       if key = KEY_ENTER \<and> c_strlen name > 0 then Some (name, u)
       else selectUsername_loop (EndDrawing u) (type_key key name))"

definition selectUsername :: "ui \<Rightarrow> (string \<times> ui) option" where
  "selectUsername u = selectUsername_loop u []"

text \<open>\<open>ask_username\<close> is what both screens do once a room has been chosen.\<close>

definition ask_username ::
  "string option \<Rightarrow> server_handler \<Rightarrow> ui \<Rightarrow> world \<Rightarrow> (ui \<times> world) res option" where
  "ask_username room_name sh u w = (case selectUsername u of
     None \<Rightarrow> None
   | Some (name, u1) \<Rightarrow>
       if name \<noteq> [] then Some (andThen (SendJoinRoom name room_name (sh_conn sh) w) (\<lambda>(_, w1). Inr (u1, w1)))
       else Some (Inr (u1, w)))"

definition room_boxes :: "rat \<Rightarrow> GameRoom list \<Rightarrow> RoomBox list" where
  "room_boxes width rs = map (\<lambda>i. case rs ! i of GameRoom nm n _ \<Rightarrow>
      RoomBox_new (110 + of_nat (i mod 3) * (width / 4) + 28) (of_nat (i div 3) * 120 + 70) 150 60 nm n)
    [0..<length rs]"

datatype room_click = NoClick | ChooseRoom string | BackToMenu

primrec room_clicked :: "ui \<Rightarrow> RoomBox list \<Rightarrow> room_click" where
  "room_clicked u [] = NoClick"
| "room_clicked u (room # rooms) =
    (if clicked u (box_rect room) then ChooseRoom (label room)
     else if clicked u (rectangle 10 10 80 30) then BackToMenu
     else room_clicked u rooms)"

text \<open>\<open>camera_y\<close> is \<open>camera.offset.y\<close>: it moves what is drawn, not what can be clicked.\<close>

definition scroll :: "ui \<Rightarrow> rat \<Rightarrow> rat \<Rightarrow> rat" where
  "scroll u height camera_y =
    (let up = (if pressed u KEY_UP \<and> camera_y \<le> height / 2 - 70 then camera_y + 70 else camera_y) in
     if pressed u KEY_DOWN then up - 70 else up)"

partial_function (option) listRooms_loop ::
  "rat \<Rightarrow> RoomBox list \<Rightarrow> rat \<Rightarrow> ui \<Rightarrow> (room_click \<times> ui) option" where
  "listRooms_loop height rooms camera_y u =
    (let camera_y' = scroll u height camera_y in
     case room_clicked u rooms of
       NoClick \<Rightarrow> listRooms_loop height rooms camera_y' (EndDrawing u)
     | ChooseRoom l \<Rightarrow> Some (ChooseRoom l, u)
     | BackToMenu \<Rightarrow> Some (BackToMenu, u))"

partial_function (option) wait_room_list ::
  "int \<Rightarrow> world \<Rightarrow> (GameRoom list \<times> world) res option" where
  "wait_room_list p w = (case Receive p w of
     None \<Rightarrow> None
   | Some (Inl e) \<Rightarrow> Some (Inl e)
   | Some (Inr (r, w1)) \<Rightarrow> (case r of
       None \<Rightarrow> Some (Inl (Exit 0))
     | Some m \<Rightarrow> if mtype m = ROOM_LIST then Some (Inr (msg_roomlist m, w1))
         else wait_room_list p w1))"

text \<open>The first screen: whether an old room is to be joined. A click is looked at before the screen is drawn.\<close>

partial_function (option) menu_loop :: "rat \<Rightarrow> int \<Rightarrow> ui \<Rightarrow> (bool \<times> ui) option" where
  "menu_loop width rooms_total u =
    (if clicked u (rectangle (width / 2 - 95) 110 190 60) then Some (False, u)
     else if rooms_total > 0 \<and> clicked u (rectangle (width / 2 - 60) 190 120 60)
       then Some (True, EndDrawing u)
     else menu_loop width rooms_total (EndDrawing u))"

text \<open>\<open>listRooms\<close> calls \<open>menu\<close> again in tail position when the user goes back.\<close>

partial_function (option) menu ::
  "rat \<Rightarrow> rat \<Rightarrow> server_handler \<Rightarrow> ui \<times> world \<Rightarrow> (ui \<times> world) res option" where
  "menu width height sh s =
    (case SendGetRoomList (sh_conn sh) (snd s) of
       Inl e \<Rightarrow> Some (Inl e)
     | Inr sent \<Rightarrow> (case wait_room_list (sh_conn sh) (snd sent) of
         None \<Rightarrow> None
       | Some (Inl e) \<Rightarrow> Some (Inl e)
       | Some (Inr (rl, w1)) \<Rightarrow> (case menu_loop width (int (length rl)) (fst s) of
           None \<Rightarrow> None
         | Some (join, u1) \<Rightarrow>
             if \<not> join then ask_username None sh u1 w1
             else (case listRooms_loop height (room_boxes width rl) (height / 2) u1 of
               None \<Rightarrow> None
             | Some (choice, u2) \<Rightarrow> (case choice of
                 ChooseRoom l \<Rightarrow> ask_username (Some l) sh u2 w1
               | _ \<Rightarrow> menu width height sh (u2, w1))))))"

text \<open>The equations of the partial functions, for evaluation.\<close>

declare handle_queued.simps [code] error_screen.simps [code] wait4Game.simps [code]
  selectUsername_loop.simps [code] listRooms_loop.simps [code] wait_room_list.simps [code]
  menu_loop.simps [code] menu.simps [code]

end
