(* ===== verification/Client.thy ===== *)
theory Client
  imports ServerHandler
begin

section \<open>The client (\<open>client/Client.h\<close>, \<open>client/Client.cpp\<close>)\<close>

text \<open>
  \<open>Run\<close> connects, shows the menu, waits for the game and then draws frames while a second thread
  receives and a third, once somebody has won, closes the connection. A frame, a round of the
  receiver and the closing are each one step here: the threads share the entities without a lock,
  so the program has a data race wherever two of them overlap, which is not modelled.
  \<open>local_boomberman\<close> points to the first slot of the vector of the players for good.
  \<open>local_boomberman_position\<close> holds floats that are converted \<open>int\<close>s, kept as the integer.
\<close>

record client =
  cl_width :: rat
  cl_height :: rat
  cl_eh :: entity_handler
  cl_sh :: server_handler
  cl_map :: tmap
  cl_world :: world
  cl_ui :: ui
  tutorial_color :: Color
  true_local_name :: string
  already_waiting :: bool
  closing_thread :: bool

definition Client_new :: "rat \<Rightarrow> rat \<Rightarrow> rat \<times> rat" where
  "Client_new width height = (width, height)"

definition local_boomberman :: "entity_handler \<Rightarrow> boomberman res" where
  "local_boomberman eh = (case eplayers eh of
     [] \<Rightarrow> Inl (Undefined ''use of a destroyed player'') | b # _ \<Rightarrow> Inr b)"

definition set_local :: "boomberman \<Rightarrow> entity_handler \<Rightarrow> entity_handler" where
  "set_local b eh = eh\<lparr>eplayers := (eplayers eh)[0 := b]\<rparr>"

subsection \<open>Keys\<close>

text \<open>
  An arrow key: the local move, and the message when it was possible. \<open>tx\<close> and \<open>ty\<close> are the floats
  the message carries. What \<open>send\<close> returns is ignored.
\<close>

type_synonym play = "entity_handler \<times> world"

definition flt :: "int \<Rightarrow> f32" where
  "flt i = Fin (of_int i)"

definition step_key ::
  "tmap \<Rightarrow> int \<Rightarrow> int \<times> int \<Rightarrow> int \<Rightarrow> int \<Rightarrow> int \<Rightarrow> int \<Rightarrow> bool \<Rightarrow> play \<Rightarrow> play res" where
  "step_key m p pos dx dy tx ty down s =
    (if \<not> down then Inr s
     else case s of (eh, w) \<Rightarrow>
       andThen (local_boomberman eh) (\<lambda>b.
       andThen (move m pos dx dy b) (\<lambda>(ok, b').
         if ok then andThen (SendIMove (flt tx) (flt ty) p w) (\<lambda>(_, w1). Inr (set_local b' eh, w1))
         else Inr (eh, w))))"

definition bomb_key :: "int \<Rightarrow> int \<times> int \<Rightarrow> bool \<Rightarrow> play \<Rightarrow> play res" where
  "bomb_key p pos down s =
    (if \<not> down then Inr s
     else case s of (eh, w) \<Rightarrow>
       andThen (to_int32 (fst pos)) (\<lambda>x. andThen (to_int32 (snd pos)) (\<lambda>y.
       let (now, w1) = TimestampMillis w in
       andThen (SendIPlaceBomb (flt (fst pos)) (flt (snd pos)) p w1) (\<lambda>(_, w2).
         Inr (placeBomb x y 3 25 now 3 False eh, w2)))))"

definition leave_key :: "int \<Rightarrow> bool \<Rightarrow> play \<Rightarrow> play res" where
  "leave_key p down s =
    (if \<not> down then Inr s
     else case s of (eh, w) \<Rightarrow>
       andThen (SendILeave p w) (\<lambda>(_, w1).
       andThen (conn_sock p w1) (\<lambda>fd. Inr (eh, sys_close fd (syscall (Shutdown fd) w1)))))"

text \<open>The keys of one frame, all from the position at its start.\<close>

definition handle_keys :: "tmap \<Rightarrow> int \<Rightarrow> int \<times> int \<Rightarrow> ui \<Rightarrow> play \<Rightarrow> play res" where
  "handle_keys m p pos u s =
    (let (x, y) = pos in
     andThen (bomb_key p pos (pressed u KEY_SPACE) s) (\<lambda>s.
     andThen (step_key m p pos 1 0 (float_of_int (x + 1)) y (pressed u KEY_RIGHT) s) (\<lambda>s.
     andThen (step_key m p pos (- 1) 0 (float_of_int (x - 1)) y (pressed u KEY_LEFT) s) (\<lambda>s.
     andThen (step_key m p pos 0 (- 1) x (float_of_int (y - 1)) (pressed u KEY_UP) s) (\<lambda>s.
     andThen (step_key m p pos 0 1 x (float_of_int (y + 1)) (pressed u KEY_DOWN) s) (\<lambda>s.
       leave_key p (pressed u KEY_ESCAPE) s))))))"

subsection \<open>Drawing\<close>

text \<open>\<open>Color c\<close> starts indeterminate; a tile that is none of 0, 1 and 2 is drawn with the colour before.\<close>

definition tile_color :: "int \<Rightarrow> Color option \<Rightarrow> Color option" where
  "tile_color v c = (if v = 0 then Some WHITE else if v = 1 then Some BLACK
     else if v = 2 then Some GRAY else c)"

definition draw_tile :: "tmap \<Rightarrow> int \<Rightarrow> int \<Rightarrow> draw list \<times> Color option \<Rightarrow> (draw list \<times> Color option) res" where
  "draw_tile m x y s = (case s of (ds, c) \<Rightarrow>
    andThen (getSquareState m x y) (\<lambda>squareState.
    case tile_color squareState c of
      None \<Rightarrow> Inl (Undefined ''indeterminate colour'')
    | Some c' \<Rightarrow> andThen (draw_square m x y 0 c') (\<lambda>d. Inr (ds @ [d], Some c'))))"

definition drawMap :: "tmap \<Rightarrow> draw list res" where
  "drawMap m = andThen
    (iterE (\<lambda>x. iterE (\<lambda>y. draw_tile m x y) [0..rows m - 1]) [0..cols m - 1] ([], None))
    (\<lambda>(ds, _). Inr ds)"

definition draw_all ::
  "tmap \<Rightarrow> entity_handler \<Rightarrow> world \<Rightarrow> (draw list \<times> entity_handler \<times> tmap \<times> world) res" where
  "draw_all m eh w =
    andThen (drawMap m) (\<lambda>d1.
    andThen (drawFire m eh) (\<lambda>d2.
    andThen (drawPlayers m eh w) (\<lambda>(d3, eh1, w1).
    andThen (drawBombs (eh1, m, w1)) (\<lambda>(d4, eh2, m2, w2).
      Inr (d1 @ d2 @ d3 @ d4, eh2, m2, w2)))))"

subsection \<open>The loop\<close>

text \<open>
  One frame: what is drawn, and the client after it. The guard compares the name in the first
  slot with the local player's. \<open>closing_thread\<close> is set while the thread that runs
  \<open>waitThreeSeconds\<close> waits.
\<close>

definition run_frame :: "client \<Rightarrow> (draw list \<times> client) res" where
  "run_frame c =
    andThen (local_boomberman (cl_eh c)) (\<lambda>b.
    andThen (getBoombermanPos b) (\<lambda>(px, py).
    let pos = (float_of_int px, float_of_int py);
        (eh, w) = tryExtinguish (cl_eh c, cl_world c) in
    andThen (local_boomberman eh) (\<lambda>b1.
    andThen (if pseudonim b1 = true_local_name c
        then handle_keys (cl_map c) (sh_conn (cl_sh c)) pos (cl_ui c) (eh, w) else Inr (eh, w)) (\<lambda>(eh1, w1).
    andThen (draw_all (cl_map c) eh1 w1) (\<lambda>(ds, eh2, m2, w2).
      Inr (ds, c\<lparr>cl_eh := eh2, cl_map := m2, cl_world := w2, cl_ui := EndDrawing (cl_ui c),
        closing_thread := closing_thread c \<or> (winner (cl_sh c) \<noteq> [] \<and> \<not> already_waiting c),
        already_waiting := already_waiting c \<or> winner (cl_sh c) \<noteq> []\<rparr>))))))"

definition waitThreeSeconds :: "client \<Rightarrow> client res" where
  "waitThreeSeconds c =
    andThen (conn_sock (sh_conn (cl_sh c)) (cl_world c)) (\<lambda>fd.
      Inr (c\<lparr>cl_world := sys_close fd (syscall (Shutdown fd) (cl_world c)), closing_thread := False\<rparr>))"

definition receive_event :: "client \<Rightarrow> client res option" where
  "receive_event c = andThenO (receive_round (cl_sh c, cl_eh c, cl_world c)) (\<lambda>(sh, eh, w).
    Some (Inr (c\<lparr>cl_sh := sh, cl_eh := eh, cl_world := w\<rparr>)))"

text \<open>\<open>Run\<close> up to the loop, and what follows the loop.\<close>

definition start_client :: "rat \<Rightarrow> rat \<Rightarrow> string \<Rightarrow> int \<Rightarrow> ui \<Rightarrow> world \<Rightarrow> client res option" where
  "start_client width height server port u w =
    (case andThen (ServerHandler_new w) (\<lambda>(sh, w1).
       andThen (Map_new 25 width height) (\<lambda>m.
       andThen (connect2Server server port sh w1) (\<lambda>w2. Inr (sh, m, w2)))) of
       Inl e \<Rightarrow> Some (Inl e)
     | Inr (sh, m, w2) \<Rightarrow>
         andThenO (menu width height sh (u, w2)) (\<lambda>(u1, w3).
         andThenO (wait4Game ((sh, EntityHandler_new, w3), u1)) (\<lambda>((sh1, eh, w4), u2).
         Some (andThen (local_boomberman eh) (\<lambda>b.
           Inr \<lparr>cl_width = width, cl_height = height, cl_eh = eh, cl_sh = sh1, cl_map = m,
             cl_world = w4, cl_ui = u2, tutorial_color = bm_color b,
             true_local_name = pseudonim b, already_waiting = False,
             closing_thread = False\<rparr>)))))"

definition end_client :: "client \<Rightarrow> client res" where
  "end_client c = andThen (local_boomberman (cl_eh c)) (\<lambda>b. andThen (cleanUp b) (\<lambda>b'.
    Inr (c\<lparr>cl_eh := set_local b' (cl_eh c)\<rparr>)))"

text \<open>The steps of a running client.\<close>

datatype client_event = Frame | Incoming | Closing

inductive client_step :: "client \<Rightarrow> client_event \<Rightarrow> client \<Rightarrow> bool" where
  step_frame: "\<not> WindowShouldClose (cl_ui c) (frames (cl_ui c)) \<Longrightarrow> run_frame c = Inr (ds, c') \<Longrightarrow>
    client_step c Frame c'"
| step_incoming: "receive_event c = Some (Inr c') \<Longrightarrow> client_step c Incoming c'"
| step_closing: "closing_thread c \<Longrightarrow> waitThreeSeconds c = Inr c' \<Longrightarrow> client_step c Closing c'"

inductive_cases client_step_cases [consumes 1, case_names step_frame step_incoming step_closing]:
  "client_step c ev c'"

end
