(* ===== verification/ClientNet.thy ===== *)
theory ClientNet
  imports Client ReceiveFacts
begin

section \<open>What the client receives\<close>

text \<open>
  The rounds of the reader thread and the wait for the game, over the messages that are on their
  way to the client's connection (\<open>incoming\<close>, theory \<open>ReceiveFacts\<close>): both handle them in the
  order they were sent, and no message is left in the queue of the connection when a round ends.
\<close>

lemma handleMessage_conn:
  "handleMessage m (sh, eh) = Inr (sh', eh') \<Longrightarrow> sh_conn sh' = sh_conn sh \<and> polling_fd sh' = polling_fd sh"
  by (auto simp: handleMessage_def Let_def split: MessageType.splits prod.splits option.splits if_splits)

lemma set_queue_twice: "set_queue p q' (set_queue p q w) = set_queue p q' w"
  by (simp add: set_queue_def split: option.split)

lemma handle_queued_spec:
  "conns w (sh_conn sh) = Some c \<Longrightarrow> inboundQueue c = q \<Longrightarrow>
    handle_queued (sh, eh, w) = Some (andThen (iterE handleMessage q (sh, eh))
      (\<lambda>(sh', eh'). Inr (sh', eh', set_queue (sh_conn sh) [] w)))"
proof (induction q arbitrary: sh eh w c)
  case Nil
  then have "c\<lparr>inboundQueue := []\<rparr> = c" by simp
  then have "set_queue (sh_conn sh) [] w = w"
    using Nil by (simp add: set_queue_def fun_upd_idem)
  then show ?case
    using Nil by (simp add: handle_queued.simps [of "(sh, eh, w)"] HasMoreMessages_def)
next
  case (Cons m q)
  let ?p = "sh_conn sh"
  let ?w = "set_queue ?p q w"
  have R: "Receive ?p w = Some (Inr (Some m, ?w))"
    using Cons.prems by (simp add: Receive_def pop_front_def)
  have one: "receive_one (sh, eh, w) =
      Some (andThen (handleMessage m (sh, eh)) (\<lambda>(sh', eh'). Inr (sh', eh', ?w)))"
    using R by (simp add: receive_one_def)
  have more: "HasMoreMessages ?p w = Inr True" using Cons.prems by (simp add: HasMoreMessages_def)
  show ?case
  proof (cases "handleMessage m (sh, eh)")
    case (Inl e)
    then show ?thesis using one more by (simp add: handle_queued.simps [of "(sh, eh, w)"])
  next
    case (Inr t)
    obtain sh1 eh1 where t: "t = (sh1, eh1)" by fastforce
    have p: "sh_conn sh1 = ?p" using handleMessage_conn Inr t by blast
    have "conns ?w ?p = Some (c\<lparr>inboundQueue := q\<rparr>)"
      using Cons.prems(1) by (simp add: set_queue_def)
    from Cons.IH [of ?w sh1 "c\<lparr>inboundQueue := q\<rparr>" eh1] this show ?thesis
      using one more Inr t p set_queue_twice [of ?p]
      by (simp add: handle_queued.simps [of "(sh, eh, w)"])
  qed
qed

lemma incoming_cong:
  assumes "conns w' = conns w" "fd_open w' = fd_open w" "rd_events w' = rd_events w"
    "rd_pending w' = rd_pending w" "SerializeToArray w' = SerializeToArray w"
    "ParseFromArray w' = ParseFromArray w"
  shows "incoming p w' ms = incoming p w ms"
proof -
  have same: "decodable w' = decodable w" "wire w' = wire w"
    by (intro ext decodable_cong wire_cong assms)+
  show ?thesis unfolding incoming_def assms same ..
qed

lemma incoming_sys_call: "incoming p (snd (sys_call k w)) ms = incoming p w ms"
  by (rule incoming_cong) (simp_all add: sys_call_def syscall_def)

text \<open>What receiving leaves alone: the descriptors, the codec and the answers of the kernel.\<close>

definition same_codec :: "world \<Rightarrow> world \<Rightarrow> bool" where
  "same_codec w w' \<longleftrightarrow> SerializeToArray w' = SerializeToArray w \<and> ParseFromArray w' = ParseFromArray w"

lemma recv_frame_codec: "recv_frame p w w' \<Longrightarrow> same_codec w w' \<and> kans w' = kans w"
  by (auto simp: recv_frame_def same_codec_def)

lemma receive_one_incoming:
  assumes "incoming (sh_conn sh) w (m # ms)"
  shows "\<exists>w'. receive_one (sh, eh, w) = Some (andThen (handleMessage m (sh, eh)) (\<lambda>(sh', eh'). Inr (sh', eh', w')))
    \<and> incoming (sh_conn sh) w' ms \<and> same_codec w w' \<and> kans w' = kans w"
  using Receive_next [OF assms] recv_frame_codec by (auto simp: receive_one_def)

lemma receive_round_closed:
  assumes "kans w (ktick w) \<noteq> - 1" "odd (kans w (ktick w))" "incoming (sh_conn sh) w []"
  shows "receive_round (sh, eh, w) = Some (Inl (Exit 0))"
proof -
  let ?c = "PollOn (polling_fd sh)"
  obtain w' where "Receive (sh_conn sh) (snd (sys_call ?c w)) = Some (Inr (None, w'))"
    using rcv.no_message [of "sh_conn sh" "snd (sys_call ?c w)"] assms(3) incoming_sys_call [of "sh_conn sh" ?c w "[]"] by auto
  then show ?thesis using assms(1,2) by (simp add: receive_round_def receive_one_def sys_call_def)
qed

lemma receive_round_idle:
  "kans w (ktick w) \<noteq> - 1 \<Longrightarrow> even (kans w (ktick w)) \<Longrightarrow>
    receive_round (sh, eh, w) = Some (Inr (sh, eh, snd (sys_call (PollOn (polling_fd sh)) w)))"
  by (simp add: receive_round_def sys_call_def)

lemma receive_round_delivers:
  assumes "kans w (ktick w) \<noteq> - 1" "odd (kans w (ktick w))" "incoming (sh_conn sh) w (m # ms)"
  shows "\<exists>k w'. k \<le> length ms \<and>
      receive_round (sh, eh, w) = Some (andThen (iterE handleMessage (m # take k ms) (sh, eh))
        (\<lambda>(sh', eh'). Inr (sh', eh', w'))) \<and>
      incoming (sh_conn sh) w' (drop k ms) \<and> HasMoreMessages (sh_conn sh) w' = Inr False \<and>
      same_codec w w' \<and> kans w' = kans w"
proof -
  let ?p = "sh_conn sh" and ?c = "PollOn (polling_fd sh)"
  let ?w = "snd (sys_call ?c w)"
  have rr: "receive_round (sh, eh, w) = andThenO (receive_one (sh, eh, ?w)) handle_queued"
    using assms(1,2) by (simp add: receive_round_def sys_call_def)
  have "incoming ?p ?w (m # ms)" using assms(3) by (simp only: incoming_sys_call)
  then obtain w1 where one: "receive_one (sh, eh, ?w) =
        Some (andThen (handleMessage m (sh, eh)) (\<lambda>(sh', eh'). Inr (sh', eh', w1)))"
      and inc: "incoming ?p w1 ms" and same: "same_codec ?w w1" "kans w1 = kans ?w"
    using receive_one_incoming by blast
  then obtain c ms2 where c: "conns w1 ?p = Some c" "ms = inboundQueue c @ ms2"
      "fd_open w1 (sock c)" "list_all delivers (rd_events w1 (sock c))"
      "\<forall>m\<in>set ms2. decodable w1 m" "rd_pending w1 (sock c) = wire w1 ms2"
    by (auto simp: incoming_def split: option.splits)
  let ?w' = "set_queue ?p [] w1"
  have "incoming ?p ?w' ms2"
    using c(1,3-6) decodable_cong [of ?w' w1] wire_cong [of ?w' w1]
    by (simp add: incoming_def set_queue_def)
  moreover have "HasMoreMessages ?p ?w' = Inr False" using c(1) by (simp add: HasMoreMessages_def set_queue_def)
  moreover have "same_codec w ?w'" "kans ?w' = kans w"
    using same by (simp_all add: same_codec_def set_queue_def sys_call_def syscall_def split: option.split)
  moreover have "receive_round (sh, eh, w) = Some (andThen (iterE handleMessage (m # inboundQueue c) (sh, eh))
      (\<lambda>(sh', eh'). Inr (sh', eh', ?w')))"
  proof (cases "handleMessage m (sh, eh)")
    case (Inl e)
    then show ?thesis by (simp add: rr one)
  next
    case (Inr t)
    obtain sh1 eh1 where t: "t = (sh1, eh1)" by fastforce
    have p: "sh_conn sh1 = ?p" using handleMessage_conn Inr t by blast
    show ?thesis
      using handle_queued_spec [of w1 sh1 c "inboundQueue c" eh1] c(1) p Inr t by (simp add: rr one)
  qed
  ultimately show ?thesis
    using c(2) by (intro exI [of _ "length (inboundQueue c)"] exI [of _ ?w']) simp
qed

text \<open>
  C24. A round of the reader thread handles every message it has received: with a message on its
  way it takes that one and all that came with it, in order, and leaves no message in the queue
  of the connection (the server's threads leave them there); with the stream at its end it ends
  the process.
\<close>

theorem receive_round_in_order:
  assumes "kans w (ktick w) \<noteq> - 1" "odd (kans w (ktick w))"
  shows "(incoming (sh_conn sh) w (m # ms) \<longrightarrow> (\<exists>k w'. k \<le> length ms \<and>
      receive_round (sh, eh, w) = Some (andThen (iterE handleMessage (m # take k ms) (sh, eh))
        (\<lambda>(sh', eh'). Inr (sh', eh', w'))) \<and>
      incoming (sh_conn sh) w' (drop k ms) \<and> HasMoreMessages (sh_conn sh) w' = Inr False)) \<and>
    (incoming (sh_conn sh) w [] \<longrightarrow> receive_round (sh, eh, w) = Some (Inl (Exit 0)))"
  using receive_round_delivers [OF assms] receive_round_closed [OF assms] by blast

definition sample_handler :: server_handler where
  "sample_handler = \<lparr>sh_start_x = 0, sh_start_y = 0, sh_start_color = NoColor, polling_fd = 5,
    sh_conn = 5, winner = []\<rparr>"

lemma two_messages_kans: "incoming 5 (two_messages\<lparr>kans := (\<lambda>_. 1)\<rparr>) [err_message ''xx'', err_message ''x'']"
  using two_messages_incoming by (subst incoming_cong [of _ two_messages]) simp_all

theorem receive_round_in_order_witness:
  "\<exists>k w'. k \<le> 1 \<and> receive_round (sample_handler, EntityHandler_new, two_messages\<lparr>kans := (\<lambda>_. 1)\<rparr>) =
      Some (Inr (sample_handler, EntityHandler_new, w')) \<and>
    incoming 5 w' (drop k [err_message ''x'']) \<and> HasMoreMessages 5 w' = Inr False"
proof -
  have quiet: "handleMessage (err_message s) t = Inr t" for s t
    by (cases t) (simp add: handleMessage_def err_message_def GameMessage_default_def)
  have p: "sh_conn sample_handler = 5" by (simp add: sample_handler_def)
  obtain k w' where k: "k \<le> length [err_message ''x'']"
      "receive_round (sample_handler, EntityHandler_new, two_messages\<lparr>kans := (\<lambda>_. 1)\<rparr>) =
        Some (andThen (iterE handleMessage (err_message ''xx'' # take k [err_message ''x''])
          (sample_handler, EntityHandler_new)) (\<lambda>(sh', eh'). Inr (sh', eh', w')))"
      "incoming 5 w' (drop k [err_message ''x''])" "HasMoreMessages 5 w' = Inr False"
    using receive_round_in_order [of "two_messages\<lparr>kans := (\<lambda>_. 1)\<rparr>" sample_handler "err_message ''xx''"
      "[err_message ''x'']" EntityHandler_new] two_messages_kans p by auto
  have "receive_round (sample_handler, EntityHandler_new, two_messages\<lparr>kans := (\<lambda>_. 1)\<rparr>) =
      Some (Inr (sample_handler, EntityHandler_new, w'))"
    unfolding k(2) by (cases k) (simp_all add: quiet)
  then show ?thesis using k by auto
qed

subsection \<open>The wait for the game\<close>

definition lobby_effect ::
  "GameMessage \<Rightarrow> server_handler \<times> entity_handler \<Rightarrow> server_handler \<times> entity_handler" where
  "lobby_effect m s = (if mtype m = WELCOME_TO_ROOM then joinRoom m s
     else if mtype m = GAME_JOIN then addPlayer (msg_gamejoin m) s else s)"

lemma handleLobbyMsg_effect:
  "mtype m \<noteq> GAME_START \<Longrightarrow> mtype m \<noteq> ERROR \<Longrightarrow>
    handleLobbyMsg m s u = Some (Inr (False, lobby_effect m s, EndDrawing u))"
  by (simp add: handleLobbyMsg_def lobby_effect_def)

lemma setPlayerParams_conn [simp]:
  "sh_conn (setPlayerParams pl sh) = sh_conn sh" "polling_fd (setPlayerParams pl sh) = polling_fd sh"
  "winner (setPlayerParams pl sh) = winner sh"
  by (simp_all add: setPlayerParams_def split: GamePlayer.split PlayerColor.split)

lemma addPlayer_conn: "sh_conn (fst (addPlayer pl s)) = sh_conn (fst s)"
  by (cases s) (simp add: addPlayer_def Let_def)

lemma foldl_addPlayer_conn: "sh_conn (fst (foldl (\<lambda>s pl. addPlayer pl s) s pls)) = sh_conn (fst s)"
  by (induction pls arbitrary: s) (simp_all add: addPlayer_conn)

lemma lobby_effect_conn: "sh_conn (fst (lobby_effect m s)) = sh_conn (fst s)"
  by (simp add: lobby_effect_def addPlayer_conn joinRoom_def foldl_addPlayer_conn)

text \<open>The screen with an error is only ever left by the end of the process.\<close>

lemma error_screen_exits: "error_screen u = Some r \<Longrightarrow> r = Inl (Exit 0)"
  by (erule error_screen.raw_induct [rotated]) (auto split: if_splits)

lemma wait4Game_receives:
  assumes "incoming (sh_conn sh) w (m # ms)"
  shows "\<exists>w1. incoming (sh_conn sh) w1 ms \<and> wait4Game ((sh, eh, w), u) =
    (case handleLobbyMsg m (sh, eh) u of
       None \<Rightarrow> None
     | Some (Inl e) \<Rightarrow> Some (Inl e)
     | Some (Inr (esc, (sh', eh'), u')) \<Rightarrow>
         if esc then Some (Inr ((sh', eh', w1), u')) else wait4Game ((sh', eh', w1), u'))"
proof -
  obtain w1 where "Receive (sh_conn sh) w = Some (Inr (Some m, w1))" "incoming (sh_conn sh) w1 ms"
    using rcv.next_message [OF assms] by blast
  then show ?thesis by (subst wait4Game.simps) auto
qed

text \<open>
  C25. The wait ends with the message that starts the game and not before: when only welcomes,
  joins and messages that mean nothing here come before it, the players the client has when the wait ends are
  those of the welcomes and joins, in the order of the messages, and what is on its way after the
  start is still there. When an error comes first the wait never returns: it ends the process or
  lasts forever.
\<close>

theorem wait4Game_until_start:
  assumes "incoming (sh_conn sh) w (before @ m # later)"
    and "\<forall>k \<in> set before. mtype k \<noteq> GAME_START \<and> mtype k \<noteq> ERROR"
  shows "(mtype m = GAME_START \<longrightarrow> (\<exists>w' u'. wait4Game ((sh, eh, w), u) =
      Some (Inr ((fst (foldl (\<lambda>s k. lobby_effect k s) (sh, eh) before),
        snd (foldl (\<lambda>s k. lobby_effect k s) (sh, eh) before), w'), u')) \<and>
      incoming (sh_conn sh) w' later)) \<and>
    (mtype m = ERROR \<longrightarrow> wait4Game ((sh, eh, w), u) \<in> {None, Some (Inl (Exit 0))})"
  using assms
proof (induction before arbitrary: sh eh w u)
  case Nil
  obtain w1 where w1: "incoming (sh_conn sh) w1 later" "wait4Game ((sh, eh, w), u) =
      (case handleLobbyMsg m (sh, eh) u of None \<Rightarrow> None | Some (Inl e) \<Rightarrow> Some (Inl e)
       | Some (Inr (esc, (sh', eh'), u')) \<Rightarrow>
           if esc then Some (Inr ((sh', eh', w1), u')) else wait4Game ((sh', eh', w1), u'))"
    using wait4Game_receives [of sh w m later eh u] Nil by auto
  have "handleLobbyMsg m (sh, eh) u \<in> {None, Some (Inl (Exit 0))}" if "mtype m = ERROR"
    using that error_screen_exits [of u]
    by (cases "error_screen u") (auto simp: handleLobbyMsg_def)
  then show ?case using w1 by (auto simp: handleLobbyMsg_def)
next
  case (Cons k before)
  obtain sh1 eh1 where e: "lobby_effect k (sh, eh) = (sh1, eh1)" by fastforce
  have p: "sh_conn sh1 = sh_conn sh" using lobby_effect_conn [of k "(sh, eh)"] e by simp
  obtain w1 where w1: "incoming (sh_conn sh1) w1 (before @ m # later)"
      "wait4Game ((sh, eh, w), u) = wait4Game ((sh1, eh1, w1), EndDrawing u)"
    using wait4Game_receives [of sh w k "before @ m # later" eh u] handleLobbyMsg_effect [of k "(sh, eh)" u]
      Cons.prems e p by auto
  show ?case using Cons.IH [OF w1(1), of eh1 "EndDrawing u"] Cons.prems(2) w1(2) e p by simp
qed

text \<open>A stream with the welcome of a second player and the start of the game.\<close>

definition welcome_message :: GameMessage where
  "welcome_message = \<lparr>mtype = WELCOME_TO_ROOM,
    oneof = Some (WelcomeToRoomB [GamePlayer ''bob'' PLAYER_GREEN, GamePlayer ''ann'' PLAYER_RED])\<rparr>"

definition start_message :: GameMessage where
  "start_message = \<lparr>mtype = GAME_START, oneof = None\<rparr>"

definition starting_world :: world where
  "starting_world = sample_world\<lparr>
    SerializeToArray := (\<lambda>m. if mtype m = GAME_START then [7] else [7, 7]),
    ParseFromArray := (\<lambda>_ n. if n = 1 then start_message else welcome_message),
    rd_pending := (\<lambda>_. [2, 7, 7, 1, 7]), rd_events := (\<lambda>_. [Deliver 4]),
    conns := [5 \<mapsto> \<lparr>sock = 5, msg = GameMessage_default, inboundQueue = []\<rparr>]\<rparr>"

lemma starting_world_incoming: "incoming 5 starting_world ([welcome_message] @ start_message # [])"
  by (simp add: incoming_def starting_world_def welcome_message_def start_message_def decodable_def
      wire_def frame_of_def delivers_def)

theorem wait4Game_until_start_witness:
  "\<exists>sh w' u' b ps. \<forall>u. wait4Game ((sample_handler, EntityHandler_new, starting_world), u) =
      Some (Inr ((sh, \<lparr>eplayers = b # ps, ebombs = [], theFloorIsLava = []\<rparr>, w' u), u' u)) \<and>
    pseudonim b = ''bob'' \<and> position b = Some (15, 1) \<and> map pseudonim ps = [''ann'']"
proof -
  let ?s = "foldl (\<lambda>s k. lobby_effect k s) (sample_handler, EntityHandler_new) [welcome_message]"
  have "\<forall>u. \<exists>w' u'. wait4Game ((sample_handler, EntityHandler_new, starting_world), u) =
      Some (Inr ((fst ?s, snd ?s, w'), u'))"
    using wait4Game_until_start [of sample_handler starting_world "[welcome_message]" start_message "[]"]
      starting_world_incoming
    by (simp add: sample_handler_def welcome_message_def start_message_def) blast
  then obtain w' u' where run: "\<forall>u. wait4Game ((sample_handler, EntityHandler_new, starting_world), u) =
      Some (Inr ((fst ?s, snd ?s, w' u), u' u))" by metis
  have "snd ?s = \<lparr>eplayers = [Boomberman_new ''bob'' GREEN 15 1 3, Boomberman_new ''ann'' RED 1 1 3],
      ebombs = [], theFloorIsLava = []\<rparr>"
    by (simp add: lobby_effect_def welcome_message_def joinRoom_def msg_welcometoroom_def addPlayer_def
        setPlayerParams_def EntityHandler_new_def Let_def sample_handler_def)
  then show ?thesis using run
    by (intro exI [of _ "fst ?s"] exI [of _ w'] exI [of _ u'] exI [of _ "Boomberman_new ''bob'' GREEN 15 1 3"]
        exI [of _ "[Boomberman_new ''ann'' RED 1 1 3]"]) simp
qed

end
