(* ===== verification/EntityFacts.thy ===== *)
theory EntityFacts
  imports EntityHandler
begin

section \<open>What the client does with its entities\<close>

text \<open>
  \<open>survivors\<close> is the specification of \<open>tryExtinguish\<close>: after a tile is erased the loop skips the one
  that moves into its place. Bombs: the loop of \<open>drawBombs\<close> cannot go on once one has exploded, and
  an explosion itself is that of the shared \<open>boom\<close>.
\<close>

subsection \<open>Fire\<close>

fun survivors :: "(nat \<Rightarrow> rat) \<Rightarrow> TileOnFire list \<Rightarrow> TileOnFire list" where
  "survivors now [] = []"
| "survivors now [t] = (if shouldCalmDown (now 0) t then [] else [t])"
| "survivors now (t # u # ts) =
    (if shouldCalmDown (now 0) t then u # survivors (\<lambda>n. now (Suc n)) ts
     else t # survivors (\<lambda>n. now (Suc n)) (u # ts))"

lemma tryExtinguish_loop_spec:
  "\<exists>k. tryExtinguish_loop (length kept) (kept @ ts) w =
    (kept @ survivors (\<lambda>n. gtime w (gtick w + n)) ts, w\<lparr>gtick := gtick w + k\<rparr>)"
proof (induction ts arbitrary: kept w rule: induct_list012)
  case 1
  show ?case by (rule exI [of _ 0]) (simp add: tryExtinguish_loop.simps)
next
  case (2 t)
  show ?case
    by (rule exI [of _ 1])
      (auto simp: tryExtinguish_loop.simps [of "length kept"] tryExtinguish_loop.simps [of "Suc (length kept)"]
        erase_at_skip)
next
  case (3 t u ts)
  let ?w = "w\<lparr>gtick := Suc (gtick w)\<rparr>"
  have later: "(\<lambda>n. gtime ?w (gtick ?w + n)) = (\<lambda>n. gtime w (gtick w + Suc n))" by simp
  show ?case
  proof (cases "shouldCalmDown (gtime w (gtick w)) t")
    case True
    obtain k where "tryExtinguish_loop (length (kept @ [u])) ((kept @ [u]) @ ts) ?w =
        ((kept @ [u]) @ survivors (\<lambda>n. gtime ?w (gtick ?w + n)) ts, ?w\<lparr>gtick := gtick ?w + k\<rparr>)"
      using "3.IH"(1) [of "kept @ [u]" ?w] by blast
    then show ?thesis using True later
      by (intro exI [of _ "Suc k"])
        (simp add: tryExtinguish_loop.simps [of "length kept"] erase_at_skip Let_def)
  next
    case False
    obtain k where "tryExtinguish_loop (length (kept @ [t])) ((kept @ [t]) @ u # ts) ?w =
        ((kept @ [t]) @ survivors (\<lambda>n. gtime ?w (gtick ?w + n)) (u # ts), ?w\<lparr>gtick := gtick ?w + k\<rparr>)"
      using "3.IH"(2) [of "kept @ [t]" ?w] by blast
    then show ?thesis using False later
      by (intro exI [of _ "Suc k"])
        (simp add: tryExtinguish_loop.simps [of "length kept"] Let_def)
  qed
qed

lemma tryExtinguish_survivors:
  "\<exists>k. tryExtinguish (eh, w) =
    (eh\<lparr>theFloorIsLava := survivors (\<lambda>n. gtime w (gtick w + n)) (theFloorIsLava eh)\<rparr>,
     w\<lparr>gtick := gtick w + k\<rparr>)"
  using tryExtinguish_loop_spec [of "[]" "theFloorIsLava eh" w]
  by (auto simp: tryExtinguish_def)

lemma survivors_set: "set (survivors now ts) \<subseteq> set ts"
  by (induction now ts rule: survivors.induct) auto

lemma survivors_keep:
  "t \<in> set ts \<Longrightarrow> \<forall>n. \<not> shouldCalmDown (now n) t \<Longrightarrow> t \<in> set (survivors now ts)"
  by (induction now ts rule: survivors.induct) auto

lemma survivors_halve:
  "\<forall>t \<in> set ts. \<forall>n. shouldCalmDown (now n) t \<Longrightarrow> length (survivors now ts) = length ts div 2"
  by (induction now ts rule: survivors.induct) auto

lemma funpow_tryExtinguish:
  assumes "\<forall>t \<in> set (theFloorIsLava eh). \<forall>n. shouldCalmDown (gtime w n) t"
  shows "\<exists>eh' w'. (tryExtinguish ^^ k) (eh, w) = (eh', w') \<and> gtime w' = gtime w \<and>
    length (theFloorIsLava eh') = length (theFloorIsLava eh) div 2 ^ k \<and>
    set (theFloorIsLava eh') \<subseteq> set (theFloorIsLava eh)"
proof (induction k)
  case 0
  then show ?case by simp
next
  case (Suc k)
  then obtain eh' w' where IH: "(tryExtinguish ^^ k) (eh, w) = (eh', w')" "gtime w' = gtime w"
      "length (theFloorIsLava eh') = length (theFloorIsLava eh) div 2 ^ k"
      "set (theFloorIsLava eh') \<subseteq> set (theFloorIsLava eh)" by blast
  let ?ts = "survivors (\<lambda>n. gtime w' (gtick w' + n)) (theFloorIsLava eh')"
  have "\<forall>t \<in> set (theFloorIsLava eh'). \<forall>n. shouldCalmDown (gtime w' (gtick w' + n)) t"
    using assms IH(2,4) by auto
  from survivors_halve [OF this]
  have "length ?ts = length (theFloorIsLava eh) div 2 ^ Suc k"
    using IH(3) unfolding power_Suc mult.commute [of 2] div_mult2_eq by simp
  moreover obtain j where "tryExtinguish (eh', w') =
      (eh'\<lparr>theFloorIsLava := ?ts\<rparr>, w'\<lparr>gtick := gtick w' + j\<rparr>)"
    using tryExtinguish_survivors by blast
  ultimately show ?case
    using IH survivors_set [of "\<lambda>n. gtime w' (gtick w' + n)" "theFloorIsLava eh'"]
    by (auto dest: subset_trans)
qed

text \<open>
  C38. \<open>tryExtinguish\<close> removes a burnt-out tile exactly unless the tile before it has just been
  removed: it implements \<open>survivors\<close>, for any clock.
\<close>

theorem tryExtinguish_skips:
  "theFloorIsLava (fst (tryExtinguish (eh, w))) =
    survivors (\<lambda>n. gtime w (gtick w + n)) (theFloorIsLava eh) \<and>
   eplayers (fst (tryExtinguish (eh, w))) = eplayers eh \<and>
   ebombs (fst (tryExtinguish (eh, w))) = ebombs eh"
proof -
  obtain k where "tryExtinguish (eh, w) =
      (eh\<lparr>theFloorIsLava := survivors (\<lambda>n. gtime w (gtick w + n)) (theFloorIsLava eh)\<rparr>,
       w\<lparr>gtick := gtick w + k\<rparr>)"
    using tryExtinguish_survivors by blast
  then show ?thesis by simp
qed

text \<open>
  C39. The fire goes out: when everything has burnt long enough each call leaves half of the tiles,
  rounded down, so that k calls (one is made in each frame) leave the k-th half and
  \<open>2 ^ k > n\<close> calls leave none of n tiles.
\<close>

theorem fire_goes_out:
  assumes "\<forall>t \<in> set (theFloorIsLava eh). \<forall>n. shouldCalmDown (gtime w n) t"
  shows "length (theFloorIsLava (fst ((tryExtinguish ^^ k) (eh, w)))) =
      length (theFloorIsLava eh) div 2 ^ k \<and>
    (length (theFloorIsLava eh) < 2 ^ k \<longrightarrow> theFloorIsLava (fst ((tryExtinguish ^^ k) (eh, w))) = [])"
  using funpow_tryExtinguish [OF assms, of k] by auto

theorem fire_goes_out_witness:
  "length (theFloorIsLava (fst (tryExtinguish
      (EntityHandler_new\<lparr>theFloorIsLava := map (TileOnFire_new (- 1) 5) [1, 2, 3, 4, 5]\<rparr>,
       sample_world)))) = 2"
proof -
  let ?eh = "EntityHandler_new\<lparr>theFloorIsLava := map (TileOnFire_new (- 1) 5) [1, 2, 3, 4, 5]\<rparr>"
  have "\<forall>t \<in> set (theFloorIsLava ?eh). \<forall>n. shouldCalmDown (gtime sample_world n) t"
    by (simp add: TileOnFire_new_def shouldCalmDown_def sample_world_def burn_time_def)
  from fire_goes_out [OF this, of 1] show ?thesis by simp
qed

subsection \<open>Bombs on the screen\<close>

lemma explodeBomb_Inr:
  assumes "explodeBomb i (eh, m, w) = Inr (r, eh', m', w')"
  shows "i < length (ebombs eh)"
    "\<exists>it fs. find_index (same_bomb (ebombs eh ! i)) (ebombs eh) = Some it \<and> it \<le> i \<and>
      boom (\<lambda>n. gtime w (gtick w + n)) (ebombs eh ! i) m = Inr (fs, m') \<and> r = 0 \<and>
      eh' = eh\<lparr>theFloorIsLava := fs @ theFloorIsLava eh, ebombs := erase_at it (ebombs eh)\<rparr> \<and>
      w' = w\<lparr>gtick := gtick w + length fs\<rparr> \<and> Suc i < length (ebombs eh)"
proof -
  show i: "i < length (ebombs eh)"
    using assms by (auto simp: explodeBomb_def split: if_splits)
  obtain it where it: "find_index (same_bomb (ebombs eh ! i)) (ebombs eh) = Some it" "it \<le> i"
    using find_index_hit [OF i, of "same_bomb (ebombs eh ! i)"] by (auto simp: same_bomb_def)
  then have "length (erase_at it (ebombs eh)) = length (ebombs eh) - 1"
    using i by (simp add: length_erase_at)
  then show "\<exists>it fs. find_index (same_bomb (ebombs eh ! i)) (ebombs eh) = Some it \<and> it \<le> i \<and>
      boom (\<lambda>n. gtime w (gtick w + n)) (ebombs eh ! i) m = Inr (fs, m') \<and> r = 0 \<and>
      eh' = eh\<lparr>theFloorIsLava := fs @ theFloorIsLava eh, ebombs := erase_at it (ebombs eh)\<rparr> \<and>
      w' = w\<lparr>gtick := gtick w + length fs\<rparr> \<and> Suc i < length (ebombs eh)"
    using assms i it by (auto simp: explodeBomb_def Let_def split: if_splits)
qed

lemma draw_bomb_cases:
  assumes "draw_bomb i (ds, eh, m, w) = Inr (ds', eh', m', w')"
  obtains (shown) d where "i < length (ebombs eh)"
      "\<not> ShouldExplode (clk w (tick w)) (ebombs eh ! i)" "m' = m" "w' = w\<lparr>tick := Suc (Suc (tick w))\<rparr>"
      "eh' = eh\<lparr>ebombs := (ebombs eh)[i := animate (clk w (Suc (tick w))) (ebombs eh ! i)]\<rparr>"
      "ds' = ds @ [d]"
    | (exploded) "i < length (ebombs eh')" "length (ebombs eh) = Suc (length (ebombs eh'))"
      "ShouldExplode (clk w (tick w)) (ebombs eh ! i)"
      "explodeBomb i (eh, m, w\<lparr>tick := Suc (tick w)\<rparr>) = Inr (0, eh', m', w')"
proof -
  have i: "i < length (ebombs eh)"
    using assms by (auto simp: draw_bomb_def split: if_splits)
  show thesis
  proof (cases "ShouldExplode (clk w (tick w)) (ebombs eh ! i)")
    case False
    then show ?thesis using assms i
      by (auto simp: draw_bomb_def TimestampMillis_def Let_def intro: shown)
  next
    case True
    then obtain r where r: "explodeBomb i (eh, m, w\<lparr>tick := Suc (tick w)\<rparr>) = Inr (r, eh', m', w')"
      using assms i by (auto simp: draw_bomb_def TimestampMillis_def Let_def)
    from explodeBomb_Inr (2) [OF r] obtain it where
      "r = 0" "it \<le> i" "ebombs eh' = erase_at it (ebombs eh)" "Suc i < length (ebombs eh)" by auto
    then show ?thesis using r i True by (intro exploded) (auto simp: length_erase_at)
  qed
qed

lemma draw_bombs_need_all:
  "iterE draw_bomb [i..<n] (ds, eh, m, w) = Inr s \<Longrightarrow> i < n \<Longrightarrow> n \<le> length (ebombs eh)"
proof (induction "n - i" arbitrary: i ds eh m w)
  case 0
  then show ?case by simp
next
  case (Suc k)
  obtain ds' eh' m' w' where st: "draw_bomb i (ds, eh, m, w) = Inr (ds', eh', m', w')"
      "iterE draw_bomb [Suc i..<n] (ds', eh', m', w') = Inr s"
    using Suc.prems by (auto simp: upt_conv_Cons)
  have le: "length (ebombs eh') \<le> length (ebombs eh)" "i < length (ebombs eh)"
    using st(1) by (cases rule: draw_bomb_cases; simp)+
  show ?case
  proof (cases "Suc i = n")
    case False
    then have "n \<le> length (ebombs eh')" using Suc.hyps(1) [of "Suc i"] Suc.hyps(2) st(2) Suc.prems(2) by simp
    then show ?thesis using le by simp
  qed (use le in simp)
qed

text \<open>
  A run of the loop that comes to its end has shown every bomb, and none was due. \<open>at_rest\<close> is what
  an animation does not change.
\<close>

definition at_rest :: "bomb \<Rightarrow> int \<times> int \<times> int \<times> int \<times> rat \<times> bool" where
  "at_rest b = (pos_x b, pos_y b, explosion b, plant_time b, ttl b, is_atomic b)"

lemma at_rest_animate [simp]: "at_rest (animate t b) = at_rest b"
  by (simp add: at_rest_def animate_def)

lemma draw_bombs_shown:
  "iterE draw_bomb [i..<length (ebombs eh)] (ds, eh, m, w) = Inr (ds', eh', m', w') \<Longrightarrow>
    i \<le> length (ebombs eh) \<Longrightarrow>
    (\<forall>j. i \<le> j \<and> j < length (ebombs eh) \<longrightarrow>
      \<not> ShouldExplode (clk w (tick w + 2 * (j - i))) (ebombs eh ! j)) \<and>
    m' = m \<and> length (ebombs eh') = length (ebombs eh) \<and> theFloorIsLava eh' = theFloorIsLava eh \<and>
    eplayers eh' = eplayers eh \<and> length ds' = length ds + (length (ebombs eh) - i) \<and>
    map at_rest (ebombs eh') = map at_rest (ebombs eh) \<and> out w' = out w"
proof (induction "length (ebombs eh) - i" arbitrary: i ds eh m w)
  case 0
  then show ?case by auto
next
  case (Suc k)
  let ?n = "length (ebombs eh)"
  have i: "i < ?n" using Suc.hyps(2) by simp
  obtain d1 e1 m1 w1 where st: "draw_bomb i (ds, eh, m, w) = Inr (d1, e1, m1, w1)"
      "iterE draw_bomb [Suc i..<?n] (d1, e1, m1, w1) = Inr (ds', eh', m', w')"
    using Suc.prems(1) i by (auto simp: upt_conv_Cons)
  from st(1) show ?case
  proof (cases rule: draw_bomb_cases)
    case (exploded)
    then have "Suc i < ?n" by simp
    from draw_bombs_need_all [OF st(2) this] exploded(2) have False by simp
    then show ?thesis ..
  next
    case (shown d)
    let ?b = "animate (clk w (Suc (tick w))) (ebombs eh ! i)"
    have len: "length (ebombs e1) = ?n" using shown by simp
    have run: "iterE draw_bomb [Suc i..<length (ebombs e1)] (d1, e1, m1, w1) = Inr (ds', eh', m', w')"
      using st(2) unfolding len .
    have k: "k = length (ebombs e1) - Suc i" and le: "Suc i \<le> length (ebombs e1)"
      using Suc.hyps(2) i len by simp_all
    have IH: "\<forall>j. Suc i \<le> j \<and> j < ?n \<longrightarrow>
          \<not> ShouldExplode (clk w1 (tick w1 + 2 * (j - Suc i))) (ebombs e1 ! j)"
        "m' = m1" "length (ebombs eh') = ?n" "theFloorIsLava eh' = theFloorIsLava e1"
        "eplayers eh' = eplayers e1" "length ds' = length d1 + (?n - Suc i)"
        "map at_rest (ebombs eh') = map at_rest (ebombs e1)" "out w' = out w1"
      using Suc.hyps(1) [OF k run le] unfolding len by blast+
    have "\<not> ShouldExplode (clk w (tick w + 2 * (j - i))) (ebombs eh ! j)" if j: "i \<le> j" "j < ?n" for j
    proof (cases "j = i")
      case True
      then show ?thesis using shown(2) by simp
    next
      case False
      then obtain d where "j = Suc i + d" using j(1) le_Suc_ex [of "Suc i" j] by auto
      then show ?thesis using IH(1) [rule_format, of j] j shown(4,5) by simp
    qed
    moreover have "map at_rest (ebombs e1) = map at_rest (ebombs eh)"
      using shown(5) i by (simp add: map_update list_update_same_conv)
    ultimately show ?thesis using IH shown i by auto
  qed
qed

lemma draw_bombs_total:
  assumes "client_geometry m" "\<forall>b \<in> set (ebombs eh). \<bar>pos_x b\<bar> \<le> 1000000 \<and> \<bar>pos_y b\<bar> \<le> 1000000"
    and "\<forall>j. i \<le> j \<and> j < length (ebombs eh) \<longrightarrow>
      \<not> ShouldExplode (clk w (tick w + 2 * (j - i))) (ebombs eh ! j)"
    and "i \<le> length (ebombs eh)"
  shows "\<exists>s. iterE draw_bomb [i..<length (ebombs eh)] (ds, eh, m, w) = Inr s"
  using assms(2-4)
proof (induction "length (ebombs eh) - i" arbitrary: i ds eh w)
  case 0
  then show ?case by simp
next
  case (Suc k)
  let ?b = "ebombs eh ! i" and ?n = "length (ebombs eh)"
  let ?b' = "animate (clk w (Suc (tick w))) ?b"
  let ?eh = "eh\<lparr>ebombs := (ebombs eh)[i := ?b']\<rparr>" and ?w = "w\<lparr>tick := Suc (Suc (tick w))\<rparr>"
  have i: "i < ?n" using Suc.hyps(2) by simp
  have b: "\<bar>pos_x ?b\<bar> \<le> 1000000" "\<bar>pos_y ?b\<bar> \<le> 1000000" using Suc.prems(1) i by simp_all
  have pos: "pos_x ?b' = pos_x ?b" "pos_y ?b' = pos_y ?b" by (simp_all add: animate_def)
  obtain d where d: "draw_square m (pos_x ?b') (pos_y ?b') 7 (bomb_color ?b') = Inr d"
    using draw_square_board [OF assms(1) b, of 7] unfolding pos by simp
  have "\<not> ShouldExplode (clk w (tick w)) ?b" using Suc.prems(2) [rule_format, of i] i by simp
  then have st: "draw_bomb i (ds, eh, m, w) = Inr (ds @ [d], ?eh, m, ?w)"
    using d i by (simp add: draw_bomb_def TimestampMillis_def Let_def)
  have p': "\<forall>b \<in> set (ebombs ?eh). \<bar>pos_x b\<bar> \<le> 1000000 \<and> \<bar>pos_y b\<bar> \<le> 1000000"
    using Suc.prems(1) b pos by (auto dest!: set_update_subset_insert [THEN subsetD])
  have later: "\<not> ShouldExplode (clk ?w (tick ?w + 2 * (j - Suc i))) (ebombs ?eh ! j)"
    if j: "Suc i \<le> j" "j < length (ebombs ?eh)" for j
  proof -
    obtain d where "j = Suc i + d" using j(1) le_Suc_ex by blast
    then show ?thesis using Suc.prems(2) [rule_format, of j] j by simp
  qed
  have "\<exists>s. iterE draw_bomb [Suc i..<length (ebombs ?eh)] (ds @ [d], ?eh, m, ?w) = Inr s"
    by (rule Suc.hyps(1) [OF _ p']) (use Suc.hyps(2) i later in auto)
  then show ?case using st i by (simp add: upt_conv_Cons)
qed

text \<open>
  C13. Drawing the bombs is defined exactly as long as none of them is due: when
  the clock makes a bomb due at its turn, whichever it is, the loop over the vector the
  explosion erases from ends in the use of a destroyed bomb (or the explosion is out of
  bounds). So no bomb ever explodes on a client without undefined behaviour. While none is due
  every bomb is drawn once and only its animation changes.
\<close>

theorem drawBombs_defined_iff:
  assumes "client_geometry m" "\<forall>b \<in> set (ebombs eh). \<bar>pos_x b\<bar> \<le> 1000000 \<and> \<bar>pos_y b\<bar> \<le> 1000000"
  shows "((\<exists>r. drawBombs (eh, m, w) = Inr r) \<longleftrightarrow> (\<forall>j < length (ebombs eh).
      \<not> ShouldExplode (clk w (tick w + 2 * j)) (ebombs eh ! j))) \<and>
    (\<forall>ds eh' m' w'. drawBombs (eh, m, w) = Inr (ds, eh', m', w') \<longrightarrow>
      m' = m \<and> length ds = length (ebombs eh) \<and> theFloorIsLava eh' = theFloorIsLava eh \<and>
      eplayers eh' = eplayers eh \<and> map at_rest (ebombs eh') = map at_rest (ebombs eh))"
proof (intro conjI iffI allI impI)
  assume "\<forall>j < length (ebombs eh). \<not> ShouldExplode (clk w (tick w + 2 * j)) (ebombs eh ! j)"
  then show "\<exists>r. drawBombs (eh, m, w) = Inr r"
    using draw_bombs_total [OF assms, of 0 w "[]"] by (simp add: drawBombs_def)
qed (auto simp: drawBombs_def dest!: draw_bombs_shown)

theorem drawBombs_defined_iff_witness:
  "\<not> (\<exists>r. drawBombs (placeBomb 3 3 3 25 0 3 False (placeBomb 1 1 3 25 (- 9000) 3 False EntityHandler_new),
      client_map, sample_world) = Inr r) \<and>
   (\<exists>r. drawBombs (placeBomb 3 3 3 25 0 3 False EntityHandler_new, client_map, sample_world) = Inr r)"
proof -
  let ?one = "placeBomb 3 3 3 25 0 3 False EntityHandler_new"
  let ?two = "placeBomb 3 3 3 25 0 3 False (placeBomb 1 1 3 25 (- 9000) 3 False EntityHandler_new)"
  have "(\<exists>r. drawBombs (?one, client_map, sample_world) = Inr r) \<longleftrightarrow>
      (\<forall>j < length (ebombs ?one). \<not> ShouldExplode (clk sample_world (tick sample_world + 2 * j)) (ebombs ?one ! j))"
    by (rule drawBombs_defined_iff [THEN conjunct1])
      (simp_all add: placeBomb_def EntityHandler_new_def Bomb_new_def)
  moreover have "(\<exists>r. drawBombs (?two, client_map, sample_world) = Inr r) \<longleftrightarrow>
      (\<forall>j < length (ebombs ?two). \<not> ShouldExplode (clk sample_world (tick sample_world + 2 * j)) (ebombs ?two ! j))"
    by (rule drawBombs_defined_iff [THEN conjunct1])
      (simp_all add: placeBomb_def EntityHandler_new_def Bomb_new_def)
  ultimately show ?thesis
    by (auto simp: placeBomb_def EntityHandler_new_def Bomb_new_def ShouldExplode_def)
qed

end
