(* ===== verification/ClientFacts.thy ===== *)
theory ClientFacts
  imports ClientNet EntityFacts
begin

section \<open>The client in a game\<close>

text \<open>
  What the keys of a frame do, what every step of a client keeps (\<open>client_inv\<close>), and what becomes
  of a client whose player is out of the game.
\<close>

subsection \<open>Keys\<close>

text \<open>The tile the arrow keys of a frame lead to: each starts from the same tile, the last wins.\<close>

definition last_step :: "tmap \<Rightarrow> ui \<Rightarrow> int \<Rightarrow> int \<Rightarrow> int \<times> int" where
  "last_step m u x y = foldl (\<lambda>pos (k, dx, dy).
      if pressed u k \<and> tile m (x + dx) (y + dy) = 0 then (x + dx, y + dy) else pos) (x, y)
    [(KEY_RIGHT, 1, 0), (KEY_LEFT, - 1, 0), (KEY_UP, 0, - 1), (KEY_DOWN, 0, 1)]"

definition stands :: "boomberman \<Rightarrow> boomberman list \<Rightarrow> int \<times> int \<Rightarrow> entity_handler \<Rightarrow> entity_handler" where
  "stands b ps pos eh = eh\<lparr>eplayers := b\<lparr>position := Some pos\<rparr> # ps\<rparr>"

lemma step_key_Inr:
  assumes "step_key m p (x, y) dx dy tx ty down (stands b ps pos eh, w) = Inr (eh', w')"
    and "map_wf m" "interior x y" "\<bar>dx\<bar> + \<bar>dy\<bar> = 1"
  shows "eh' = stands b ps (if down \<and> tile m (x + dx) (y + dy) = 0 then (x + dx, y + dy) else pos) eh \<and>
    io_frame w w'"
proof (cases down)
  case False
  then show ?thesis using assms(1) by (simp add: step_key_def)
next
  case True
  have "move m (x, y) dx dy (b\<lparr>position := Some pos\<rparr>) =
      (if tile m (x + dx) (y + dy) = 0
       then Inr (True, b\<lparr>position := Some pos\<rparr>\<lparr>position := Some (x + dx, y + dy)\<rparr>)
       else Inr (False, b\<lparr>position := Some pos\<rparr>))"
    by (rule move_from_interior [OF assms(2,3) _ assms(4)]) simp
  then show ?thesis using assms(1) True
    by (auto simp: step_key_def stands_def local_boomberman_def set_local_def SendIMove_def
        intro: send_with_frame split: if_splits)
qed

lemma bomb_key_Inr:
  assumes "bomb_key p (x, y) down (eh, w) = Inr (eh', w')"
  shows "eh' = (if down then placeBomb x y 3 25 (clk w (tick w)) 3 False eh else eh) \<and> clk w' = clk w"
  using assms
  by (auto simp: bomb_key_def Let_def TimestampMillis_def SendIPlaceBomb_def io_frame_fields
      dest!: send_with_frame split: if_splits)

lemma leave_key_Inr: "leave_key p down (eh, w) = Inr (eh', w') \<Longrightarrow> eh' = eh"
  by (auto simp: leave_key_def split: if_splits)

text \<open>
  C26. Whatever keys are down in a frame, a local player strictly inside the walls ends it on the
  tile it started on or on a floor tile next to it, that of the last pressed arrow, in the order
  right, left, up, down, whose target is floor; so it never enters a wall or a crate. No other
  player moves, and a bomb is planted exactly when the space bar is down, on the tile of the
  frame's start.
\<close>

theorem keys_keep_to_the_floor:
  assumes "handle_keys m p (x, y) u (eh, w) = Inr (eh', w')"
    and "map_wf m" "interior x y" "eplayers eh = b # ps" "position b = Some (x, y)"
  shows "eplayers eh' = b\<lparr>position := Some (last_step m u x y)\<rparr> # ps \<and>
    (last_step m u x y = (x, y) \<or> tile m (fst (last_step m u x y)) (snd (last_step m u x y)) = 0) \<and>
    ebombs eh' = ebombs eh @ (if pressed u KEY_SPACE then [Bomb_new x y 3 25 (clk w (tick w)) 3 False] else []) \<and>
    theFloorIsLava eh' = theFloorIsLava eh"
proof -
  define bombed where "bombed = (if pressed u KEY_SPACE then placeBomb x y 3 25 (clk w (tick w)) 3 False eh else eh)"
  have "b\<lparr>position := Some (x, y)\<rparr> = b" using assms(5) by simp
  then have start: "bombed = stands b ps (x, y) bombed"
    using assms(4) by (simp add: bombed_def stands_def placeBomb_def)
  from assms(1) obtain e1 w1 e2 w2 e3 w3 e4 w4 e5 w5 where k:
      "bomb_key p (x, y) (pressed u KEY_SPACE) (eh, w) = Inr (e1, w1)"
      "step_key m p (x, y) 1 0 (float_of_int (x + 1)) y (pressed u KEY_RIGHT) (e1, w1) = Inr (e2, w2)"
      "step_key m p (x, y) (- 1) 0 (float_of_int (x - 1)) y (pressed u KEY_LEFT) (e2, w2) = Inr (e3, w3)"
      "step_key m p (x, y) 0 (- 1) x (float_of_int (y - 1)) (pressed u KEY_UP) (e3, w3) = Inr (e4, w4)"
      "step_key m p (x, y) 0 1 x (float_of_int (y + 1)) (pressed u KEY_DOWN) (e4, w4) = Inr (e5, w5)"
      "leave_key p (pressed u KEY_ESCAPE) (e5, w5) = Inr (eh', w')"
    by (auto simp: handle_keys_def)
  have "e1 = bombed" using bomb_key_Inr [OF k(1)] by (simp add: bombed_def)
  note step = step_key_Inr [OF _ assms(2,3), THEN conjunct1]
  have e1: "e1 = stands b ps (x, y) bombed" using \<open>e1 = bombed\<close> start by simp
  note e2 = step [OF k(2) [unfolded e1], simplified]
  note e3 = step [OF k(3) [unfolded e2], simplified]
  note e4 = step [OF k(4) [unfolded e3], simplified]
  note e5 = step [OF k(5) [unfolded e4], simplified]
  have "eh' = stands b ps (last_step m u x y) bombed"
    using e5 leave_key_Inr [OF k(6)] by (simp add: last_step_def)
  moreover have "last_step m u x y = (x, y) \<or> tile m (fst (last_step m u x y)) (snd (last_step m u x y)) = 0"
    by (simp add: last_step_def)
  ultimately show ?thesis by (simp add: stands_def bombed_def placeBomb_def)
qed

text \<open>A user who keeps some keys down.\<close>

definition holding :: "int list \<Rightarrow> ui" where
  "holding ks = \<lparr>frames = 0, WindowShouldClose = (\<lambda>_. False), IsKeyPressed = (\<lambda>_ k. k \<in> set ks),
    GetKeyPressed = (\<lambda>_. 0), IsMouseButtonPressed = (\<lambda>_. False), GetMousePosition = (\<lambda>_. (0, 0)),
    CheckCollisionPointRec = (\<lambda>_ _. False)\<rparr>"

definition playing_world :: world where
  "playing_world = sample_world\<lparr>conns := [5 \<mapsto> \<lparr>sock = 5, msg = GameMessage_default, inboundQueue = []\<rparr>]\<rparr>"

definition two_players :: entity_handler where
  "two_players = \<lparr>eplayers = [Boomberman_new ''ann'' RED 1 1 3, Boomberman_new ''bob'' GREEN 15 1 3],
    ebombs = [], theFloorIsLava = []\<rparr>"

theorem keys_keep_to_the_floor_witness:
  "\<exists>eh' w'. handle_keys client_map 5 (1, 1) (holding [KEY_RIGHT, KEY_DOWN, KEY_UP]) (two_players, playing_world) =
      Inr (eh', w') \<and> map position (eplayers eh') = [Some (1, 2), Some (15, 1)]"
proof -
  let ?u = "holding [KEY_RIGHT, KEY_DOWN, KEY_UP]"
  have "yields (handle_keys client_map 5 (1, 1) ?u (two_players, playing_world)) (\<lambda>_. True)"
    by code_simp
  then obtain eh' w' where r: "handle_keys client_map 5 (1, 1) ?u (two_players, playing_world) = Inr (eh', w')"
    by (auto elim!: yieldsE)
  have "last_step client_map ?u 1 1 = (1, 2)" by code_simp
  moreover have "map_wf client_map" "interior 1 1" by (simp, simp add: interior_def)
  moreover have "eplayers two_players = Boomberman_new ''ann'' RED 1 1 3 # [Boomberman_new ''bob'' GREEN 15 1 3]"
    by (simp add: two_players_def)
  ultimately show ?thesis
    using keys_keep_to_the_floor [OF r] r by simp
qed

subsection \<open>What every step keeps\<close>

definition entities_wf :: "entity_handler \<Rightarrow> bool" where
  "entities_wf eh \<longleftrightarrow> (\<forall>b \<in> set (eplayers eh). boomberman_wf b) \<and> theFloorIsLava eh = [] \<and>
    (\<forall>b \<in> set (ebombs eh). ttl b = 3 \<and> explosion b = (if is_atomic b then 9 else 3))"

definition names :: "entity_handler \<Rightarrow> string set" where
  "names eh = pseudonim ` set (eplayers eh)"

definition evolves :: "entity_handler \<Rightarrow> entity_handler \<Rightarrow> bool" where
  "evolves eh eh' \<longleftrightarrow> (entities_wf eh \<longrightarrow> entities_wf eh') \<and> names eh' \<subseteq> names eh"

lemma evolves_refl [simp, intro]: "evolves eh eh"
  by (simp add: evolves_def)

lemma evolves_trans: "evolves a b \<Longrightarrow> evolves b c \<Longrightarrow> evolves a c"
  by (auto simp: evolves_def)

lemma evolves_update:
  assumes "i < length (eplayers eh)" "pseudonim b = pseudonim (eplayers eh ! i)"
    "boomberman_wf (eplayers eh ! i) \<longrightarrow> boomberman_wf b"
  shows "evolves eh (eh\<lparr>eplayers := (eplayers eh)[i := b]\<rparr>)"
  using assms unfolding evolves_def entities_wf_def names_def
  by (auto dest!: set_update_subset_insert [THEN subsetD])

lemma evolves_erase: "evolves eh (eh\<lparr>eplayers := erase_at i (eplayers eh)\<rparr>)"
  using set_erase_at [of i "eplayers eh"] unfolding evolves_def entities_wf_def names_def by auto

lemma evolves_bomb:
  "(if d then e = 9 else e = 3) \<Longrightarrow> evolves eh (placeBomb x y e sz t 3 d eh)"
  by (auto simp: evolves_def entities_wf_def names_def placeBomb_def Bomb_new_def split: if_splits)

lemma place_player_evolves:
  assumes "place_player i x y eh = Inr eh'" "i < length (eplayers eh)"
  shows "evolves eh eh'"
  using assms
  by (auto simp: place_player_def setBoombermanPos_Inr boomberman_wf_def intro!: evolves_update)

lemma findPlayer_Some: "findPlayer eh u = Some i \<Longrightarrow> i < length (eplayers eh) \<and> pseudonim (eplayers eh ! i) = u"
  unfolding findPlayer_def by (drule find_index_Some) simp

lemma handleMessage_evolves:
  assumes "handleMessage m (sh, eh) = Inr (sh', eh')"
  shows "evolves eh eh'"
proof (cases "mtype m")
  case OTHER_MOVE
  then show ?thesis using assms place_player_evolves findPlayer_Some
    by (auto simp: handleMessage_def Let_def split: prod.splits option.splits if_splits)
next
  case OTHER_LEAVE
  then show ?thesis using assms evolves_erase
    by (auto simp: handleMessage_def split: option.splits)
next
  case GOT_HIT
  show ?thesis
  proof (cases "findPlayer eh (fst (msg_gothit m))")
    case None
    then show ?thesis using assms GOT_HIT by (simp add: handleMessage_def split: prod.splits)
  next
    case (Some i)
    then obtain b where b: "gotHit (snd (snd (msg_gothit m))) (eplayers eh ! i) = Inr b"
        "eh' = eh\<lparr>eplayers := if fst (snd (msg_gothit m)) \<le> 0 then erase_at i ((eplayers eh)[i := b])
          else (eplayers eh)[i := b]\<rparr>"
      using assms GOT_HIT by (auto simp: handleMessage_def Let_def split: prod.splits)
    have u: "evolves eh (eh\<lparr>eplayers := (eplayers eh)[i := b]\<rparr>)"
      using b(1) gotHit_wf [OF b(1)] findPlayer_Some [OF Some]
      by (intro evolves_update) (auto simp: gotHit_Inr)
    from evolves_trans [OF u evolves_erase, of i] u show ?thesis by (simp add: b(2))
  qed
next
  case OTHER_BOMB_PLACE
  then show ?thesis using assms evolves_bomb
    by (auto simp: handleMessage_def Let_def split: prod.splits if_splits)
next
  case MOVEMENT_CORRECTION
  then show ?thesis using assms place_player_evolves [of 0]
    by (auto simp: handleMessage_def Let_def split: prod.splits if_splits)
qed (use assms in \<open>auto simp: handleMessage_def\<close>)

text \<open>The reader thread.\<close>

definition net_step :: "client_net \<Rightarrow> client_net \<Rightarrow> bool" where
  "net_step s t \<longleftrightarrow> evolves (fst (snd s)) (fst (snd t)) \<and> out (snd (snd t)) = out (snd (snd s)) \<and>
    sh_conn (fst t) = sh_conn (fst s)"

lemma net_step_trans: "net_step r s \<Longrightarrow> net_step s t \<Longrightarrow> net_step r t"
  unfolding net_step_def using evolves_trans by auto

lemma net_step_refl [simp, intro]: "net_step s s"
  by (simp add: net_step_def)

lemma receive_one_net:
  assumes "receive_one s = Some (Inr t)"
  shows "net_step s t"
proof -
  obtain sh eh w where s: "s = (sh, eh, w)" by (metis prod_cases3)
  obtain m w1 sh1 eh1 where r: "Receive (sh_conn sh) w = Some (Inr (Some m, w1))"
      "handleMessage m (sh, eh) = Inr (sh1, eh1)" "t = (sh1, eh1, w1)"
    using assms unfolding s receive_one_def by (auto split: option.splits)
  show ?thesis
    using Receive_out [OF r(1)] handleMessage_evolves [OF r(2)] handleMessage_conn [OF r(2)]
    by (simp add: s r(3) net_step_def)
qed

lemma handle_queued_net:
  assumes "handle_queued s = Some (Inr t)"
  shows "net_step s t"
proof -
  have "\<forall>t. r = Inr t \<longrightarrow> net_step s t" if "handle_queued s = Some r" for s r
  proof (rule handle_queued.raw_induct [where P = "\<lambda>s r. \<forall>t. r = Inr t \<longrightarrow> net_step s t", OF _ that], intro allI impI)
    fix rec :: "client_net \<Rightarrow> client_net res option" and s :: client_net and r and t :: client_net
    assume IH: "\<And>s r. rec s = Some r \<Longrightarrow> \<forall>t. r = Inr t \<longrightarrow> net_step s t" and r: "r = Inr t"
      and eq: "(case HasMoreMessages (sh_conn (fst s)) (snd (snd s)) of
        Inl e \<Rightarrow> Some (Inl e)
      | Inr again \<Rightarrow> if \<not> again then Some (Inr s)
          else (case receive_one s of None \<Rightarrow> None | Some (Inl e) \<Rightarrow> Some (Inl e) | Some (Inr t) \<Rightarrow> rec t)) = Some r"
    then consider "t = s" | u where "receive_one s = Some (Inr u)" "rec u = Some (Inr t)"
      by (auto split: sum.splits if_splits option.splits)
    then show "net_step s t"
      using net_step_trans receive_one_net IH by cases (simp, blast)
  qed
  with assms show ?thesis by blast
qed

lemma receive_round_net:
  assumes "receive_round (sh, eh, w) = Some (Inr t)"
  shows "net_step (sh, eh, w) t"
proof -
  obtain r w1 where call: "sys_call (PollOn (polling_fd sh)) w = (r, w1)" by fastforce
  have w1: "net_step (sh, eh, w) (sh, eh, w1)"
    using call by (auto simp: net_step_def sys_call_def syscall_def)
  consider "t = (sh, eh, w1)" | u where "receive_one (sh, eh, w1) = Some (Inr u)" "handle_queued u = Some (Inr t)"
    using assms call by (auto simp: receive_round_def split: if_splits)
  then show ?thesis
  proof cases
    case 2
    then show ?thesis using w1 receive_one_net handle_queued_net net_step_trans by blast
  qed (use w1 in simp)
qed

subsection \<open>A frame\<close>

lemma survivors_Nil_iff: "theFloorIsLava eh = [] \<Longrightarrow> theFloorIsLava (fst (tryExtinguish (eh, w))) = []"
  using tryExtinguish_survivors [of eh w] by auto

lemma tryExtinguish_evolves:
  assumes "tryExtinguish (eh, w) = (eh', w')"
  shows "evolves eh eh'" "eplayers eh' = eplayers eh" "out w' = out w" "conns w' = conns w"
proof -
  obtain k where "tryExtinguish (eh, w) =
      (eh\<lparr>theFloorIsLava := survivors (\<lambda>n. gtime w (gtick w + n)) (theFloorIsLava eh)\<rparr>, w\<lparr>gtick := gtick w + k\<rparr>)"
    using tryExtinguish_survivors by blast
  then show "evolves eh eh'" "eplayers eh' = eplayers eh" "out w' = out w" "conns w' = conns w"
    using assms survivors_set [of _ "theFloorIsLava eh"]
    by (auto simp: evolves_def entities_wf_def names_def)
qed

lemma set_local_evolves:
  "local_boomberman eh = Inr b \<Longrightarrow> pseudonim b' = pseudonim b \<Longrightarrow> boomberman_wf b \<longrightarrow> boomberman_wf b' \<Longrightarrow>
    evolves eh (set_local b' eh)"
  unfolding set_local_def by (rule evolves_update) (auto simp: local_boomberman_def split: list.splits)

lemma step_key_evolves:
  assumes "step_key m p pos dx dy tx ty down (eh, w) = Inr (eh', w')"
  shows "evolves eh eh'"
proof (cases down)
  case True
  then obtain b ok b' where b: "local_boomberman eh = Inr b" "move m pos dx dy b = Inr (ok, b')"
      "eh' = (if ok then set_local b' eh else eh)"
    using assms by (auto simp: step_key_def split: if_splits)
  have "pseudonim b' = pseudonim b \<and> (boomberman_wf b \<longrightarrow> boomberman_wf b')"
    using b(2) by (auto simp: move_Inr Let_def boomberman_wf_def split: if_splits)
  then show ?thesis using b(1,3) set_local_evolves by simp
qed (use assms in \<open>simp add: step_key_def\<close>)

lemma bomb_key_evolves: "bomb_key p pos down (eh, w) = Inr (eh', w') \<Longrightarrow> evolves eh eh'"
  using evolves_bomb [of False 3] by (auto simp: bomb_key_def Let_def split: prod.splits if_splits)

lemma handle_keys_evolves:
  assumes "handle_keys m p (x, y) u (eh, w) = Inr (eh', w')"
  shows "evolves eh eh'"
proof -
  from assms obtain e1 w1 e2 w2 e3 w3 e4 w4 e5 w5 where k:
      "bomb_key p (x, y) (pressed u KEY_SPACE) (eh, w) = Inr (e1, w1)"
      "step_key m p (x, y) 1 0 (float_of_int (x + 1)) y (pressed u KEY_RIGHT) (e1, w1) = Inr (e2, w2)"
      "step_key m p (x, y) (- 1) 0 (float_of_int (x - 1)) y (pressed u KEY_LEFT) (e2, w2) = Inr (e3, w3)"
      "step_key m p (x, y) 0 (- 1) x (float_of_int (y - 1)) (pressed u KEY_UP) (e3, w3) = Inr (e4, w4)"
      "step_key m p (x, y) 0 1 x (float_of_int (y + 1)) (pressed u KEY_DOWN) (e4, w4) = Inr (e5, w5)"
      "leave_key p (pressed u KEY_ESCAPE) (e5, w5) = Inr (eh', w')"
    by (auto simp: handle_keys_def)
  show ?thesis
    using bomb_key_evolves [OF k(1)] step_key_evolves [OF k(2)] step_key_evolves [OF k(3)]
      step_key_evolves [OF k(4)] step_key_evolves [OF k(5)] leave_key_Inr [OF k(6)] evolves_trans
    by blast
qed

lemma draw_player_frame:
  "draw_player m p w = Inr (ds, p', w') \<Longrightarrow> (p', w') = player_frame p w"
  by (auto simp: draw_player_def player_frame_def Let_def split: prod.splits if_splits)

lemma draw_players_evolve:
  "draw_players m ps w = Inr (ds, ps', w') \<Longrightarrow> map pseudonim ps' = map pseudonim ps \<and>
    ((\<forall>p \<in> set ps. boomberman_wf p) \<longrightarrow> (\<forall>p \<in> set ps'. boomberman_wf p)) \<and> out w' = out w"
proof (induction ps arbitrary: w ds ps')
  case Nil
  then show ?case by simp
next
  case (Cons p ps)
  obtain d q w1 e qs where c: "draw_player m p w = Inr (d, q, w1)" "draw_players m ps w1 = Inr (e, qs, w')"
      "ps' = q # qs"
    using Cons.prems by auto
  note f = draw_player_frame [OF c(1), symmetric]
  show ?case
    using Cons.IH [OF c(2)] player_frame_simps(3,5) [OF f] player_frame_wf [OF f] c(3) by auto
qed

lemma drawPlayers_evolves:
  assumes "drawPlayers m eh w = Inr (ds, eh', w')"
  shows "evolves eh eh' \<and> out w' = out w \<and> ebombs eh' = ebombs eh \<and> map pseudonim (eplayers eh') = map pseudonim (eplayers eh)"
proof -
  obtain ps where "draw_players m (eplayers eh) w = Inr (ds, ps, w')" "eh' = eh\<lparr>eplayers := ps\<rparr>"
    using assms by (auto simp: drawPlayers_def)
  moreover from draw_players_evolve [OF this(1)]
  have "map pseudonim ps = map pseudonim (eplayers eh)" "out w' = out w"
      "(\<forall>p \<in> set (eplayers eh). boomberman_wf p) \<longrightarrow> (\<forall>p \<in> set ps. boomberman_wf p)"
    by blast+
  moreover from this(1) have "pseudonim ` set ps = pseudonim ` set (eplayers eh)"
    by (metis list.set_map)
  ultimately show ?thesis by (simp add: evolves_def entities_wf_def names_def)
qed

lemma drawBombs_evolves:
  assumes "drawBombs (eh, m, w) = Inr (ds, eh', m', w')"
  shows "evolves eh eh' \<and> m' = m \<and> out w' = out w \<and> eplayers eh' = eplayers eh"
proof -
  have d: "m' = m" "theFloorIsLava eh' = theFloorIsLava eh" "eplayers eh' = eplayers eh" "out w' = out w"
      "map at_rest (ebombs eh') = map at_rest (ebombs eh)"
    using draw_bombs_shown [of 0 eh "[]" m w ds eh' m' w'] assms by (auto simp: drawBombs_def)
  from d(5) have "at_rest ` set (ebombs eh') = at_rest ` set (ebombs eh)" by (metis list.set_map)
  then have "\<exists>c \<in> set (ebombs eh). at_rest b = at_rest c" if "b \<in> set (ebombs eh')" for b
    using that by (metis image_iff)
  then show ?thesis using d(1-4)
    by (fastforce simp: evolves_def entities_wf_def names_def at_rest_def)
qed

lemma draw_all_evolves:
  assumes "draw_all m eh w = Inr (ds, eh', m', w')"
  shows "evolves eh eh' \<and> m' = m \<and> out w' = out w"
  using assms drawPlayers_evolves drawBombs_evolves evolves_trans
  unfolding draw_all_def by (elim andThenE) (auto, blast+)

text \<open>What one frame does to the client.\<close>

lemma run_frame_cases:
  assumes "run_frame c = Inr (ds, c')"
  shows "evolves (cl_eh c) (cl_eh c') \<and> cl_map c' = cl_map c \<and> cl_sh c' = cl_sh c \<and>
    true_local_name c' = true_local_name c \<and> tutorial_color c' = tutorial_color c \<and>
    cl_ui c' = EndDrawing (cl_ui c) \<and> (already_waiting c \<longrightarrow> already_waiting c') \<and>
    ((closing_thread c \<longrightarrow> already_waiting c) \<longrightarrow> (closing_thread c' \<longrightarrow> already_waiting c')) \<and>
    (true_local_name c \<notin> names (cl_eh c) \<longrightarrow> out (cl_world c') = out (cl_world c))"
proof -
  from assms obtain b px py eh w b1 eh1 w1 eh2 m2 w2 where f: "local_boomberman (cl_eh c) = Inr b"
      "tryExtinguish (cl_eh c, cl_world c) = (eh, w)" "local_boomberman eh = Inr b1"
      "(if pseudonim b1 = true_local_name c
        then handle_keys (cl_map c) (sh_conn (cl_sh c)) (float_of_int px, float_of_int py) (cl_ui c) (eh, w)
        else Inr (eh, w)) = Inr (eh1, w1)"
      "draw_all (cl_map c) eh1 w1 = Inr (ds, eh2, m2, w2)"
      "c' = c\<lparr>cl_eh := eh2, cl_map := m2, cl_world := w2, cl_ui := EndDrawing (cl_ui c),
        closing_thread := closing_thread c \<or> (winner (cl_sh c) \<noteq> [] \<and> \<not> already_waiting c),
        already_waiting := already_waiting c \<or> winner (cl_sh c) \<noteq> []\<rparr>"
    by (auto simp: run_frame_def Let_def split: prod.splits)
  note t = tryExtinguish_evolves [OF f(2)] and d = draw_all_evolves [OF f(5)]
  have k: "evolves eh eh1" "true_local_name c \<notin> names eh \<longrightarrow> out w1 = out w"
    using f(3,4) handle_keys_evolves by (auto simp: names_def local_boomberman_def split: if_splits list.splits)
  have "names eh = names (cl_eh c)" by (simp add: names_def t(2))
  moreover have "evolves (cl_eh c) eh2" using t(1) k(1) d evolves_trans by blast
  ultimately show ?thesis using f(6) t k d by auto
qed

subsection \<open>The machine of a running client\<close>

text \<open>The window is the one \<open>Main.cpp\<close> opens, 800 by 450.\<close>

definition client_init :: "client \<Rightarrow> bool" where
  "client_init c \<longleftrightarrow> (\<exists>server port u w. start_client 800 450 server port u w = Some (Inr c))"

definition client_inv :: "client \<Rightarrow> bool" where
  "client_inv c \<longleftrightarrow> cl_map c = client_map \<and> entities_wf (cl_eh c) \<and>
    (closing_thread c \<longrightarrow> already_waiting c)"

lemma addPlayer_wf: "entities_wf eh \<Longrightarrow> entities_wf (snd (addPlayer pl (sh, eh)))"
  by (auto simp: addPlayer_def entities_wf_def Let_def)

lemma lobby_effect_wf:
  assumes "entities_wf (snd s)"
  shows "entities_wf (snd (lobby_effect m s))"
proof -
  have "entities_wf (snd (foldl (\<lambda>s pl. addPlayer pl s) s pls))" if "entities_wf (snd s)" for pls s
    using that
  proof (induction pls arbitrary: s)
    case (Cons pl pls)
    have "entities_wf (snd (addPlayer pl s))" using addPlayer_wf [of "snd s" pl "fst s"] Cons.prems by simp
    then show ?case using Cons.IH by simp
  qed simp
  then show ?thesis
    using assms addPlayer_wf [of "snd s" _ "fst s"] by (simp add: lobby_effect_def joinRoom_def)
qed

lemma handleLobbyMsg_wf:
  assumes "handleLobbyMsg m s u = Some (Inr (esc, s', u'))" "entities_wf (snd s)"
  shows "entities_wf (snd s')"
proof (cases "mtype m = GAME_START \<or> mtype m = ERROR")
  case True
  then show ?thesis using assms error_screen_exits [of u]
    by (cases "error_screen u") (auto simp: handleLobbyMsg_def)
next
  case False
  then show ?thesis using assms handleLobbyMsg_effect [of m s u] lobby_effect_wf [of s m] by auto
qed

lemma wait4Game_wf:
  assumes "wait4Game c = Some (Inr c')" "entities_wf (fst (snd (fst c)))"
  shows "entities_wf (fst (snd (fst c')))"
proof -
  let ?P = "\<lambda>c r. entities_wf (fst (snd (fst c))) \<longrightarrow> (\<forall>c'. r = Inr c' \<longrightarrow> entities_wf (fst (snd (fst c'))))"
  have "?P c r" if "wait4Game c = Some r" for c r
  proof (rule wait4Game.raw_induct [where P = ?P, OF _ that], goal_cases)
    case (1 rec c r)
    note IH = 1(1) and eq = 1(2)
    obtain sh eh w u where c: "c = ((sh, eh, w), u)" by (metis prod.collapse)
    have "entities_wf (fst (snd (fst c')))" if wf: "entities_wf eh" and r: "r = Inr c'" for c'
    proof -
      obtain m w1 esc sh' eh' u' where h: "Receive (sh_conn sh) w = Some (Inr (Some m, w1))"
          "handleLobbyMsg m (sh, eh) u = Some (Inr (esc, (sh', eh'), u'))"
          "(if esc then Some (Inr ((sh', eh', w1), u')) else rec ((sh', eh', w1), u')) = Some (Inr c')"
        using eq r unfolding c by (auto split: option.splits sum.splits prod.splits)
      have "entities_wf eh'" using handleLobbyMsg_wf [OF h(2)] wf by simp
      then show ?thesis using h(3) IH [of "((sh', eh', w1), u')" "Inr c'"] by (auto split: if_splits)
    qed
    then show ?case using c by simp
  qed
  with assms show ?thesis by blast
qed

lemma client_init_inv: "client_init c \<Longrightarrow> client_inv c"
proof -
  assume "client_init c"
  then obtain server port u w where "start_client 800 450 server port u w = Some (Inr c)"
    by (auto simp: client_init_def)
  then obtain sh w3 u1 sh1 eh w4 u2 where
      "wait4Game ((sh, EntityHandler_new, w3), u1) = Some (Inr ((sh1, eh, w4), u2))"
      "cl_eh c = eh" "cl_map c = client_map" "\<not> closing_thread c"
    by (auto simp: start_client_def Map_new_client split: sum.splits elim!: andThenOE)
  moreover have "entities_wf EntityHandler_new" by (simp add: entities_wf_def EntityHandler_new_def)
  ultimately show ?thesis using wait4Game_wf by (fastforce simp: client_inv_def)
qed

text \<open>What every step of a client keeps.\<close>

lemma client_step_changes:
  assumes "client_step c ev c'"
  shows "evolves (cl_eh c) (cl_eh c') \<and> cl_map c' = cl_map c \<and> true_local_name c' = true_local_name c \<and>
    ((closing_thread c \<longrightarrow> already_waiting c) \<longrightarrow> (closing_thread c' \<longrightarrow> already_waiting c')) \<and>
    (true_local_name c \<notin> names (cl_eh c) \<longrightarrow> out (cl_world c') = out (cl_world c))"
  using assms
proof (cases rule: client_step_cases)
  case (step_frame ds)
  then show ?thesis using run_frame_cases by blast
next
  case step_incoming
  then obtain sh eh w where r: "receive_round (cl_sh c, cl_eh c, cl_world c) = Some (Inr (sh, eh, w))"
      "c' = c\<lparr>cl_sh := sh, cl_eh := eh, cl_world := w\<rparr>"
    by (auto simp: receive_event_def elim!: andThenOE)
  then show ?thesis using receive_round_net [OF r(1)] by (simp add: net_step_def)
next
  case step_closing
  then show ?thesis by (auto simp: waitThreeSeconds_def sys_close_def syscall_def)
qed

interpretation client_machine: state_machine client_init client_step client_inv
proof
  show "client_inv c" if "client_init c" for c using that by (rule client_init_inv)
  show "client_inv c'" if "client_inv c" "client_step c ev c'" for c ev c'
    using client_step_changes [OF that(2)] that(1) by (auto simp: client_inv_def evolves_def)
qed

text \<open>
  C12. In every state a client reaches, in whatever order its frames, its received messages and the
  closing of its connection come: the board is still the initial one and nothing is on fire
  (an explosion has no defined result), every player has a position, a state of 1 or -1 and 0 to
  90 frames to blink, every bomb burns for three seconds and reaches 3 tiles, or 9 if it is
  atomic, and the closing thread only waits once it has been started.
\<close>

theorem client_consistent:
  assumes "reach client_init client_step c"
  shows "cl_map c = client_map \<and> theFloorIsLava (cl_eh c) = [] \<and>
    (\<forall>b \<in> set (eplayers (cl_eh c)). position b \<noteq> None \<and> bm_state b \<in> {1, - 1} \<and> 0 \<le> iframes b \<and> iframes b \<le> 90) \<and>
    (\<forall>b \<in> set (ebombs (cl_eh c)). ttl b = 3 \<and> explosion b = (if is_atomic b then 9 else 3)) \<and>
    (closing_thread c \<longrightarrow> already_waiting c)"
  using client_machine.reach_inv [OF assms]
  by (auto simp: client_inv_def entities_wf_def boomberman_wf_def)

text \<open>
  A run of the whole client: the socket, the connection, the menu with a click on the button for
  a new game, the name A typed and entered, the welcome, the start, and one frame.
\<close>

definition launching_world :: world where
  "launching_world = sample_world\<lparr>kans := (\<lambda>n. if n = 0 then 5 else 0),
    SerializeToArray := (\<lambda>m. if mtype m = GAME_START then [7] else [7, 7]),
    ParseFromArray := (\<lambda>_ n. if n = 1 then start_message else if n = 2 then welcome_message
      else \<lparr>mtype = ROOM_LIST, oneof = None\<rparr>),
    rd_pending := (\<lambda>_. [3, 7, 7, 7, 2, 7, 7, 1, 7]), rd_events := (\<lambda>_. [Deliver 4, Deliver 3])\<rparr>"

definition clicking_user :: ui where
  "clicking_user = (holding [])\<lparr>IsMouseButtonPressed := (\<lambda>_. True),
    CheckCollisionPointRec := (\<lambda>_ _. True), GetKeyPressed := (\<lambda>n. if n = 0 then 65 else KEY_ENTER)\<rparr>"

lemma sample_client_run:
  "\<exists>c c'. client_init c \<and> client_step c Frame c' \<and> true_local_name c' = ''bob'' \<and>
    map position (eplayers (cl_eh c')) = [Some (15, 1), Some (1, 1)]"
proof -
  have "yieldsO (start_client 800 450 ''127.0.0.1'' 1234 clicking_user launching_world)
      (\<lambda>c. \<not> WindowShouldClose (cl_ui c) (frames (cl_ui c)) \<and> yields (run_frame c) (\<lambda>(ds, c').
        length ds = 189 \<and> true_local_name c' = ''bob'' \<and>
        map position (eplayers (cl_eh c')) = [Some (15, 1), Some (1, 1)]))"
    by code_simp
  then obtain c ds c' where "start_client 800 450 ''127.0.0.1'' 1234 clicking_user launching_world = Some (Inr c)"
      "\<not> WindowShouldClose (cl_ui c) (frames (cl_ui c))" "run_frame c = Inr (ds, c')"
      "true_local_name c' = ''bob''" "map position (eplayers (cl_eh c')) = [Some (15, 1), Some (1, 1)]"
    by (auto elim!: yieldsOE yieldsE)
  then show ?thesis
    by (intro exI [of _ c] exI [of _ c']) (auto simp: client_init_def intro: step_frame)
qed

theorem client_consistent_witness:
  "\<exists>c. reach client_init client_step c \<and> true_local_name c = ''bob'' \<and> cl_map c = client_map \<and>
    map position (eplayers (cl_eh c)) = [Some (15, 1), Some (1, 1)] \<and>
    (\<forall>b \<in> set (eplayers (cl_eh c)). 0 \<le> iframes b \<and> iframes b \<le> 90)"
proof -
  obtain c c' where r: "client_init c" "client_step c Frame c'" "true_local_name c' = ''bob''"
      "map position (eplayers (cl_eh c')) = [Some (15, 1), Some (1, 1)]"
    using sample_client_run by (elim exE conjE) (rule that)
  have "reach client_init client_step c'"
    using reach_init [of client_init, OF r(1)] r(2) by (rule reach_step)
  with client_consistent [OF this] r(3,4) show ?thesis by (intro exI [of _ c'] conjI) simp_all
qed

text \<open>
  C27. A client whose player is out of the game never says anything again: once no player carries
  the local name, nothing is ever sent, whatever keys are pressed and whatever arrives (so
  neither the leave message of the escape key), and the player never comes back.
\<close>

theorem gone_client_is_silent:
  assumes "runs client_step c es c'" "true_local_name c \<notin> names (cl_eh c)"
  shows "out (cl_world c') = out (cl_world c) \<and> true_local_name c' = true_local_name c \<and>
    true_local_name c' \<notin> names (cl_eh c')"
  using assms
proof (induction rule: runs.induct)
  case (runs_more s e t es u)
  from client_step_changes [OF runs_more.hyps(1)] runs_more show ?case by (auto simp: evolves_def)
qed simp

text \<open>A client whose player ann is out, with the keys for a bomb, a move and leaving down.\<close>

definition gone_client :: client where
  "gone_client = \<lparr>cl_width = 800, cl_height = 450,
    cl_eh = two_players\<lparr>eplayers := [Boomberman_new ''bob'' GREEN 15 1 3]\<rparr>, cl_sh = sample_handler,
    cl_map = client_map, cl_world = playing_world, cl_ui = holding [KEY_SPACE, KEY_LEFT, KEY_ESCAPE],
    tutorial_color = RED, true_local_name = ''ann'', already_waiting = False, closing_thread = False\<rparr>"

theorem gone_client_is_silent_witness:
  "\<exists>c. client_step gone_client Frame c \<and> out (cl_world c) = (\<lambda>_. []) \<and> ''ann'' \<notin> names (cl_eh c)"
proof -
  have "yields (run_frame gone_client) (\<lambda>_. True)" by code_simp
  then obtain ds c where "run_frame gone_client = Inr (ds, c)" by (auto elim!: yieldsE)
  moreover have "\<not> WindowShouldClose (cl_ui gone_client) (frames (cl_ui gone_client))"
    by (simp add: gone_client_def holding_def)
  ultimately have st: "client_step gone_client Frame c" by (rule step_frame [rotated])
  have "true_local_name gone_client \<notin> names (cl_eh gone_client)" "true_local_name gone_client = ''ann''"
      "out (cl_world gone_client) = (\<lambda>_. [])"
    by (simp_all add: gone_client_def names_def two_players_def playing_world_def sample_world_def)
  then show ?thesis
    using gone_client_is_silent [of gone_client "[Frame]" c] st
      runs_more [of client_step, OF st runs_done [of client_step c]] by (intro exI [of _ c]) auto
qed

end
