(* ===== verification/RoomWire.thy ===== *)
theory RoomWire
  imports RoomActions ReceiveFacts
begin

section \<open>What a room writes to its players\<close>

text \<open>
  The bytes the operations of a room put on the sockets of its players. \<open>says c ms w w'\<close>: from \<open>w\<close> to
  \<open>w'\<close> exactly the frames of the messages \<open>ms\<close> have been written to the socket of the connection \<open>c\<close>,
  which goes on being able to send. The locale \<open>announcement\<close> is what the three ways of sending
  of a room rely on to say one message to whom they address.
\<close>

subsection \<open>Saying\<close>

text \<open>A connection that can send: its object exists, its socket is open and takes what is written.\<close>

definition healthy :: "int \<Rightarrow> world \<Rightarrow> bool" where
  "healthy c w \<longleftrightarrow> (case conns w c of None \<Rightarrow> False
    | Some k \<Rightarrow> fd_open w (sock k) \<and> list_all accepts (wr_events w (sock k)))"

definition says :: "int \<Rightarrow> GameMessage list \<Rightarrow> world \<Rightarrow> world \<Rightarrow> bool" where
  "says c ms w w' \<longleftrightarrow> (\<forall>k. sock_of k w' = sock_of k w) \<and> SerializeToArray w' = SerializeToArray w \<and>
    ParseFromArray w' = ParseFromArray w \<and> clk w' = clk w \<and> (healthy c w \<longrightarrow> healthy c w') \<and>
    out w' (sock_of c w) = out w (sock_of c w) @ wire w ms"

lemma says_refl [simp, intro]: "says c [] w w"
  by (simp add: says_def)

lemma says_trans: "says c ms u v \<Longrightarrow> says c ms' v w \<Longrightarrow> says c (ms @ ms') u w"
  using wire_cong [of v u] by (simp add: says_def)

lemma says_nothing: "says c [] u v \<Longrightarrow> says c ms v w \<Longrightarrow> says c ms u w"
  using says_trans [of c "[]" u v ms w] by simp

lemma says_tick [simp, intro]: "says c [] w (w\<lparr>tick := t\<rparr>)" "says c [] w (w\<lparr>gtick := t\<rparr>)"
    "says c [] w (w\<lparr>rtick := t\<rparr>)"
  by (simp_all add: says_def healthy_def sock_of_def split: option.split)

lemma says_decodable: "says c ms w w' \<Longrightarrow> decodable w' = decodable w"
  using decodable_cong by (auto simp: says_def)

lemma healthy_cong:
  assumes "rel_option same_conn (conns w c) (conns w' c)" "fd_open w' (sock_of c w) = fd_open w (sock_of c w)"
    "list_all accepts (wr_events w (sock_of c w)) \<longrightarrow> list_all accepts (wr_events w' (sock_of c w))"
    "healthy c w"
  shows "healthy c w'"
  using assms by (cases "conns w c"; cases "conns w' c") (auto simp: healthy_def sock_of_def same_conn_def)

lemma io_frame_sock_of: "io_frame w w' \<Longrightarrow> sock_of k w' = sock_of k w"
  using io_frame_rel [of w w' k] by (cases "conns w k"; cases "conns w' k") (simp_all add: sock_of_def same_conn_def)

lemma io_frame_says:
  assumes "io_frame w w'"
    "list_all accepts (wr_events w (sock_of c w)) \<longrightarrow> list_all accepts (wr_events w' (sock_of c w))"
    "out w' (sock_of c w) = out w (sock_of c w) @ wire w ms"
  shows "says c ms w w'"
  using healthy_cong [OF io_frame_rel [OF assms(1)] _ assms(2)] io_frame_fields [OF assms(1)]
    io_frame_sock_of [OF assms(1)] assms(3) by (simp add: says_def)

subsection \<open>What a send touches\<close>

lemma sys_write_touches:
  assumes "sys_write fd bs w = (n, w')"
  shows "(\<forall>k. k \<noteq> fd \<longrightarrow> out w' k = out w k \<and> wr_events w' k = wr_events w k) \<and>
    (list_all accepts (wr_events w fd) \<longrightarrow> list_all accepts (wr_events w' fd))"
  using assms by (auto simp: sys_write_def split: if_splits list.splits write_event.splits)

lemma send_rest_touches:
  "send_rest fd frame t w = Inr (r, w') \<Longrightarrow>
    (\<forall>k. k \<noteq> fd \<longrightarrow> out w' k = out w k \<and> wr_events w' k = wr_events w k) \<and>
    (list_all accepts (wr_events w fd) \<longrightarrow> list_all accepts (wr_events w' fd))"
proof (induction fd frame t w rule: send_rest.induct)
  case (1 fd frame t w)
  obtain n w1 where n: "sys_write fd (drop (unat t) frame) w = (n, w1)" by fastforce
  show ?case
    using "1.prems" "1.IH" [OF _ _ n [symmetric]] sys_write_touches [OF n]
    by (auto simp: send_rest.simps [of fd frame t w] n split: if_splits)
qed

lemma send_touches:
  assumes "send p w = Inr (r, w')"
  shows "(\<forall>k. k \<noteq> sock_of p w \<longrightarrow> out w' k = out w k \<and> wr_events w' k = wr_events w k) \<and>
    (list_all accepts (wr_events w (sock_of p w)) \<longrightarrow> list_all accepts (wr_events w' (sock_of p w)))"
proof -
  obtain c n w1 where c: "conns w p = Some c"
      "sys_write (sock c) (of_nat (length (SerializeToArray w (msg c))) # SerializeToArray w (msg c)) w = (n, w1)"
      "w' = w1 \<or> (\<exists>frame. send_rest (sock c) frame n w1 = Inr (r, w'))"
    using assms unfolding send_def by (auto simp: Let_def split: option.splits if_splits prod.splits)
  have s: "sock_of p w = sock c" using c(1) by (simp add: sock_of_def)
  from c(3) show ?thesis
  proof
    assume "w' = w1"
    then show ?thesis using sys_write_touches [OF c(2)] s by simp
  next
    assume "\<exists>frame. send_rest (sock c) frame n w1 = Inr (r, w')"
    then show ?thesis using sys_write_touches [OF c(2)] send_rest_touches s by fastforce
  qed
qed

lemma send_with_touches:
  assumes "send_with p g w = Inr (r, w')"
  shows "(\<forall>k. k \<noteq> sock_of p w \<longrightarrow> out w' k = out w k \<and> wr_events w' k = wr_events w k) \<and>
    (list_all accepts (wr_events w (sock_of p w)) \<longrightarrow> list_all accepts (wr_events w' (sock_of p w)))"
proof -
  obtain c where c: "conns w p = Some c"
      "send p (w\<lparr>conns := (conns w)(p \<mapsto> c\<lparr>msg := g (msg c)\<rparr>)\<rparr>) = Inr (r, w')"
    using assms by (auto simp: send_with_def split: option.splits)
  then show ?thesis using send_touches [OF c(2)] by (simp add: sock_of_def)
qed

text \<open>
  A message fits when \<open>send\<close> puts it into one frame and says so. Every decodable message does. The
  \<open>Send\<close> functions write into the message object of the connection, which keeps the last one sent.
\<close>

definition fits :: "world \<Rightarrow> GameMessage \<Rightarrow> bool" where
  "fits w m \<longleftrightarrow> length (SerializeToArray w m) \<le> 254"

definition last_msg :: "int \<Rightarrow> world \<Rightarrow> GameMessage" where
  "last_msg c w = (case conns w c of None \<Rightarrow> GameMessage_default | Some k \<Rightarrow> msg k)"

lemma decodable_fits [simp, intro]: "decodable w m \<Longrightarrow> fits w m"
  by (simp add: decodable_def fits_def)

lemma says_fits: "says c ms w w' \<Longrightarrow> fits w' = fits w"
  by (simp add: says_def fits_def fun_eq_iff)

lemma last_msg_cong: "conns w' c = conns w c \<Longrightarrow> last_msg c w' = last_msg c w"
  by (simp add: last_msg_def)

lemma send_with_conns:
  assumes "send_with p g w = Inr (r, w')"
  shows "\<exists>k. conns w p = Some k \<and> conns w' = (conns w)(p \<mapsto> k\<lparr>msg := g (msg k)\<rparr>)"
proof -
  obtain k where k: "conns w p = Some k" "send p (w\<lparr>conns := (conns w)(p \<mapsto> k\<lparr>msg := g (msg k)\<rparr>)\<rparr>) = Inr (r, w')"
    using assms by (auto simp: send_with_def split: option.splits)
  then show ?thesis using send_frame [OF k(2)] by simp
qed

text \<open>A message to another connection says nothing to this one, a message that fits to this one is said.\<close>

lemma send_with_elsewhere:
  assumes "send_with p g w = Inr (r, w')" "sock_of p w \<noteq> sock_of c w"
  shows "says c [] w w' \<and> last_msg c w' = last_msg c w"
proof
  show "says c [] w w'"
    by (rule io_frame_says [OF send_with_frame [OF assms(1)]])
      (use send_with_touches [OF assms(1)] assms(2) in \<open>auto simp: wire_def\<close>)
  have "p \<noteq> c" using assms(2) by auto
  then show "last_msg c w' = last_msg c w"
    using send_with_conns [OF assms(1)] by (auto intro: last_msg_cong)
qed

lemma send_with_answers:
  assumes "healthy c w" "fits w (g (last_msg c w))"
  shows "\<exists>n w'. send_with c g w = Inr (Some n, w') \<and>
    out w' = (out w)(sock_of c w := out w (sock_of c w) @ frame_of (SerializeToArray w (g (last_msg c w))))"
proof -
  obtain k where k: "conns w c = Some k" "fd_open w (sock k)" "list_all accepts (wr_events w (sock k))"
    using assms(1) by (auto simp: healthy_def split: option.splits)
  let ?w = "w\<lparr>conns := (conns w)(c \<mapsto> k\<lparr>msg := g (msg k)\<rparr>)\<rparr>"
  have "can_send c ?w (SerializeToArray w (g (last_msg c w)))"
    using k by (simp add: can_send_def last_msg_def)
  from send_delivers [OF this] assms(2) show ?thesis
    using k(1) by (auto simp: send_with_def fits_def sock_of_def)
qed

lemma send_with_says:
  assumes "send_with c g w = Inr (r, w')" "healthy c w" "fits w (g (last_msg c w))"
  shows "r \<noteq> None \<and> says c [g (last_msg c w)] w w' \<and> last_msg c w' = g (last_msg c w)"
proof -
  have o: "r \<noteq> None" "out w' = (out w)(sock_of c w := out w (sock_of c w) @ frame_of (SerializeToArray w (g (last_msg c w))))"
    using send_with_answers [where g = g, OF assms(2,3)] assms(1) by auto
  have "says c [g (last_msg c w)] w w'"
    by (rule io_frame_says [OF send_with_frame [OF assms(1)]])
      (use send_with_touches [OF assms(1)] o(2) in auto)
  moreover have "last_msg c w' = g (last_msg c w)" using send_with_conns [OF assms(1)] by (auto simp: last_msg_def)
  ultimately show ?thesis using o(1) by blast
qed

text \<open>No connection gets worse by what is sent, to it or to another.\<close>

lemma send_with_healthy:
  assumes "send_with p g w = Inr (r, w')" "healthy c w"
  shows "healthy c w'"
proof (rule healthy_cong [OF io_frame_rel _ _ assms(2)])
  show f: "io_frame w w'" by (rule send_with_frame [OF assms(1)])
  show "fd_open w' (sock_of c w) = fd_open w (sock_of c w)" by (simp add: io_frame_fields [OF f])
  show "list_all accepts (wr_events w (sock_of c w)) \<longrightarrow> list_all accepts (wr_events w' (sock_of c w))"
    using send_with_touches [OF assms(1)] by (cases "sock_of c w = sock_of p w") auto
qed

subsection \<open>Telling a player\<close>

text \<open>
  The seats of a room are its players with their connections. A player is online when its
  connection is healthy and shares its socket with no other player; it stays when it is not marked.
\<close>

definition seats :: "room \<Rightarrow> (nat \<times> int) list" where
  "seats r = map (\<lambda>p. (addr p, conn p)) (players r)"

definition online :: "nat \<Rightarrow> int \<Rightarrow> room \<times> world \<Rightarrow> bool" where
  "online a c s \<longleftrightarrow> distinct (map fst (seats (fst s))) \<and> (a, c) \<in> set (seats (fst s)) \<and> healthy c (snd s) \<and>
    (\<forall>(b, d) \<in> set (seats (fst s)). b \<noteq> a \<longrightarrow> sock_of d (snd s) \<noteq> sock_of c (snd s))"

definition staying :: "nat \<Rightarrow> room \<Rightarrow> bool" where
  "staying a r \<longleftrightarrow> (\<forall>p \<in> set (players r). addr p = a \<longrightarrow> \<not> markedForDisconnect p)"

definition tells :: "nat \<Rightarrow> int \<Rightarrow> GameMessage list \<Rightarrow> room \<times> world \<Rightarrow> room \<times> world \<Rightarrow> bool" where
  "tells a c ms s s' \<longleftrightarrow> says c ms (snd s) (snd s') \<and> seats (fst s') = seats (fst s) \<and>
    (staying a (fst s) \<longrightarrow> staying a (fst s'))"

lemma tells_refl [simp, intro]: "tells a c [] s s"
  by (simp add: tells_def)

lemma tells_trans: "tells a c ms s t \<Longrightarrow> tells a c ms' t u \<Longrightarrow> tells a c (ms @ ms') s u"
  using says_trans by (auto simp: tells_def)

lemma tells_online: "tells a c ms s s' \<Longrightarrow> online a c s \<Longrightarrow> online a c s'"
  by (simp add: tells_def online_def says_def)

lemma tells_decodable: "tells a c ms s s' \<Longrightarrow> decodable (snd s') = decodable (snd s)"
  using says_decodable by (auto simp: tells_def)

lemma seats_marks: "list_all2 marks (players r) (players r') \<Longrightarrow> seats r' = seats r"
  unfolding seats_def by (erule list_all2_map_eq) (simp add: marks_fields)

lemma seats_addrs: "map fst (seats r) = map addr (players r)"
  by (simp add: seats_def comp_def)

lemma seats_find:
  assumes "find_player b r = Some p"
  shows "(b, conn p) \<in> set (seats r)"
  using find_player_Some [OF assms] by (force simp: seats_def)

lemma online_find:
  assumes "online a c s" "find_player a (fst s) = Some p"
  shows "conn p = c"
proof -
  have "distinct (map fst (seats (fst s)))" "(a, c) \<in> set (seats (fst s))" using assms(1) by (simp_all add: online_def)
  moreover have "(a, conn p) \<in> set (seats (fst s))" by (rule seats_find [OF assms(2)])
  ultimately show ?thesis by (metis eq_key_imp_eq_value)
qed

lemma staying_mark: "b \<noteq> a \<Longrightarrow> staying a (upd_player b mark r) = staying a r"
  by (auto simp: staying_def upd_player_def mark_def)

text \<open>
  A send function that says the message \<open>g\<close> makes of the last one: the constant \<open>g\<close> of most of them
  set every field, that of \<open>SendGameStart\<close> sets the type only.
\<close>

locale announcement = message_sender +
  fixes g :: "GameMessage \<Rightarrow> GameMessage"
  assumes answered: "healthy c w \<Longrightarrow> fits w (g (last_msg c w)) \<Longrightarrow> \<exists>b w'. f c w = Inr (b, w')"
    and said: "f c w = Inr (b, w') \<Longrightarrow> healthy c w \<Longrightarrow> fits w (g (last_msg c w)) \<Longrightarrow>
      b \<noteq> None \<and> says c [g (last_msg c w)] w w' \<and> last_msg c w' = g (last_msg c w)"
    and said_elsewhere: "f p w = Inr (b, w') \<Longrightarrow> sock_of p w \<noteq> sock_of c w \<Longrightarrow>
      says c [] w w' \<and> last_msg c w' = last_msg c w"
    and stays_healthy: "f p w = Inr (b, w') \<Longrightarrow> healthy c w \<Longrightarrow> healthy c w'"
begin

lemma sendSpecific_says:
  assumes "sendSpecific b f s = Inr s'" "online a c s"
  shows "b \<noteq> a \<Longrightarrow> tells a c [] s s' \<and> last_msg c (snd s') = last_msg c (snd s)"
    and "b = a \<Longrightarrow> fits (snd s) (g (last_msg c (snd s))) \<Longrightarrow>
      tells a c [g (last_msg c (snd s))] s s' \<and> last_msg c (snd s') = g (last_msg c (snd s))"
proof -
  obtain r w where s: "s = (r, w)" by fastforce
  obtain p k w' where x: "find_player b r = Some p" "f (conn p) w = Inr (k, w')"
      "s' = (if k = None then upd_player b mark r else r, w')"
    using assms(1) by (auto simp: sendSpecific_def s get_player_Inr)
  have seats: "seats (fst s') = seats (fst s)"
    using sendSpecific_sent [OF assms(1)] by (auto simp: sent_def intro: seats_marks)
  show "tells a c [] s s' \<and> last_msg c (snd s') = last_msg c (snd s)" if "b \<noteq> a"
  proof -
    have "(b, conn p) \<in> set (seats r)" by (rule seats_find [OF x(1)])
    then have "sock_of (conn p) w \<noteq> sock_of c w" using assms(2) that by (auto simp: online_def s)
    from said_elsewhere [OF x(2) this] show ?thesis
      using seats x(3) staying_mark [OF that] by (simp add: tells_def s)
  qed
  show "tells a c [g (last_msg c (snd s))] s s' \<and> last_msg c (snd s') = g (last_msg c (snd s))"
    if "b = a" "fits (snd s) (g (last_msg c (snd s)))"
  proof -
    have "conn p = c" "healthy c w" using online_find [OF assms(2)] assms(2) x(1) that(1) by (simp_all add: s online_def)
    with said [OF x(2)] that(2) have "k \<noteq> None \<and> says c [g (last_msg c w)] w w' \<and> last_msg c w' = g (last_msg c w)"
      by (simp add: s)
    then show ?thesis using seats x(3) by (auto simp: tells_def s)
  qed
qed

lemmas sendSpecific_quiet = sendSpecific_says(1) [THEN conjunct1]

lemma sendMany_quiet:
  assumes "iterE (\<lambda>b s. if P b then sendSpecific b f s else Inr s) bs s = Inr s'" "online a c s" "a \<in> set bs \<Longrightarrow> \<not> P a"
  shows "tells a c [] s s' \<and> last_msg c (snd s') = last_msg c (snd s)"
  using assms
proof (induction bs arbitrary: s)
  case (Cons b bs)
  then obtain t where t: "(if P b then sendSpecific b f s else Inr s) = Inr t"
      "iterE (\<lambda>b s. if P b then sendSpecific b f s else Inr s) bs t = Inr s'" by auto
  have 1: "tells a c [] s t \<and> last_msg c (snd t) = last_msg c (snd s)"
  proof (cases "P b")
    case True
    then have "b \<noteq> a" using Cons.prems(3) by auto
    then show ?thesis using sendSpecific_says(1) [of b s t a c] t(1) True Cons.prems(2) by simp
  qed (use t(1) in simp)
  have "online a c t" by (rule tells_online [OF conjunct1 [OF 1] Cons.prems(2)])
  then have "tells a c [] t s' \<and> last_msg c (snd s') = last_msg c (snd t)" using Cons.IH [OF t(2)] Cons.prems(3) by auto
  then show ?case using 1 tells_trans [of a c "[]" s t "[]" s'] by simp
qed simp

lemma sendMany_says:
  assumes "iterE (\<lambda>b s. if P b then sendSpecific b f s else Inr s) bs s = Inr s'" "distinct bs"
    "online a c s" "fits (snd s) (g (last_msg c (snd s)))" "a \<in> set bs" "P a"
  shows "tells a c [g (last_msg c (snd s))] s s' \<and> last_msg c (snd s') = g (last_msg c (snd s))"
proof -
  obtain xs ys where bs: "bs = xs @ a # ys" using split_list assms(5) by metis
  let ?F = "\<lambda>b s. if P b then sendSpecific b f s else Inr s"
  obtain t u where t: "iterE ?F xs s = Inr t" "sendSpecific a f t = Inr u" "iterE ?F ys u = Inr s'"
    using assms(1,6) by (auto simp: bs iterE_append)
  have 1: "tells a c [] s t \<and> last_msg c (snd t) = last_msg c (snd s)"
    by (rule sendMany_quiet [OF t(1) assms(3)]) (use assms(2) bs in auto)
  have on: "online a c t" by (rule tells_online [OF conjunct1 [OF 1] assms(3)])
  have "fits (snd t) = fits (snd s)" using 1 says_fits by (auto simp: tells_def)
  then have 2: "tells a c [g (last_msg c (snd s))] t u \<and> last_msg c (snd u) = g (last_msg c (snd s))"
    using sendSpecific_says(2) [OF t(2) on refl] 1 assms(4) by simp
  have 3: "tells a c [] u s' \<and> last_msg c (snd s') = last_msg c (snd u)"
    by (rule sendMany_quiet [OF t(3) tells_online [OF conjunct1 [OF 2] on]]) (use assms(2) bs in auto)
  have "tells a c ([] @ [g (last_msg c (snd s))] @ []) s s'"
    using tells_trans 1 2 3 by blast
  then show ?thesis using 2 3 by simp
qed

lemma online_addrs: "online a c s \<Longrightarrow> a \<in> set (map addr (players (fst s))) \<and> distinct (map addr (players (fst s)))"
  by (force simp: online_def seats_addrs [symmetric])

lemma sendExcept_says:
  assumes "sendExcept b f s = Inr s'" "online a c s"
  shows "b = a \<Longrightarrow> tells a c [] s s' \<and> last_msg c (snd s') = last_msg c (snd s)"
    and "b \<noteq> a \<Longrightarrow> fits (snd s) (g (last_msg c (snd s))) \<Longrightarrow>
      tells a c [g (last_msg c (snd s))] s s' \<and> last_msg c (snd s') = g (last_msg c (snd s))"
proof -
  show "tells a c [] s s' \<and> last_msg c (snd s') = last_msg c (snd s)" if "b = a"
    by (rule sendMany_quiet [OF assms(1) [unfolded sendExcept_def] assms(2)]) (simp add: that)
  show "tells a c [g (last_msg c (snd s))] s s' \<and> last_msg c (snd s') = g (last_msg c (snd s))"
    if "b \<noteq> a" "fits (snd s) (g (last_msg c (snd s)))"
    by (rule sendMany_says [OF assms(1) [unfolded sendExcept_def] _ assms(2) that(2)])
      (use online_addrs [OF assms(2)] that(1) in auto)
qed

lemmas sendExcept_quiet = sendExcept_says(1) [OF _ _ refl, THEN conjunct1]

lemma sendBroadcast_says:
  assumes "sendBroadcast f s = Inr s'" "online a c s" "fits (snd s) (g (last_msg c (snd s)))"
  shows "tells a c [g (last_msg c (snd s))] s s' \<and> last_msg c (snd s') = g (last_msg c (snd s))"
  using sendMany_says [of "\<lambda>_. True" "map addr (players (fst s))" s s' a c] assms online_addrs [OF assms(2)]
  by (simp add: sendBroadcast_def)

lemmas sendSpecific_tells = sendSpecific_says(2) [OF _ _ refl, THEN conjunct1]
  and sendExcept_tells = sendExcept_says(2) [THEN conjunct1]
  and sendBroadcast_tells = sendBroadcast_says [THEN conjunct1]

end

lemma announcement_send_with: "announcement (\<lambda>c. send_with c g) g"
proof (intro announcement.intro message_sender_send_with announcement_axioms.intro)
  show "\<exists>b w'. send_with c g w = Inr (b, w')" if "healthy c w" "fits w (g (last_msg c w))" for c w
    using send_with_answers [where g = g, OF that] by blast
qed (simp_all add: send_with_says send_with_elsewhere send_with_healthy)

lemma set_message: "m\<lparr>mtype := t, oneof := Some b\<rparr> = message t b"
  by (simp add: message_def GameMessage_default_def)

lemma Send_messages:
  "SendError e = (\<lambda>c. send_with c (\<lambda>_. message ERROR (ErrorB e)))"
  "SendOtherMove u x y = (\<lambda>c. send_with c (\<lambda>_. message OTHER_MOVE (OtherMoveB u x y)))"
  "SendOtherBombPlace u t x y = (\<lambda>c. send_with c (\<lambda>_. message OTHER_BOMB_PLACE (OtherBombPlaceB u t x y)))"
  "SendGotHit u l t = (\<lambda>c. send_with c (\<lambda>_. message GOT_HIT (GotHitB u l t)))"
  "SendOtherLeave u = (\<lambda>c. send_with c (\<lambda>_. message OTHER_LEAVE (OtherLeaveB u)))"
  "SendGameWon u = (\<lambda>c. send_with c (\<lambda>_. message GAME_WON (GameWonB u)))"
  "SendMovementCorrection x y = (\<lambda>c. send_with c (\<lambda>_. message MOVEMENT_CORRECTION (MovementCorrectionB x y)))"
  "SendGameJoin g = (\<lambda>c. send_with c (\<lambda>_. message GAME_JOIN (GameJoinB (GamePlayer (fst g) (snd g)))))"
  "SendWelcomeToRoom gs = (\<lambda>c. send_with c (\<lambda>_. message WELCOME_TO_ROOM
    (WelcomeToRoomB (map (\<lambda>(u, k). GamePlayer u k) gs))))"
  by (intro ext; simp add: SendError_def SendOtherMove_def SendOtherBombPlace_def SendGotHit_def SendOtherLeave_def
    SendGameWon_def SendMovementCorrection_def SendGameJoin_def SendWelcomeToRoom_def set_message)+

interpretation say_error: announcement "SendError e" "\<lambda>_. message ERROR (ErrorB e)" for e
  unfolding Send_messages by (rule announcement_send_with)

interpretation say_move: announcement "SendOtherMove u x y" "\<lambda>_. message OTHER_MOVE (OtherMoveB u x y)" for u x y
  unfolding Send_messages by (rule announcement_send_with)

interpretation say_bomb: announcement "SendOtherBombPlace u t x y"
    "\<lambda>_. message OTHER_BOMB_PLACE (OtherBombPlaceB u t x y)" for u t x y
  unfolding Send_messages by (rule announcement_send_with)

interpretation say_hit: announcement "SendGotHit u l t" "\<lambda>_. message GOT_HIT (GotHitB u l t)" for u l t
  unfolding Send_messages by (rule announcement_send_with)

interpretation say_leave: announcement "SendOtherLeave u" "\<lambda>_. message OTHER_LEAVE (OtherLeaveB u)" for u
  unfolding Send_messages by (rule announcement_send_with)

interpretation say_won: announcement "SendGameWon u" "\<lambda>_. message GAME_WON (GameWonB u)" for u
  unfolding Send_messages by (rule announcement_send_with)

interpretation say_correction: announcement "SendMovementCorrection x y"
    "\<lambda>_. message MOVEMENT_CORRECTION (MovementCorrectionB x y)" for x y
  unfolding Send_messages by (rule announcement_send_with)

interpretation say_join: announcement "SendGameJoin g"
    "\<lambda>_. message GAME_JOIN (GameJoinB (GamePlayer (fst g) (snd g)))" for g
  unfolding Send_messages by (rule announcement_send_with)

interpretation say_welcome: announcement "SendWelcomeToRoom gs"
    "\<lambda>_. message WELCOME_TO_ROOM (WelcomeToRoomB (map (\<lambda>(u, k). GamePlayer u k) gs))" for gs
  unfolding Send_messages by (rule announcement_send_with)

interpretation say_start: announcement SendGameStart "\<lambda>m. m\<lparr>mtype := GAME_START\<rparr>"
  unfolding SendGameStart_def [abs_def] by (rule announcement_send_with)

subsection \<open>The news of a game\<close>

text \<open>
  The messages a room may send about players with names in \<open>N\<close>, at times in \<open>T\<close> and positions in \<open>X\<close>.
  \<open>speaks\<close>: the codec carries all of them, with the readings of the clock for times. The clock of
  the program is a 64-bit counter, so its readings are finitely many.
\<close>

definition complaints :: "string set" where
  "complaints = {''You can't really do anything while dead, can you?'', ''Unexpected message''}"

inductive_set news :: "string set \<Rightarrow> int set \<Rightarrow> (f32 \<times> f32) set \<Rightarrow> GameMessage set"
  for N :: "string set" and T :: "int set" and X :: "(f32 \<times> f32) set" where
  news_move: "u \<in> N \<Longrightarrow> (x, y) \<in> X \<Longrightarrow> message OTHER_MOVE (OtherMoveB u x y) \<in> news N T X"
| news_bomb: "u \<in> insert ''Server'' N \<Longrightarrow> t \<in> T \<Longrightarrow> (x, y) \<in> X \<Longrightarrow>
    message OTHER_BOMB_PLACE (OtherBombPlaceB u t x y) \<in> news N T X"
| news_hit: "u \<in> N \<Longrightarrow> 0 \<le> l \<Longrightarrow> l < 3 \<Longrightarrow> t \<in> T \<Longrightarrow> message GOT_HIT (GotHitB u l t) \<in> news N T X"
| news_leave: "u \<in> N \<Longrightarrow> message OTHER_LEAVE (OtherLeaveB u) \<in> news N T X"
| news_won: "u \<in> N \<Longrightarrow> message GAME_WON (GameWonB u) \<in> news N T X"
| news_correction: "(x, y) \<in> X \<Longrightarrow> message MOVEMENT_CORRECTION (MovementCorrectionB x y) \<in> news N T X"
| news_complaint: "e \<in> complaints \<Longrightarrow> message ERROR (ErrorB e) \<in> news N T X"

definition speaks :: "world \<Rightarrow> string set \<Rightarrow> (f32 \<times> f32) set \<Rightarrow> bool" where
  "speaks w N X \<longleftrightarrow> (\<forall>m \<in> news N (range (clk w)) X. decodable w m)"

definition tiles :: "(f32 \<times> f32) set" where
  "tiles = (\<lambda>(x, y). (Fin (of_int x), Fin (of_int y))) ` {(x, y). in_array x y}"

lemma speaks_cong:
  "clk w' = clk w \<Longrightarrow> decodable w' = decodable w \<Longrightarrow> speaks w' N X = speaks w N X"
  by (simp add: speaks_def)

lemma tells_speaks: "tells a c ms s s' \<Longrightarrow> speaks (snd s') N X = speaks (snd s) N X"
  using tells_decodable [of a c ms s s'] by (intro speaks_cong) (simp_all add: tells_def says_def)

lemma speaks_news:
  assumes "speaks w N X"
  shows "u \<in> N \<Longrightarrow> (x, y) \<in> X \<Longrightarrow> decodable w (message OTHER_MOVE (OtherMoveB u x y))"
    "u \<in> insert ''Server'' N \<Longrightarrow> (x, y) \<in> X \<Longrightarrow> decodable w (message OTHER_BOMB_PLACE (OtherBombPlaceB u (clk w n) x y))"
    "u \<in> N \<Longrightarrow> 0 \<le> l \<Longrightarrow> l < 3 \<Longrightarrow> decodable w (message GOT_HIT (GotHitB u l (clk w n)))"
    "u \<in> N \<Longrightarrow> decodable w (message OTHER_LEAVE (OtherLeaveB u))"
    "u \<in> N \<Longrightarrow> decodable w (message GAME_WON (GameWonB u))"
    "(x, y) \<in> X \<Longrightarrow> decodable w (message MOVEMENT_CORRECTION (MovementCorrectionB x y))"
    "e \<in> complaints \<Longrightarrow> decodable w (message ERROR (ErrorB e))"
  using assms by (auto simp: speaks_def intro: news.intros)

lemma tile_in_tiles: "in_array x y \<Longrightarrow> (Fin (of_int x), Fin (of_int y)) \<in> tiles"
  by (force simp: tiles_def)

subsection \<open>What a message of one player tells another\<close>

text \<open>The news another player is told when \<open>b\<close> moves or plants a bomb.\<close>

definition position_message :: "player \<Rightarrow> GameMessage" where
  "position_message p = message OTHER_MOVE (OtherMoveB (username p)
    (Fin (of_int (cx (coords p)))) (Fin (of_int (cy (coords p)))))"

lemma position_marks: "marks p q \<Longrightarrow> position_message q = position_message p"
  by (simp add: position_message_def marks_fields)

lemma find_seats:
  assumes "seats r' = seats r" "find_player b r = Some p"
  shows "\<exists>q. find_player b r' = Some q"
proof -
  have "map addr (players r') = map addr (players r)" using assms(1) seats_addrs by metis
  then show ?thesis using find_player_None [of b r'] find_player_None [of b r] assms(2) by fastforce
qed

text \<open>Changing a player but for its address and connection tells nobody anything.\<close>

lemma upd_player_tells:
  assumes "distinct (map addr (players r))" "find_player b r = Some p" "addr (f p) = addr p" "conn (f p) = conn p"
    "markedForDisconnect (f p) = markedForDisconnect p" "says c [] w w'"
  shows "tells a c [] (r, w) (upd_player b f r, w')"
proof -
  have only: "q = p" if "q \<in> set (players r)" "addr q = b" for q
    using find_player_iff [OF assms(1), of b q] that assms(2) by simp
  have "map (\<lambda>q. (addr (if addr q = b then f q else q), conn (if addr q = b then f q else q))) (players r) =
      map (\<lambda>q. (addr q, conn q)) (players r)"
    using only assms(3,4) by (intro map_cong) auto
  then have "seats (upd_player b f r) = seats r" by (simp add: seats_def upd_player_def comp_def)
  moreover have "staying a r \<longrightarrow> staying a (upd_player b f r)"
    using only assms(3,5) unfolding staying_def upd_player_def by auto
  ultimately show ?thesis using assms(6) by (simp add: tells_def)
qed

lemma handle_move_tells:
  assumes "handle_move m b r w = Inr (x, r', w')" "online a c (r, w)" "a \<noteq> b" "speaks w N X" "tiles \<subseteq> X"
    "username ` set (players r) \<subseteq> N" "room_inv r w"
  shows "\<exists>p p'. find_player b r = Some p \<and> find_player b r' = Some p' \<and>
    (coords p' = coords p \<and> tells a c [] (r, w) (r', w') \<or> tells a c [position_message p'] (r, w) (r', w'))"
proof -
  have d: "distinct (map addr (players r))" using assms(7) by (simp add: room_inv_def)
  from assms(1) obtain p i j t where h: "find_player b r = Some p" "getSquareState (rmap r) i j = Inr t"
      "(if t \<noteq> 0 then correct_movement b (GetCoords p) (r, w)
        else andThen (MoveCheckSus i j p w) (\<lambda>(correction, p', w1).
          let r1 = upd_player b (\<lambda>_. p') r in
          case correction of Some c \<Rightarrow> correct_movement b c (r1, w1)
          | None \<Rightarrow> andThen (sendExcept b (SendOtherMove (username p')
              (Fin (of_int (float_of_int i))) (Fin (of_int (float_of_int j)))) (r1, w1))
              (\<lambda>(r2, w2). Inr (False, r2, w2)))) = Inr (x, r', w')"
    by (auto simp: handle_move_def get_player_Inr split: prod.splits)
  have quiet: "tells a c [] s (r', w')" if "correct_movement b k s = Inr (x, r', w')" "online a c s" for k s
    using that assms(3) by (auto simp: correct_movement_def dest: say_correction.sendSpecific_quiet)
  show ?thesis
  proof (cases "t = 0")
    case False
    then have s: "correct_movement b (GetCoords p) (r, w) = Inr (x, r', w')" using h(3) by simp
    obtain q where "find_player b r' = Some q" "marks p q"
      using sent_find [OF conjunct1 [OF correct_movement_sent [OF s]] h(1) d] by blast
    then show ?thesis using h(1) quiet [OF s assms(2)] by (auto simp: marks_fields)
  next
    case True
    then obtain k p1 w1 where k: "MoveCheckSus i j p w = Inr (k, p1, w1)"
        "(case k of Some k \<Rightarrow> correct_movement b k (upd_player b (\<lambda>_. p1) r, w1)
          | None \<Rightarrow> andThen (sendExcept b (SendOtherMove (username p1)
              (Fin (of_int (float_of_int i))) (Fin (of_int (float_of_int j)))) (upd_player b (\<lambda>_. p1) r, w1))
              (\<lambda>(r2, w2). Inr (False, r2, w2))) = Inr (x, r', w')"
      using h(3) by (auto simp: Let_def)
    have ij: "in_array i j" using getSquareState_InrD [OF h(2)] by simp
    note p1 = moved_player [OF k(1) ij]
    have f: "conn p1 = conn p" "markedForDisconnect p1 = markedForDisconnect p"
      by (subst MoveCheckSus_frame [OF k(1)], simp)+
    have "says c [] w w1" using MoveCheckSus_world [OF k(1)] by auto
    then have 1: "tells a c [] (r, w) (upd_player b (\<lambda>_. p1) r, w1)"
      by (intro upd_player_tells [OF d h(1)]) (use f p1(2) in simp_all)
    then have on: "online a c (upd_player b (\<lambda>_. p1) r, w1)" by (rule tells_online) (rule assms(2))
    have found: "find_player b (upd_player b (\<lambda>_. p1) r) = Some p1"
      using find_upd_player [OF h(1), of p1] p1(2) find_player_Some [OF h(1)] by simp
    have d1: "distinct (map addr (players (upd_player b (\<lambda>_. p1) r)))"
      using upd_player_addrs [of p1 b r] p1(2) find_player_Some [OF h(1)] d by simp
    show ?thesis
    proof (cases k)
      case None
      from k(2) None have s: "sendExcept b (SendOtherMove (username p1)
          (Fin (of_int (float_of_int i))) (Fin (of_int (float_of_int j)))) (upd_player b (\<lambda>_. p1) r, w1) = Inr (r', w')"
        by auto
      have ij': "float_of_int i = i" "float_of_int j = j"
        using ij by (simp_all add: in_array_def float_of_int_exact)
      have msg: "message OTHER_MOVE (OtherMoveB (username p1) (Fin (of_int (float_of_int i)))
          (Fin (of_int (float_of_int j)))) = position_message p1"
        using p1(1) None by (simp add: position_message_def ij' mk_coords_def)
      have "username p1 \<in> N" using p1(3) assms(6) find_player_Some [OF h(1)] by auto
      moreover have "speaks w1 N X" using tells_speaks [OF 1] assms(4) by simp
      ultimately have "decodable w1 (position_message p1)"
        unfolding msg [symmetric] ij' using speaks_news(1) tile_in_tiles [OF ij] assms(5) by blast
      then have 2: "tells a c [position_message p1] (upd_player b (\<lambda>_. p1) r, w1) (r', w')"
        using say_move.sendExcept_tells [OF s on] assms(3) msg by simp
      obtain q where q: "find_player b r' = Some q" "marks p1 q"
        using sent_find [OF snd_move.sendExcept_sent [OF s] found d1] by blast
      have "tells a c ([] @ [position_message p1]) (r, w) (r', w')" by (rule tells_trans [OF 1 2])
      then show ?thesis using h(1) q position_marks [OF q(2)] by auto
    next
      case (Some l)
      with k(2) have s: "correct_movement b l (upd_player b (\<lambda>_. p1) r, w1) = Inr (x, r', w')" by simp
      obtain q where q: "find_player b r' = Some q" "marks p1 q"
        using sent_find [OF conjunct1 [OF correct_movement_sent [OF s]] found d1] by blast
      have "tells a c ([] @ []) (r, w) (r', w')" by (rule tells_trans [OF 1 quiet [OF s on]])
      then show ?thesis using h(1) q p1(1) Some by (auto simp: marks_fields)
    qed
  qed
qed

lemma send_error_quiet:
  "send_error b e r w = Inr (x, r', w') \<Longrightarrow> online a c (r, w) \<Longrightarrow> a \<noteq> b \<Longrightarrow> tells a c [] (r, w) (r', w')"
  by (auto simp: send_error_def dest: say_error.sendSpecific_quiet)

definition bomb_message :: "string \<Rightarrow> int \<Rightarrow> f32 \<times> f32 \<Rightarrow> GameMessage" where
  "bomb_message u t xy = message OTHER_BOMB_PLACE (OtherBombPlaceB u t (fst xy) (snd xy))"

text \<open>
  Whatever a player does in a started game, another one is told the player's new position or a bomb,
  or nothing, and when it is not told a position there is no new one.
\<close>

lemma HandleMessage_tells:
  assumes run: "HandleMessage m b r w = Inr (x, r', w')" and on: "online a c (r, w)" "a \<noteq> b"
    and N: "speaks w N X" "tiles \<subseteq> X" "username ` set (players r) \<subseteq> N"
    and inv: "room_inv r w" and play: "rstate r \<noteq> WAIT_FOR_START"
    and bomb: "mtype m = I_PLACE_BOMB \<longrightarrow> msg_iplacebomb m \<in> X"
  shows "\<exists>p p' ms. find_player b r = Some p \<and> find_player b r' = Some p' \<and> tells a c ms (r, w) (r', w') \<and>
    (ms = [position_message p'] \<or> coords p' = coords p \<and>
      (ms = [] \<or> (\<exists>n. ms = [bomb_message (username p) (clk w n) (msg_iplacebomb m)]) \<and>
        (\<exists>i j. floor_to_int (fst (msg_iplacebomb m)) = Inr i \<and> floor_to_int (snd (msg_iplacebomb m)) = Inr j) \<and>
        msg_iplacebomb m \<in> X))"
proof -
  obtain p where p: "find_player b r = Some p" using run by (auto simp: HandleMessage_def get_player_Inr)
  have d: "distinct (map addr (players r))" using inv by (simp add: room_inv_def)
  have quiet: ?thesis if s: "sent (r, w) (r', w')" and t: "tells a c [] (r, w) (r', w')"
    using sent_find [OF s p d] p t by (auto simp: marks_fields)
  show ?thesis
  proof (cases "livesRemaining p = 0 \<and> mtype m \<noteq> I_LEAVE")
    case True
    then have s: "send_error b ''You can't really do anything while dead, can you?'' r w = Inr (x, r', w')"
      using run p play by (simp add: HandleMessage_def get_player_def)
    show ?thesis using quiet send_error_sent [OF s] send_error_quiet [OF s on] by blast
  next
    case alive: False
    then have h: "(case mtype m of I_PLACE_BOMB \<Rightarrow> place_bomb m b r w | I_MOVE \<Rightarrow> handle_move m b r w
        | I_LEAVE \<Rightarrow> Inr (False, upd_player b mark r, w)
        | _ \<Rightarrow> send_error b ''Unexpected message'' r w) = Inr (x, r', w')"
      using run p play by (simp add: HandleMessage_def get_player_def split: if_splits)
    consider "place_bomb m b r w = Inr (x, r', w')" "mtype m = I_PLACE_BOMB"
      | "handle_move m b r w = Inr (x, r', w')" | "r' = upd_player b mark r" "w' = w"
      | "send_error b ''Unexpected message'' r w = Inr (x, r', w')"
      using h by (cases "mtype m") auto
    then show ?thesis
    proof cases
      case 1
      let ?msg = "bomb_message (username p) (clk w (tick w)) (msg_iplacebomb m)"
      obtain bx "by" where s: "sendExcept b (SendOtherBombPlace (username p) (clk w (tick w))
          (fst (msg_iplacebomb m)) (snd (msg_iplacebomb m)))
          (r\<lparr>bombs := bombs r @ [Bomb_new bx by 3 25 (clk w (Suc (tick w))) 3 False]\<rparr>,
            w\<lparr>tick := Suc (Suc (tick w))\<rparr>) = Inr (r', w')"
          "floor_to_int (fst (msg_iplacebomb m)) = Inr bx" "floor_to_int (snd (msg_iplacebomb m)) = Inr by"
        using 1(1) p by (auto simp: place_bomb_def get_player_def Let_def TimestampMillis_def split: prod.splits)
      let ?s = "(r\<lparr>bombs := bombs r @ [Bomb_new bx by 3 25 (clk w (Suc (tick w))) 3 False]\<rparr>,
            w\<lparr>tick := Suc (Suc (tick w))\<rparr>)"
      have t: "tells a c [] (r, w) ?s" by (auto simp: tells_def seats_def staying_def)
      have "username p \<in> N" using N(3) find_player_Some [OF p] by auto
      then have "decodable (snd ?s) ?msg"
        using tells_decodable [OF t] speaks_news(2) [OF N(1)] bomb 1(2) by (simp add: bomb_message_def)
      then have "tells a c [?msg] ?s (r', w')"
        using say_bomb.sendExcept_tells [OF s(1) tells_online [OF t on(1)]] on(2) by (simp add: bomb_message_def)
      from tells_trans [OF t this] have "tells a c [?msg] (r, w) (r', w')" by simp
      moreover obtain q where "find_player b r' = Some q" "marks p q"
        using sent_find [OF snd_bomb.sendExcept_sent [OF s(1)], of b p] p d by (auto simp: find_player_def)
      ultimately show ?thesis using p s(2,3) bomb 1(2)
        by (intro exI [of _ p] exI [of _ q] exI [of _ "[?msg]"]) (auto simp: marks_fields)
    next
      case 2
      then show ?thesis using handle_move_tells [OF 2 on N inv] by blast
    next
      case 3
      have "seats (upd_player b mark r) = seats r" by (rule seats_marks) (use upd_player_mark_sent in \<open>auto simp: sent_def\<close>)
      then show ?thesis using quiet upd_player_mark_sent 3 staying_mark on(2) by (auto simp: tells_def)
    next
      case 4
      then show ?thesis using quiet send_error_sent [OF 4] send_error_quiet [OF 4 on] by blast
    qed
  qed
qed

subsection \<open>What a player is told of its own messages\<close>

definition correction_message :: "Coords \<Rightarrow> GameMessage" where
  "correction_message c =
    message MOVEMENT_CORRECTION (MovementCorrectionB (Fin (of_int (cx c))) (Fin (of_int (cy c))))"

lemma correct_movement_tells:
  assumes "correct_movement a d s = Inr (x, s')" "online a c s" "speaks (snd s) N X" "tiles \<subseteq> X" "in_array (cx d) (cy d)"
  shows "tells a c [correction_message d] s s'"
proof -
  have s: "sendSpecific a (SendMovementCorrection (Fin (of_int (cx d))) (Fin (of_int (cy d)))) s = Inr s'"
    using assms(1) by (auto simp: correct_movement_def)
  have "(Fin (of_int (cx d)), Fin (of_int (cy d))) \<in> X" using tile_in_tiles [OF assms(5)] assms(4) by blast
  then show ?thesis
    using say_correction.sendSpecific_tells [OF s assms(2)] speaks_news(6) [OF assms(3)]
    by (simp add: correction_message_def)
qed

lemma complaint_tells:
  assumes "send_error a e r w = Inr (x, s')" "online a c (r, w)" "speaks w N X" "e \<in> complaints"
  shows "tells a c [message ERROR (ErrorB e)] (r, w) s'"
proof -
  have s: "sendSpecific a (SendError e) (r, w) = Inr s'" using assms(1) by (auto simp: send_error_def)
  show ?thesis
    using say_error.sendSpecific_tells [OF s assms(2)] speaks_news(7) [OF assms(3,4)] by simp
qed

text \<open>Corrections, if anything, and only while the player lives: an accepted move is not confirmed.\<close>

lemma handle_move_answer:
  assumes "handle_move m a r w = Inr (x, r', w')" "online a c (r, w)" "speaks w N X" "tiles \<subseteq> X" "room_inv r w"
  shows "tells a c [] (r, w) (r', w') \<or> (\<exists>d. in_array (cx d) (cy d) \<and> tells a c [correction_message d] (r, w) (r', w'))"
proof -
  have d: "distinct (map addr (players r))" using assms(5) by (simp add: room_inv_def)
  from assms(1) obtain p i j t where h: "find_player a r = Some p" "getSquareState (rmap r) i j = Inr t"
      "(if t \<noteq> 0 then correct_movement a (GetCoords p) (r, w)
        else andThen (MoveCheckSus i j p w) (\<lambda>(correction, p', w1).
          let r1 = upd_player a (\<lambda>_. p') r in
          case correction of Some c \<Rightarrow> correct_movement a c (r1, w1)
          | None \<Rightarrow> andThen (sendExcept a (SendOtherMove (username p')
              (Fin (of_int (float_of_int i))) (Fin (of_int (float_of_int j)))) (r1, w1))
              (\<lambda>(r2, w2). Inr (False, r2, w2)))) = Inr (x, r', w')"
    by (auto simp: handle_move_def get_player_Inr split: prod.splits)
  have wf: "player_wf (rmap r) p" using assms(5) find_player_Some [OF h(1)] by (simp add: room_inv_def)
  show ?thesis
  proof (cases "t = 0")
    case False
    then have s: "correct_movement a (GetCoords p) (r, w) = Inr (x, r', w')" using h(3) by simp
    have "in_array (cx (GetCoords p)) (cy (GetCoords p))" using wf by (simp add: player_wf_def GetCoords_def)
    then show ?thesis using correct_movement_tells [OF s assms(2) _ assms(4)] assms(3) by auto
  next
    case True
    then obtain k p1 w1 where k: "MoveCheckSus i j p w = Inr (k, p1, w1)"
        "(case k of Some k \<Rightarrow> correct_movement a k (upd_player a (\<lambda>_. p1) r, w1)
          | None \<Rightarrow> andThen (sendExcept a (SendOtherMove (username p1)
              (Fin (of_int (float_of_int i))) (Fin (of_int (float_of_int j)))) (upd_player a (\<lambda>_. p1) r, w1))
              (\<lambda>(r2, w2). Inr (False, r2, w2))) = Inr (x, r', w')"
      using h(3) by (auto simp: Let_def)
    have ij: "in_array i j" using getSquareState_InrD [OF h(2)] by simp
    have f: "conn p1 = conn p" "markedForDisconnect p1 = markedForDisconnect p"
      by (subst MoveCheckSus_frame [OF k(1)], simp)+
    have "says c [] w w1" using MoveCheckSus_world [OF k(1)] by auto
    then have 1: "tells a c [] (r, w) (upd_player a (\<lambda>_. p1) r, w1)"
      by (intro upd_player_tells [OF d h(1)]) (use f moved_player(2) [OF k(1) ij] in simp_all)
    then have on: "online a c (upd_player a (\<lambda>_. p1) r, w1)" by (rule tells_online) (rule assms(2))
    show ?thesis
    proof (cases k)
      case None
      then have "tells a c [] (upd_player a (\<lambda>_. p1) r, w1) (r', w')"
        using k(2) say_move.sendExcept_quiet [OF _ on] by auto
      then show ?thesis using tells_trans [OF 1] by fastforce
    next
      case (Some l)
      have sp: "speaks w1 N X" using tells_speaks [OF 1] assms(3) by simp
      have "correct_movement a l (upd_player a (\<lambda>_. p1) r, w1) = Inr (x, r', w')" using k(2) Some by simp
      moreover have l: "in_array (cx l) (cy l)" by (rule corrected_to [OF k(1) [unfolded Some] wf])
      ultimately have "tells a c [correction_message l] (upd_player a (\<lambda>_. p1) r, w1) (r', w')"
        using correct_movement_tells [OF _ on _ assms(4)] sp by auto
      from tells_trans [OF 1 this] l show ?thesis by auto
    qed
  qed
qed

lemma HandleMessage_answer:
  assumes run: "HandleMessage m a r w = Inr (x, r', w')" and on: "online a c (r, w)"
    and N: "speaks w N X" "tiles \<subseteq> X" and inv: "room_inv r w" and play: "rstate r \<noteq> WAIT_FOR_START"
    and stays: "mtype m \<noteq> I_LEAVE"
  shows "\<exists>p ms. find_player a r = Some p \<and> tells a c ms (r, w) (r', w') \<and>
    (ms = [] \<or> (\<exists>e \<in> complaints. ms = [message ERROR (ErrorB e)]) \<or>
      0 < livesRemaining p \<and> (\<exists>d. in_array (cx d) (cy d) \<and> ms = [correction_message d]))"
proof -
  obtain p where p: "find_player a r = Some p" using run by (auto simp: HandleMessage_def get_player_Inr)
  have wf: "player_wf (rmap r) p" using inv find_player_Some [OF p] by (simp add: room_inv_def)
  have complaint: ?thesis if "send_error a e r w = Inr (x, r', w')" "e \<in> complaints" for e
    using complaint_tells [OF that(1) on N(1) that(2)] p that(2) by blast
  show ?thesis
  proof (cases "livesRemaining p = 0")
    case True
    then have "send_error a ''You can't really do anything while dead, can you?'' r w = Inr (x, r', w')"
      using run p play stays by (simp add: HandleMessage_def get_player_def)
    then show ?thesis by (rule complaint) (simp add: complaints_def)
  next
    case alive: False
    then have pos: "0 < livesRemaining p" using wf by (simp add: player_wf_def)
    have h: "(case mtype m of I_PLACE_BOMB \<Rightarrow> place_bomb m a r w | I_MOVE \<Rightarrow> handle_move m a r w
        | I_LEAVE \<Rightarrow> Inr (False, upd_player a mark r, w)
        | _ \<Rightarrow> send_error a ''Unexpected message'' r w) = Inr (x, r', w')"
      using run p play alive by (simp add: HandleMessage_def get_player_def split: if_splits)
    consider "place_bomb m a r w = Inr (x, r', w')" | "handle_move m a r w = Inr (x, r', w')"
      | "send_error a ''Unexpected message'' r w = Inr (x, r', w')"
      using h stays by (cases "mtype m") auto
    then show ?thesis
    proof cases
      case 1
      then obtain bx "by" where s: "sendExcept a (SendOtherBombPlace (username p) (clk w (tick w))
          (fst (msg_iplacebomb m)) (snd (msg_iplacebomb m)))
          (r\<lparr>bombs := bombs r @ [Bomb_new bx by 3 25 (clk w (Suc (tick w))) 3 False]\<rparr>,
            w\<lparr>tick := Suc (Suc (tick w))\<rparr>) = Inr (r', w')"
        using p by (auto simp: place_bomb_def get_player_def Let_def TimestampMillis_def split: prod.splits)
      have t: "tells a c [] (r, w) (r\<lparr>bombs := bombs r @ [Bomb_new bx by 3 25 (clk w (Suc (tick w))) 3 False]\<rparr>,
            w\<lparr>tick := Suc (Suc (tick w))\<rparr>)"
        by (auto simp: tells_def seats_def staying_def)
      from tells_trans [OF t say_bomb.sendExcept_quiet [OF s tells_online [OF t on]]] p show ?thesis by auto
    next
      case 2
      then show ?thesis using handle_move_answer [OF 2 on N inv] p pos by blast
    next
      case 3
      then show ?thesis by (rule complaint) (simp add: complaints_def)
    qed
  qed
qed

end
