(* ===== verification/RoomCalls.thy ===== *)
theory RoomCalls
  imports RoomWire
begin

section \<open>The calls of a room, with what they write\<close>

text \<open>
  Three calls of a room whose effect depends on what their sends answer. An explosion: with
  players that can be sent to nothing but the draw of the winner can go wrong. The sweep: it removes the
  marked players and, of the others, only some it cannot send to. A join: what the new player and
  the others are told of it.
\<close>

subsection \<open>Messages\<close>

text \<open>The messages the server sends about a player, as they arrive.\<close>

definition hit_message :: "player \<Rightarrow> int \<Rightarrow> GameMessage" where
  "hit_message p time = message GOT_HIT (GotHitB (username p) (livesRemaining p - 1) time)"

definition leave_message :: "player \<Rightarrow> GameMessage" where
  "leave_message p = message OTHER_LEAVE (OtherLeaveB (username p))"

definition join_message :: "player \<Rightarrow> GameMessage" where
  "join_message p = message GAME_JOIN (GameJoinB (GamePlayer (username p) (color p)))"

definition roster_message :: "player list \<Rightarrow> GameMessage" where
  "roster_message ps = message WELCOME_TO_ROOM (WelcomeToRoomB (map (\<lambda>p. GamePlayer (username p) (color p)) ps))"

text \<open>The bomb the server plants for a player that leaves.\<close>

definition last_bomb_message :: "player \<Rightarrow> int \<Rightarrow> GameMessage" where
  "last_bomb_message p time =
    bomb_message ''Server'' time (Fin (of_int (cx (coords p))), Fin (of_int (cy (coords p))))"

subsection \<open>Sends that return\<close>

text \<open>A room all of whose players can be sent to.\<close>

definition attended :: "room \<times> world \<Rightarrow> bool" where
  "attended s \<longleftrightarrow> (\<forall>p \<in> set (players (fst s)). healthy (conn p) (snd s))"

lemma find_player_in: "b \<in> set (map addr (players r)) \<Longrightarrow> \<exists>p. find_player b r = Some p"
  using find_player_None [of b r] by auto

lemma sent_fits: "sent s s' \<Longrightarrow> fits (snd s') = fits (snd s)"
  by (auto simp: sent_def fits_def io_frame_fields fun_eq_iff)

lemma sent_addrs: "sent s s' \<Longrightarrow> map addr (players (fst s')) = map addr (players (fst s))"
  by (simp add: sent_def marks_maps)

context announcement
begin

lemma sendSpecific_returns:
  assumes "attended s" "b \<in> set (map addr (players (fst s)))" "\<And>m. fits (snd s) (g m)"
  shows "\<exists>s'. sendSpecific b f s = Inr s' \<and> attended s'"
proof -
  obtain r w where s: "s = (r, w)" by fastforce
  obtain p where p: "find_player b r = Some p" using find_player_in assms(2) s by fastforce
  then have "healthy (conn p) w" using assms(1) find_player_Some [OF p] by (auto simp: attended_def s)
  then obtain k w' where k: "f (conn p) w = Inr (k, w')" using answered assms(3) s by (metis snd_conv)
  have "\<forall>q \<in> set (players r). healthy (conn q) w'"
    using assms(1) stays_healthy [OF k] by (simp add: attended_def s)
  then have "attended (if k = None then upd_player b mark r else r, w')"
    by (auto simp: attended_def upd_player_def mark_def)
  then show ?thesis using p k by (simp add: sendSpecific_def s get_player_def)
qed

lemma sendBroadcast_returns:
  assumes "attended s" "\<And>m. fits (snd s) (g m)"
  shows "\<exists>s'. sendBroadcast f s = Inr s' \<and> attended s'"
proof -
  let ?P = "\<lambda>t. attended t \<and> map addr (players (fst t)) = map addr (players (fst s)) \<and> fits (snd t) = fits (snd s)"
  have "\<exists>t. iterE (\<lambda>b s. sendSpecific b f s) (map addr (players (fst s))) s = Inr t \<and> ?P t"
  proof (rule iterE_total)
    fix b t assume b: "b \<in> set (map addr (players (fst s)))" and t: "?P t"
    then have "b \<in> set (map addr (players (fst t)))" "\<And>m. fits (snd t) (g m)" using assms(2) by simp_all
    then obtain u where u: "sendSpecific b f t = Inr u" "attended u" using sendSpecific_returns t by blast
    note v = sendSpecific_sent [OF u(1)]
    show "\<exists>u. sendSpecific b f t = Inr u \<and> ?P u"
      using u t sent_fits [OF v] sent_addrs [OF v] by (intro exI [of _ u]) simp
  qed (simp add: assms(1))
  then show ?thesis by (auto simp: sendBroadcast_def)
qed

end

subsection \<open>Explosions that nobody survives\<close>

text \<open>
  The loop over the players of a room in which everyone alive has one life: it goes on wherever
  all can be sent to. \<open>N\<close> are their names.
\<close>

definition exposed :: "string set \<Rightarrow> world \<Rightarrow> room \<times> world \<Rightarrow> bool" where
  "exposed N w0 s \<longleftrightarrow> attended s \<and> fits (snd s) = fits w0 \<and> clk (snd s) = clk w0 \<and>
    (\<forall>p \<in> set (players (fst s)). username p \<in> N \<and> livesRemaining p \<le> 1 \<and> in_array (cx (coords p)) (cy (coords p)))"

lemma exposed_sent:
  assumes "exposed N w0 s" "sent s s'" "attended s'"
  shows "exposed N w0 s'"
proof -
  have l: "list_all2 marks (players (fst s)) (players (fst s'))" and io: "io_frame (snd s) (snd s')"
    using assms(2) by (simp_all add: sent_def)
  have "\<forall>p \<in> set (players (fst s)). username p \<in> N \<and> livesRemaining p \<le> 1 \<and> in_array (cx (coords p)) (cy (coords p))"
    using assms(1) by (simp add: exposed_def)
  then have "\<forall>q \<in> set (players (fst s')). username q \<in> N \<and> livesRemaining q \<le> 1 \<and> in_array (cx (coords q)) (cy (coords q))"
    by (rule list_all2_ball [OF l]) (simp add: marks_fields)
  then show ?thesis
    using assms(1,3) sent_fits [OF assms(2)] io_frame_fields [OF io] by (simp add: exposed_def)
qed

lemma burn_player_returns:
  assumes "exposed N w0 s" "a \<in> set (map addr (players (fst s)))"
    and fit: "\<And>u n. u \<in> N \<Longrightarrow> fits w0 (message GOT_HIT (GotHitB u 0 (clk w0 n)))"
  shows "\<exists>s'. burn_player a ax ay t s = Inr s' \<and> exposed N w0 s' \<and>
    map addr (players (fst s')) = map addr (players (fst s))"
proof -
  obtain r w where s: "s = (r, w)" by fastforce
  obtain p where p: "find_player a r = Some p" using find_player_in assms(2) s by fastforce
  have tick: "exposed N w0 (r, w\<lparr>tick := k\<rparr>)" for k
    using assms(1) by (auto simp: s exposed_def attended_def healthy_def fits_def fun_eq_iff split: option.splits)
  show ?thesis
  proof (cases "ax = fire_x t \<and> ay = fire_y t \<and> livesRemaining p > 0")
    case False
    then show ?thesis using p assms(1) by (auto simp: burn_player_def s get_player_def)
  next
    case on: True
    show ?thesis
    proof (cases "immunityEndTimestamp p > clk w (tick w)")
      case True
      then show ?thesis using p on tick by (auto simp: burn_player_def s get_player_def TimestampMillis_def)
    next
      case False
      let ?hit = "\<lambda>p. p\<lparr>immunityEndTimestamp := clk w (Suc (tick w)) + 500, livesRemaining := 0\<rparr>"
      let ?t = "(upd_player a ?hit r, w\<lparr>tick := Suc (Suc (Suc (tick w)))\<rparr>)"
      have clk: "clk w = clk w0" using assms(1) by (simp add: s exposed_def)
      have "livesRemaining p = 1" using on assms(1) find_player_Some [OF p] by (auto simp: s exposed_def)
      then have run: "burn_player a ax ay t s =
          sendBroadcast (SendGotHit (username p) 0 (clk w0 (Suc (Suc (tick w))))) ?t"
        using p on False clk by (simp add: burn_player_def s get_player_def TimestampMillis_def Let_def)
      have t: "exposed N w0 ?t"
        using tick by (auto simp: exposed_def attended_def upd_player_def)
      have "username p \<in> N" using assms(1) find_player_Some [OF p] by (auto simp: s exposed_def)
      then have "fits (snd ?t) (message GOT_HIT (GotHitB (username p) 0 (clk w0 (Suc (Suc (tick w))))))"
        using t fit by (simp add: exposed_def)
      then obtain s' where s': "sendBroadcast (SendGotHit (username p) 0 (clk w0 (Suc (Suc (tick w))))) ?t = Inr s'" "attended s'"
        using say_hit.sendBroadcast_returns [of ?t "username p" 0 "clk w0 (Suc (Suc (tick w)))"] t
        unfolding exposed_def by blast
      note v = snd_hit.sendBroadcast_sent [OF s'(1)]
      have "map addr (players (fst ?t)) = map addr (players r)" by (simp add: upd_player_def)
      then show ?thesis using run s' exposed_sent [OF t v s'(2)] sent_addrs [OF v] s by simp
    qed
  qed
qed

lemma explode_player_returns:
  assumes "exposed N w0 s" "a \<in> set (map addr (players (fst s)))"
    and fit: "\<And>u n. u \<in> N \<Longrightarrow> fits w0 (message GOT_HIT (GotHitB u 0 (clk w0 n)))"
  shows "\<exists>s'. explode_player fs a s = Inr s' \<and> exposed N w0 s' \<and>
    map addr (players (fst s')) = map addr (players (fst s))"
proof -
  obtain p where p: "find_player a (fst s) = Some p" using find_player_in [OF assms(2)] by blast
  then have "in_array (cx (coords p)) (cy (coords p))" using assms(1) find_player_Some [OF p] by (auto simp: exposed_def)
  then have "explode_player fs a s = iterE (burn_player a (cx (coords p)) (cy (coords p))) fs s"
    using p by (simp add: explode_player_def get_player_def GetCoords_def in_array_def to_int32_def int32_ok_def)
  moreover have "\<exists>s'. iterE (burn_player a (cx (coords p)) (cy (coords p))) fs s = Inr s' \<and>
      (exposed N w0 s' \<and> map addr (players (fst s')) = map addr (players (fst s)))"
  proof (rule iterE_total)
    fix t u assume u: "exposed N w0 u \<and> map addr (players (fst u)) = map addr (players (fst s))"
    then have "a \<in> set (map addr (players (fst u)))" using assms(2) by simp
    from burn_player_returns [OF conjunct1 [OF u] this fit] u
    show "\<exists>v. burn_player a (cx (coords p)) (cy (coords p)) t u = Inr v \<and>
        exposed N w0 v \<and> map addr (players (fst v)) = map addr (players (fst s))" by simp
  qed (simp add: assms(1))
  ultimately show ?thesis by simp
qed

lemma explosion_returns:
  assumes "exposed N w0 s"
    and fit: "\<And>u n. u \<in> N \<Longrightarrow> fits w0 (message GOT_HIT (GotHitB u 0 (clk w0 n)))"
  shows "\<exists>s'. iterE (explode_player fs) (map addr (players (fst s))) s = Inr s'"
proof -
  have "\<exists>s'. iterE (explode_player fs) (map addr (players (fst s))) s = Inr s' \<and>
      (exposed N w0 s' \<and> map addr (players (fst s')) = map addr (players (fst s)))"
  proof (rule iterE_total)
    fix a u assume a: "a \<in> set (map addr (players (fst s)))"
      and u: "exposed N w0 u \<and> map addr (players (fst u)) = map addr (players (fst s))"
    then have "a \<in> set (map addr (players (fst u)))" by simp
    from explode_player_returns [OF conjunct1 [OF u] this fit] u
    show "\<exists>v. explode_player fs a u = Inr v \<and>
        exposed N w0 v \<and> map addr (players (fst v)) = map addr (players (fst s))" by simp
  qed (simp add: assms(1))
  then show ?thesis by blast
qed

lemma scorched_dies:
  assumes "scorched ps clock p q" "livesRemaining p > 0 \<longrightarrow> livesRemaining p = 1 \<and>
      (cx (coords p), cy (coords p)) \<in> set ps \<and> (\<forall>k. immunityEndTimestamp p \<le> clock k)"
  shows "livesRemaining q \<le> 0"
proof -
  obtain k where k: "marks (if hit_at ps clock k p then hit clock k p else p) q"
    using assms(1) by (auto simp: scorched_def)
  show ?thesis
  proof (cases "livesRemaining p > 0")
    case True
    then have "hit_at ps clock k p" "livesRemaining p = 1" using assms(2) by (auto simp: hit_at_def)
    then show ?thesis using marks_fields(3) [OF k] by (simp add: hit_def)
  next
    case False
    then show ?thesis using marks_fields(3) [OF k] by (simp add: hit_at_def)
  qed
qed

text \<open>
  C37. A bomb that kills the last players may crash the server. When nobody survives an
  explosion, the winner is drawn from the numbers 0 to the count of the players that were
  alive, one too many: if a bomb on the board goes off, all players alive stand in its blast with one life and no
  immunity, and the draw is that count, \<open>NotifyExplosion\<close> indexes past the end of the vector of the players that
  were alive. Nothing else can be what goes wrong: every player can be sent to, and the
  messages of the hits fit.
\<close>

theorem mutual_death_out_of_bounds:
  assumes "room_inv r w" and "rstate r = PLAY" and "bombs r = b # bs" and "interior (pos_x b) (pos_y b)"
    and "\<forall>p\<in>set (players r). livesRemaining p > 0 \<longrightarrow> livesRemaining p = 1 \<and>
      (cx (coords p), cy (coords p)) \<in> set (blast (tile (rmap r)) b) \<and>
      (\<forall>k. immunityEndTimestamp p \<le> clk w k)"
    and "rnd w (rtick w) mod Suc (alive_count (players r)) = alive_count (players r)"
    and "attended (r, w)"
    and "\<forall>p\<in>set (players r). \<forall>n. fits w (message GOT_HIT (GotHitB (username p) 0 (clk w n)))"
  shows "NotifyExplosion r w = Inl (Undefined ''index past the end of a vector'')"
proof -
  let ?s = "\<lambda>fs m'. (r\<lparr>bombs := bs, rmap := m'\<rparr>, w\<lparr>gtick := gtick w + length fs\<rparr>)"
  have wf: "map_wf (rmap r)" using assms(1) by (simp add: room_inv_def)
  from boom_blast [OF wf assms(4), of "\<lambda>n. gtime w (gtick w + n)"] obtain fs m' where
      boom: "boom (\<lambda>n. gtime w (gtick w + n)) b (rmap r) = Inr (fs, m')" "map fire_at fs = blast (tile (rmap r)) b"
    by blast
  have "\<forall>p\<in>set (players r). in_array (cx (coords p)) (cy (coords p)) \<and> livesRemaining p \<le> 1"
    using assms(1,5) by (fastforce simp: room_inv_def player_wf_def)
  then have "exposed (username ` set (players r)) w (?s fs m')"
    using assms(7) by (auto simp: exposed_def attended_def healthy_def fits_def fun_eq_iff split: option.splits)
  from explosion_returns [OF this, of fs] assms(8) obtain r3 w3 where
      loop: "iterE (explode_player fs) (map addr (players r)) (?s fs m') = Inr (r3, w3)" by auto
  have "list_all2 (scorched (map fire_at fs) (clk w)) (players r) (players r3)"
    using explosion_loop [OF assms(1-3) boom(1) loop] by blast
  then have "\<forall>q\<in>set (players r3). livesRemaining q \<le> 0"
    by (rule list_all2_ball [OF _ assms(5)]) (use scorched_dies boom(2) in simp)
  then have "alive_count (players r3) = 0" by (auto simp: alive_count_def filter_empty_conv not_less)
  from NotifyExplosion_draw [OF assms(1-3) boom(1) loop this assms(6)] show ?thesis .
qed

definition doomed_room :: room where
  "doomed_room = bombed_room\<lparr>players := [sample_player\<lparr>livesRemaining := 1\<rparr>]\<rparr>"

theorem mutual_death_out_of_bounds_witness:
  "NotifyExplosion doomed_room (room_world\<lparr>rnd := \<lambda>_. 1\<rparr>) = Inl (Undefined ''index past the end of a vector'')"
proof (rule mutual_death_out_of_bounds)
  show "room_inv doomed_room (room_world\<lparr>rnd := \<lambda>_. 1\<rparr>)"
    using bombed_room_inv
    by (auto simp: doomed_room_def bombed_room_def playing_room_def room_inv_def player_wf_def room_world_def)
  show "bombs doomed_room = Bomb_new 1 1 3 25 0 3 False # []" by (simp add: doomed_room_def bombed_room_def)
qed (auto simp: doomed_room_def bombed_room_def playing_room_def sample_player_def mk_coords_def
    blast_def Let_def Bomb_new_def room_world_def alive_count_def attended_def healthy_def fits_def interior_def)

subsection \<open>The sweep\<close>

text \<open>Closing the socket of another player.\<close>

lemma drop_socket_says:
  assumes "s \<noteq> sock_of c w"
  shows "says c [] w (drop_socket ep s w)"
  using assms by (auto simp: says_def drop_socket_def sys_close_def syscall_def sock_of_def healthy_def split: option.split)

text \<open>What the loop over the players tells another player of a player it takes leave of.\<close>

lemma disconnect_player_tells:
  assumes run: "disconnect_player b ((n, ss, d), r, w) = Inr ((n', ss', d'), r', w')" and p: "find_player b r = Some p"
    and marked: "markedForDisconnect p" and on: "online a c (r, w)" "a \<noteq> b"
    and wf: "in_array (cx (coords p)) (cy (coords p))"
    and fit: "fits w (leave_message p)" "\<And>k. fits w (last_bomb_message p (clk w k))"
  shows "d' = d @ [b] \<and> list_all2 marks (players r) (players r') \<and> (room_inv r w \<longrightarrow> room_inv r' w') \<and>
    (\<exists>ms. tells a c ms (r, w) (r', w') \<and>
      (ms = [leave_message p] \<or> (\<exists>k. ms = [leave_message p, last_bomb_message p (clk w k)])))"
proof -
  from run marked p obtain r1 w1 sk where s: "sendExcept b (SendOtherLeave (username p)) (r, w) = Inr (r1, w1)"
      "conn_sock (conn p) w1 = Inr sk"
      "(let w3 = drop_socket (epollSock r1) sk w1; socks' = ss @ [sk]; destroy' = d @ [b] in
       if rstate r1 = PLAY \<and> livesRemaining p \<noteq> 0 then
        andThen (floor_to_int (Fin (of_int (cx (GetCoords p))))) (\<lambda>x.
        andThen (floor_to_int (Fin (of_int (cy (GetCoords p))))) (\<lambda>y.
        let (ts, w4) = TimestampMillis w3;
            r3 = r1\<lparr>bombs := bombs r1 @ [Bomb_new x y 9 25 ts 3 True]\<rparr>;
            (ts2, w5) = TimestampMillis w4 in
        andThen (sendExcept b (SendOtherBombPlace ''Server'' ts2
            (Fin (of_int (float_of_int x))) (Fin (of_int (float_of_int y)))) (r3, w5))
          (\<lambda>(r3, w5). Inr ((Suc n, socks', destroy'), r3, w5))))
       else Inr ((n, socks', destroy'), r1, w3)) = Inr ((n', ss', d'), r', w')"
    by (auto simp: disconnect_player_def get_player_def Let_def)
  have 1: "tells a c [leave_message p] (r, w) (r1, w1)"
    using say_leave.sendExcept_tells [OF s(1) on(1)] fit(1) on(2) by (simp add: leave_message_def)
  have on1: "online a c (r1, w1)" by (rule tells_online [OF 1 on(1)])
  have sent1: "sent (r, w) (r1, w1)" by (rule snd_leave.sendExcept_sent [OF s(1)])
  have m1: "list_all2 marks (players r) (players r1)" using sent1 by (simp add: sent_def)
  let ?w2 = "drop_socket (epollSock r1) sk w1"
  have "(b, conn p) \<in> set (seats r1)" using seats_find [OF p] 1 by (simp add: tells_def)
  then have "sk \<noteq> sock_of c w1"
    using on1 on(2) s(2) by (auto simp: online_def conn_sock_def sock_of_def split: option.splits)
  then have d2: "says c [] w1 ?w2" by (rule drop_socket_says)
  have na: "next_addr ?w2 = next_addr w1" by (simp add: drop_socket_def sys_close_def syscall_def)
  have inv1: "room_inv r1 w1" if "room_inv r w" using sent_room_inv [OF sent1 that] .
  show ?thesis
  proof (cases "rstate r1 = PLAY \<and> livesRemaining p \<noteq> 0")
    case False
    then have e: "r' = r1" "w' = ?w2" "d' = d @ [b]" using s(3) by (auto simp: Let_def)
    have "tells a c [] (r1, w1) (r', w')" using d2 e by (simp add: tells_def)
    from tells_trans [OF 1 this] have "tells a c [leave_message p] (r, w) (r', w')" by simp
    moreover have "room_inv r' w'" if "room_inv r w" using inv1 [OF that] na e by (simp add: room_inv_def)
    ultimately show ?thesis using e m1 by blast
  next
    case True
    have xy: "floor_to_int (Fin (of_int (cx (coords p)))) = Inr (cx (coords p))"
        "floor_to_int (Fin (of_int (cy (coords p)))) = Inr (cy (coords p))"
        "float_of_int (cx (coords p)) = cx (coords p)" "float_of_int (cy (coords p)) = cy (coords p)"
      using wf by (simp_all add: in_array_def to_int32_def int32_ok_def float_of_int_exact)
    let ?b = "Bomb_new (cx (coords p)) (cy (coords p)) 9 25 (clk ?w2 (tick ?w2)) 3 True"
    let ?s2 = "(r1\<lparr>bombs := bombs r1 @ [?b]\<rparr>, ?w2\<lparr>tick := Suc (Suc (tick ?w2))\<rparr>)"
    from s(3) True xy have b: "sendExcept b (SendOtherBombPlace ''Server'' (clk ?w2 (Suc (tick ?w2)))
          (Fin (of_int (cx (coords p)))) (Fin (of_int (cy (coords p))))) ?s2 = Inr (r', w')" "d' = d @ [b]"
      by (auto simp: Let_def GetCoords_def TimestampMillis_def)
    have 2: "tells a c [] (r1, w1) ?s2"
      using says_nothing [OF d2 says_tick(1)] by (auto simp: tells_def seats_def staying_def)
    have 12: "tells a c [leave_message p] (r, w) ?s2" using tells_trans [OF 1 2] by simp
    have clk: "clk ?w2 = clk w" using 1 d2 by (simp add: tells_def says_def)
    have "fits (snd ?s2) = fits w" using says_fits 12 by (auto simp: tells_def)
    then have "fits (snd ?s2) (last_bomb_message p (clk w (Suc (tick ?w2))))" using fit(2) by simp
    then have "tells a c [last_bomb_message p (clk w (Suc (tick ?w2)))] ?s2 (r', w')"
      using say_bomb.sendExcept_tells [OF b(1) tells_online [OF 12 on(1)]] on(2)
      by (simp add: last_bomb_message_def bomb_message_def clk)
    from tells_trans [OF 12 this]
    have "tells a c [leave_message p, last_bomb_message p (clk w (Suc (tick ?w2)))] (r, w) (r', w')" by simp
    moreover have sent3: "sent ?s2 (r', w')" by (rule snd_bomb.sendExcept_sent [OF b(1)])
    moreover from this m1 have "list_all2 marks (players r) (players r')" using marks_list_trans by (auto simp: sent_def)
    moreover have "room_inv r' w'" if "room_inv r w"
      using sent_room_inv [OF sent3] room_inv_add_bomb [of r1 w1 ?b "snd ?s2"] inv1 [OF that] na by simp
    ultimately show ?thesis using b(2) by blast
  qed
qed

text \<open>
  The messages of a sweep. A player that can be sent to and is not marked when it begins is spared: if
  they all fit, no send to it fails before the loop comes to it.
\<close>

definition farewells :: "room \<Rightarrow> world \<Rightarrow> GameMessage set" where
  "farewells r w = leave_message ` set (players r) \<union> {last_bomb_message p (clk w k) | p k. p \<in> set (players r)}"

lemma farewells_marks:
  assumes "list_all2 marks (players r) (players r')" "clk w' = clk w"
  shows "farewells r' w' \<subseteq> farewells r w"
proof -
  have "\<exists>p \<in> set (players r). leave_message q = leave_message p \<and> last_bomb_message q = last_bomb_message p"
    if "q \<in> set (players r')" for q
  proof -
    obtain i where i: "i < length (players r')" "q = players r' ! i" using \<open>q \<in> _\<close> by (auto simp: in_set_conv_nth)
    have "i < length (players r)" using i(1) list_all2_lengthD [OF assms(1)] by simp
    moreover have "marks (players r ! i) q" using list_all2_nthD2 [OF assms(1) i(1)] i(2) by simp
    ultimately show ?thesis
      by (intro bexI [of _ "players r ! i"]) (auto simp: leave_message_def last_bomb_message_def marks_fields fun_eq_iff)
  qed
  then show ?thesis using assms(2) unfolding farewells_def by fastforce
qed

lemma disconnect_loop_spares:
  assumes "iterE disconnect_player bs ((n, ss, d), r, w) = Inr ((n', ss', d'), r', w')"
    "online a c (r, w)" "staying a r" "a \<notin> set d" "room_inv r w" "\<forall>m \<in> farewells r w. fits w m"
  shows "a \<notin> set d'"
  using assms
proof (induction bs arbitrary: n ss d r w)
  case (Cons b bs)
  then obtain n1 ss1 d1 r1 w1 where one: "disconnect_player b ((n, ss, d), r, w) = Inr ((n1, ss1, d1), r1, w1)"
      "iterE disconnect_player bs ((n1, ss1, d1), r1, w1) = Inr ((n', ss', d'), r', w')"
    by auto
  obtain p where p: "find_player b r = Some p" using one(1) by (auto simp: disconnect_player_def get_player_Inr)
  note fp = find_player_Some [OF p]
  show ?case
  proof (cases "markedForDisconnect p")
    case False
    then have "((n1, ss1, d1), r1, w1) = ((n, ss, d), r, w)"
      using one(1) p by (simp add: disconnect_player_def get_player_def)
    then show ?thesis using Cons.IH [OF one(2)] Cons.prems by simp
  next
    case True
    then have ab: "a \<noteq> b" using Cons.prems(3) fp by (auto simp: staying_def)
    have "in_array (cx (coords p)) (cy (coords p))" using Cons.prems(5) fp by (auto simp: room_inv_def player_wf_def)
    from disconnect_player_tells [OF one(1) p True Cons.prems(2) ab this] Cons.prems(6) fp obtain ms where
        t: "d1 = d @ [b]" "list_all2 marks (players r) (players r1)" "room_inv r w \<longrightarrow> room_inv r1 w1"
          "tells a c ms (r, w) (r1, w1)"
      unfolding farewells_def by blast
    have "fits w1 = fits w" "clk w1 = clk w" using t(4) says_fits by (auto simp: tells_def says_def)
    then have "\<forall>m \<in> farewells r1 w1. fits w1 m" using farewells_marks [OF t(2)] Cons.prems(6) by auto
    moreover have "staying a r1" using t(4) Cons.prems(3) by (simp add: tells_def)
    ultimately show ?thesis
      using Cons.IH [OF one(2) tells_online [OF t(4) Cons.prems(2)]] t(1,3) ab Cons.prems(4,5) by simp
  qed
qed simp

text \<open>
  C10. The sweep. \<open>DisconnectPlayers\<close> removes every marked player, and no other that can be sent to
  when it begins: who is removed unmarked has a dead or shared connection, or a message of the
  sweep does not fit. It keeps the order and everything but the mark of the others,
  and in a playing room leaves one atomic bomb of range 9 at the position of each removed player
  that was alive, in order, after the bombs already planted, and counts them. If fewer than two
  players would stay, they go too and the game is over; otherwise its state stays. Each removed
  player's socket is taken out of epoll, shut down, closed, and returned, exactly once and in
  order; no other socket is closed.
\<close>

theorem sweep_effect:
  assumes "DisconnectPlayers r w = Inr ((n, socks), r', w')" and "room_inv r w"
  shows "\<exists>P bs. (\<forall>p\<in>set (players r). markedForDisconnect p \<longrightarrow> P p) \<and>
    (\<forall>p\<in>set (players r). P p \<longrightarrow> markedForDisconnect p \<or> \<not> online (addr p) (conn p) (r, w) \<or>
      (\<exists>m\<in>farewells r w. \<not> fits w m)) \<and>
    (if 2 \<le> length (filter (\<lambda>p. \<not> P p) (players r))
     then list_all2 marks (filter (\<lambda>p. \<not> P p) (players r)) (players r') \<and> rstate r' = rstate r \<and>
       socks = map (\<lambda>p. sock_of (conn p) w) (filter P (players r))
     else players r' = [] \<and> rstate r' = GAME_OVER \<and>
       socks = map (\<lambda>p. sock_of (conn p) w) (filter P (players r) @ filter (\<lambda>p. \<not> P p) (players r))) \<and>
    bombs r' = bombs r @ bs \<and> n = length bs \<and>
    list_all2 (\<lambda>p b. \<exists>ts. b = Bomb_new (cx (coords p)) (cy (coords p)) 9 25 ts 3 True)
      (if rstate r = PLAY then filter (\<lambda>p. P p \<and> livesRemaining p \<noteq> 0) (players r) else []) bs \<and>
    sys w' = sys w @ concat (map (\<lambda>s. [EpollDel (epollSock r) s, Shutdown s, Close s]) socks) \<and>
    (\<forall>fd. fd_open w' fd \<longleftrightarrow> fd_open w fd \<and> fd \<notin> set socks) \<and>
    rmap r' = rmap r \<and> clientCount r' = clientCount r"
proof -
  from DisconnectPlayers_loop [OF assms] obtain P bs m ss r1 w1 where
      loop: "iterE disconnect_player (map addr (players r)) ((0, [], []), r, w) =
        Inr ((m, ss, map addr (filter P (players r))), r1, w1)"
    and e: "\<forall>p\<in>set (players r). markedForDisconnect p \<longrightarrow> P p"
      "bombs r' = bombs r @ bs" "n = length bs" "clientCount r' = clientCount r" "rmap r' = rmap r"
      "list_all2 atomic_bomb
        (if rstate r = PLAY then filter (\<lambda>p. P p \<and> livesRemaining p \<noteq> 0) (players r) else []) bs"
      "dropped (epollSock r) socks w w'"
      "if 2 \<le> length (filter (\<lambda>p. \<not> P p) (players r))
       then list_all2 marks (filter (\<lambda>p. \<not> P p) (players r)) (players r') \<and> rstate r' = rstate r \<and>
         socks = map (\<lambda>p. sock_of (conn p) w) (filter P (players r))
       else players r' = [] \<and> rstate r' = GAME_OVER \<and>
         socks = map (\<lambda>p. sock_of (conn p) w) (filter P (players r) @ filter (\<lambda>p. \<not> P p) (players r))"
    by blast
  have "markedForDisconnect p \<or> \<not> online (addr p) (conn p) (r, w) \<or> (\<exists>m\<in>farewells r w. \<not> fits w m)"
    if p: "p \<in> set (players r)" "P p" for p
  proof (rule ccontr)
    assume no: "\<not> ?thesis"
    have "q = p" if "q \<in> set (players r)" "addr q = addr p" for q
      using assms(2) p(1) that by (auto simp: room_inv_def distinct_map inj_on_def)
    then have "staying (addr p) r" using no by (auto simp: staying_def)
    with disconnect_loop_spares [OF loop _ _ _ assms(2), of "addr p" "conn p"] no p show False by auto
  qed
  then show ?thesis using e unfolding atomic_bomb_def dropped_def drop_calls_def by blast
qed

text \<open>Three players, of whom the first leaves: it is removed, and the other two stay.\<close>

definition leaving_room :: room where
  "leaving_room = playing_room\<lparr>players := [mark (bob\<lparr>addr := 2, conn := 7, username := ''cyd''\<rparr>), bob, sample_player]\<rparr>"

lemma leaving_room_inv: "room_inv leaving_room room_world"
  by (simp add: leaving_room_def mark_def room_inv_def playing_room_def bob_def sample_player_def player_wf_def
      mk_coords_def in_array_def server_tile_start room_world_def)

theorem sweep_effect_witness:
  "\<exists>socks r' w'. DisconnectPlayers leaving_room room_world = Inr ((1, socks), r', w') \<and> socks = [7] \<and>
    map username (players r') = [''bob'', ''ann''] \<and> rstate r' = PLAY \<and> length (bombs r') = 1 \<and>
    fd_open w' 5 \<and> fd_open w' 6 \<and> \<not> fd_open w' 7"
proof -
  have "yields (DisconnectPlayers leaving_room room_world) (\<lambda>_. True)" by code_simp
  then obtain n socks r' w' where d: "DisconnectPlayers leaving_room room_world = Inr ((n, socks), r', w')"
    by (auto elim!: yieldsE)
  let ?cyd = "mark (bob\<lparr>addr := 2, conn := 7, username := ''cyd''\<rparr>)"
  have ps: "players leaving_room = [?cyd, bob, sample_player]" "rstate leaving_room = PLAY" "bombs leaving_room = []"
    by (simp_all add: leaving_room_def playing_room_def)
  have fit: "\<forall>m. fits room_world m" by (simp add: fits_def room_world_def)
  have on: "online (addr p) (conn p) (leaving_room, room_world)" if "p \<in> set (players leaving_room)" for p
    using that by (auto simp: ps online_def seats_def mark_def bob_def sample_player_def healthy_def sock_of_def room_world_def)
  from sweep_effect [OF d leaving_room_inv] fit on obtain P bs where
      P: "\<forall>p\<in>set (players leaving_room). markedForDisconnect p = P p"
    and e: "if 2 \<le> length (filter (\<lambda>p. \<not> P p) (players leaving_room))
       then list_all2 marks (filter (\<lambda>p. \<not> P p) (players leaving_room)) (players r') \<and> rstate r' = rstate leaving_room \<and>
         socks = map (\<lambda>p. sock_of (conn p) room_world) (filter P (players leaving_room))
       else players r' = [] \<and> rstate r' = GAME_OVER \<and>
         socks = map (\<lambda>p. sock_of (conn p) room_world)
           (filter P (players leaving_room) @ filter (\<lambda>p. \<not> P p) (players leaving_room))"
      "bombs r' = bombs leaving_room @ bs" "n = length bs"
      "list_all2 (\<lambda>p b. \<exists>ts. b = Bomb_new (cx (coords p)) (cy (coords p)) 9 25 ts 3 True)
        (if rstate leaving_room = PLAY then filter (\<lambda>p. P p \<and> livesRemaining p \<noteq> 0) (players leaving_room) else []) bs"
      "\<forall>fd. fd_open w' fd \<longleftrightarrow> fd_open room_world fd \<and> fd \<notin> set socks"
    by blast
  have "P ?cyd" "\<not> P bob" "\<not> P sample_player" using P by (simp_all add: ps mark_def bob_def sample_player_def)
  moreover have "livesRemaining ?cyd = 3" "sock_of (conn ?cyd) room_world = 7"
    by (simp_all add: mark_def bob_def sample_player_def sock_of_def room_world_def)
  ultimately have f: "list_all2 marks [bob, sample_player] (players r')" "rstate r' = PLAY" "socks = [7]" "length bs = 1"
    using e(1,4) by (auto simp: ps list_all2_Cons1)
  have "map username (players r') = [''bob'', ''ann'']"
    using marks_maps [OF f(1)] by (simp add: bob_def sample_player_def)
  then show ?thesis using d f e(2,3,5) ps by (auto simp: room_world_def)
qed

subsection \<open>Joins\<close>

text \<open>
  What the players of a room are told of a join: the new one the list of all players, the others its
  name and colour. With the fourth join the start of the game follows; its message is the one sent before with another
  type, because \<open>SendGameStart\<close> sets nothing else.
\<close>

definition start_of :: "GameMessage \<Rightarrow> GameMessage" where
  "start_of m = m\<lparr>mtype := GAME_START\<rparr>"

definition with_start :: "room \<Rightarrow> GameMessage \<Rightarrow> GameMessage list" where
  "with_start r m = m # (if clientCount r + 1 = 4 then [start_of m] else [])"

lemma roster_marks: "list_all2 marks ps qs \<Longrightarrow> roster_message qs = roster_message ps"
  unfolding roster_message_def by (subst list_all2_map_eq [of marks ps qs]) (simp_all add: marks_fields)

lemma JoinPlayer_says:
  assumes run: "JoinPlayer c name r w = Inr (a, r', w')" and wait: "rstate r = WAIT_FOR_START" and inv: "room_inv r w"
    and fit: "\<forall>m \<in> {roster_message (players r'), join_message (hd (players r'))}. fits w m \<and> fits w (start_of m)"
  shows "healthy c w \<Longrightarrow> \<forall>q \<in> set (players r). sock_of (conn q) w \<noteq> sock_of c w \<Longrightarrow>
      says c (with_start r (roster_message (players r'))) w w'"
    and "q \<in> set (players r) \<Longrightarrow> online (addr q) (conn q) (r, w) \<Longrightarrow> sock_of (conn q) w \<noteq> sock_of c w \<Longrightarrow>
      says (conn q) (with_start r (join_message (hd (players r')))) w w'"
proof -
  let ?col = "color_of_size (length (players r))"
  let ?R = "roster_message (players r')" and ?J = "join_message (hd (players r'))"
  from run wait obtain p w1 s2 r3 w3 where j: "Player_new c name ?col w = Inr (p, w1)"
      "sendSpecific (addr p) (SendWelcomeToRoom (map (\<lambda>p. (username p, color p)) (p # players r)))
        (r\<lparr>players := p # players r, clientCount := clientCount r + 1\<rparr>, w1) = Inr s2"
      "sendExcept (addr p) (SendGameJoin (name, ?col)) s2 = Inr (r3, w3)"
      "(if 4 - clientCount r3 = 0
        then andThen (sendBroadcast SendGameStart (r3\<lparr>rstate := PLAY\<rparr>, w3)) (\<lambda>(r4, w4). Inr (Some (addr p), r4, w4))
        else Inr (Some (addr p), r3, w3)) = Inr (a, r', w')"
    by (auto simp: JoinPlayer_def Let_def)
  let ?r1 = "r\<lparr>players := p # players r, clientCount := clientCount r + 1\<rparr>"
  let ?l = "map (\<lambda>p. (username p, color p)) (p # players r)"
  have p: "conn p = c" "username p = name" "color p = ?col" "addr p = next_addr w"
      and w1: "w1 = w\<lparr>tick := Suc (tick w), next_addr := Suc (next_addr w)\<rparr>"
    using j(1) by (auto simp: Player_new_def TimestampMillis_def Let_def split: option.splits)
  have s2: "sent (?r1, w1) s2" by (rule snd_welcome.sendSpecific_sent [OF j(2)])
  have s3: "sent s2 (r3, w3)" by (rule snd_gamejoin.sendExcept_sent [OF j(3)])
  have count: "clientCount r3 = clientCount r + 1"
    using sent_trans [OF s2 s3] by (simp add: sent_def same_game_def)
  let ?s4 = "(r3\<lparr>rstate := PLAY\<rparr>, w3)"
  have start: "if clientCount r + 1 = 4 then sendBroadcast SendGameStart ?s4 = Inr (r', w') else r' = r3 \<and> w' = w3"
    using j(4) by (auto simp: count split: if_splits)
  have "list_all2 marks (players r3) (players r')"
    using start snd_gamestart.sendBroadcast_sent [of ?s4 "(r', w')"]
    by (auto simp: sent_def marks_list_refl split: if_splits)
  then have l: "list_all2 marks (p # players r) (players r')"
    using sent_trans [OF s2 s3] marks_list_trans by (auto simp: sent_def)
  have R: "roster_message (p # players r) = ?R" by (rule roster_marks [OF l, symmetric])
  have J: "join_message p = ?J" using l by (auto simp: list_all2_Cons1 join_message_def marks_fields)
  have fresh: "addr p \<notin> addr ` set (players r)" using inv p(4) by (auto simp: room_inv_def)
  have same: "healthy k w1 = healthy k w" "sock_of k w1 = sock_of k w" "fits w1 = fits w" "out w1 = out w" for k
    by (auto simp: w1 healthy_def sock_of_def fits_def fun_eq_iff split: option.splits)
  have says1: "says k [] w w1" for k unfolding w1 by (auto simp: says_def healthy_def sock_of_def split: option.splits)
  have told: "says k (with_start r m) w w'"
    if on: "online x k (?r1, w1)" and m: "m = (if x = addr p then ?R else ?J)" for x k m
  proof -
    have F: "fits w m" "fits w (start_of m)" using fit m by (auto split: if_splits)
    have "tells x k [m] (?r1, w1) (r3, w3) \<and> last_msg k w3 = m"
    proof (cases "x = addr p")
      case True
      have 2: "tells x k [?R] (?r1, w1) s2 \<and> last_msg k (snd s2) = ?R"
        using say_welcome.sendSpecific_says(2) [OF j(2) on] F(1) m True R
        by (simp add: roster_message_def comp_def same)
      have 3: "tells x k [] s2 (r3, w3) \<and> last_msg k (snd (r3, w3)) = last_msg k (snd s2)"
        by (rule say_join.sendExcept_says(1) [OF j(3) tells_online [OF conjunct1 [OF 2] on]]) (simp add: True)
      show ?thesis using tells_trans [OF conjunct1 [OF 2] conjunct1 [OF 3]] 2 3 m True by simp
    next
      case False
      have 2: "tells x k [] (?r1, w1) s2 \<and> last_msg k (snd s2) = last_msg k (snd (?r1, w1))"
        by (rule say_welcome.sendSpecific_says(1) [OF j(2) on]) (simp add: False [symmetric])
      have on2: "online x k s2" by (rule tells_online [OF conjunct1 [OF 2] on])
      have J': "message GAME_JOIN (GameJoinB (GamePlayer name ?col)) = ?J"
        unfolding J [symmetric] by (simp add: join_message_def p)
      have "fits (snd s2) ?J" using sent_fits [OF s2] F(1) m False by (simp add: same)
      then have 3: "tells x k [?J] s2 (r3, w3) \<and> last_msg k w3 = ?J"
        using say_join.sendExcept_says(2) [OF j(3) on2] False J' by simp
      show ?thesis using tells_trans [OF conjunct1 [OF 2] conjunct1 [OF 3]] 3 m False by simp
    qed
    then have 3: "tells x k [m] (?r1, w1) (r3, w3)" "last_msg k w3 = m" by simp_all
    have w3: "says k [m] w w3" using says_nothing [OF says1] 3(1) by (simp add: tells_def)
    show ?thesis
    proof (cases "clientCount r + 1 = 4")
      case False
      then show ?thesis using start w3 by (simp add: with_start_def)
    next
      case True
      have "online x k ?s4" using tells_online [OF 3(1) on] by (simp add: online_def seats_def)
      moreover have "fits w3 = fits w" using says_fits [OF w3] .
      ultimately have "tells x k [start_of m] ?s4 (r', w')"
        using say_start.sendBroadcast_tells [of ?s4 "(r', w')" x k] start True 3(2) F(2) by (simp add: start_of_def)
      then show ?thesis using says_trans [OF w3] True by (simp add: with_start_def tells_def)
    qed
  qed
  have seats1: "seats ?r1 = (addr p, c) # seats r" by (simp add: seats_def p(1))
  have dist: "distinct (map fst (seats ?r1))" using fresh inv by (simp add: seats1 seats_addrs room_inv_def)
  show "says c (with_start r ?R) w w'" if "healthy c w" "\<forall>q \<in> set (players r). sock_of (conn q) w \<noteq> sock_of c w"
  proof (rule told [of "addr p"])
    show "online (addr p) c (?r1, w1)"
      using that dist by (auto simp: online_def seats1 same) (auto simp: seats_def)
  qed simp
  show "says (conn q) (with_start r ?J) w w'"
    if "q \<in> set (players r)" "online (addr q) (conn q) (r, w)" "sock_of (conn q) w \<noteq> sock_of c w"
  proof (rule told [of "addr q"])
    show "online (addr q) (conn q) (?r1, w1)"
      using that dist by (auto simp: online_def seats1 same)
    have "addr q \<noteq> addr p" using fresh that(1) by (metis image_eqI)
    then show "?J = (if addr q = addr p then ?R else ?J)" by simp
  qed
qed

end
