(* ===== verification/ClientMirror.thy ===== *)
theory ClientMirror
  imports ClientFacts RoomCalls
begin

section \<open>Clients mirror the server's room\<close>

text \<open>
  What a client knows of the game against what the server knows of it. Both are abstracted to a
  map from the names of the players in the game to their tile and lives (\<open>client_view\<close>,
  \<open>server_view\<close>; the server keeps its dead players, a client forgets them). \<open>mirrors\<close> says that the
  two maps agree. The properties show that every change the server makes to the map is made to
  the clients' by the messages it announces the change with.
\<close>

subsection \<open>Rosters\<close>

text \<open>A vector of objects with a name, as a map.\<close>

definition roster :: "('a \<Rightarrow> string) \<Rightarrow> ('a \<Rightarrow> 'v) \<Rightarrow> 'a list \<Rightarrow> string \<Rightarrow> 'v option" where
  "roster key val xs = map_of (map (\<lambda>x. (key x, val x)) xs)"

lemma roster_simps [simp]:
  "roster key val [] = Map.empty"
  "roster key val (x # xs) = (roster key val xs)(key x \<mapsto> val x)"
  by (simp_all add: roster_def)

lemma roster_None: "k \<notin> key ` set xs \<Longrightarrow> roster key val xs k = None"
  by (induction xs) auto

lemma roster_append: "roster key val (xs @ ys) = roster key val ys ++ roster key val xs"
  by (simp add: roster_def)

lemma roster_add:
  assumes "key y \<notin> key ` set xs"
  shows "roster key val (xs @ [y]) = (roster key val xs)(key y \<mapsto> val y)"
  using assms roster_None [of "key y" key xs val]
  by (auto simp: roster_append map_add_def fun_eq_iff split: option.split)

lemma roster_split:
  assumes "distinct (map key (xs @ x # ys))"
  shows "roster key val (xs @ x # ys) = (roster key val (xs @ ys))(key x \<mapsto> val x)"
    "roster key val (xs @ ys) = (roster key val (xs @ x # ys))(key x := None)"
proof -
  have x: "key x \<notin> key ` set xs" "key x \<notin> key ` set ys" using assms by auto
  show "roster key val (xs @ x # ys) = (roster key val (xs @ ys))(key x \<mapsto> val x)"
    using roster_None [OF x(1), of val]
    by (auto simp: roster_append map_add_def fun_eq_iff split: option.split)
  show "roster key val (xs @ ys) = (roster key val (xs @ x # ys))(key x := None)"
    using roster_None [OF x(1), of val] roster_None [OF x(2), of val]
    by (auto simp: roster_append map_add_def fun_eq_iff split: option.split)
qed

lemma nth_split: "i < length xs \<Longrightarrow> \<exists>ys zs. xs = ys @ xs ! i # zs \<and> length ys = i"
  by (rule exI [of _ "take i xs"], rule exI [of _ "drop (Suc i) xs"]) (simp add: id_take_nth_drop)

lemma roster_update:
  assumes "distinct (map key xs)" "i < length xs" "key y = key (xs ! i)"
  shows "roster key val (xs[i := y]) = (roster key val xs)(key y \<mapsto> val y)" "map key (xs[i := y]) = map key xs"
proof -
  obtain ys zs where xs: "xs = ys @ xs ! i # zs" "length ys = i" using nth_split [OF assms(2)] by blast
  have up: "xs[i := y] = ys @ y # zs" using xs by (metis list_update_length)
  have d: "distinct (map key (ys @ xs ! i # zs))" using assms(1) xs(1) by simp
  then have d': "distinct (map key (ys @ y # zs))" using assms(3) by simp
  have "roster key val xs = (roster key val (ys @ zs))(key y \<mapsto> val (xs ! i))"
    using roster_split(1) [OF d, of val] xs(1) assms(3) by simp
  then show "roster key val (xs[i := y]) = (roster key val xs)(key y \<mapsto> val y)"
    using roster_split(1) [OF d', of val] by (simp add: up)
  have "map key xs = map key (ys @ xs ! i # zs)" using xs(1) by simp
  then show "map key (xs[i := y]) = map key xs" using assms(3) by (simp add: up)
qed

lemma roster_erase:
  assumes "distinct (map key xs)" "i < length xs"
  shows "roster key val (erase_at i xs) = (roster key val xs)(key (xs ! i) := None)"
    "distinct (map key (erase_at i xs))"
proof -
  obtain ys zs where xs: "xs = ys @ xs ! i # zs" "length ys = i" using nth_split [OF assms(2)] by blast
  have er: "erase_at i xs = ys @ zs" using xs erase_at_skip by metis
  have d: "distinct (map key (ys @ xs ! i # zs))" using assms(1) xs(1) by simp
  show "roster key val (erase_at i xs) = (roster key val xs)(key (xs ! i) := None)"
    using roster_split(2) [OF d, of val] xs(1) er by simp
  show "distinct (map key (erase_at i xs))" using d by (simp add: er)
qed

lemma roster_Some:
  assumes "distinct (map key xs)"
  shows "roster key val xs k = Some v \<longleftrightarrow> (\<exists>x \<in> set xs. key x = k \<and> val x = v)"
proof -
  have "distinct (map fst (map (\<lambda>x. (key x, val x)) xs))" using assms by (simp add: comp_def)
  then show ?thesis unfolding roster_def by (auto simp: map_of_eq_Some_iff)
qed

lemma option_ext: "(\<And>v. x = Some v \<longleftrightarrow> y = Some v) \<Longrightarrow> x = y"
  by (cases x; cases y) auto

subsection \<open>The two views\<close>

definition client_view :: "entity_handler \<Rightarrow> string \<Rightarrow> ((int \<times> int) option \<times> int) option" where
  "client_view eh = roster pseudonim (\<lambda>b. (position b, health b)) (eplayers eh)"

definition seen :: "player \<Rightarrow> (int \<times> int) option \<times> int" where
  "seen p = (Some (cx (coords p), cy (coords p)), livesRemaining p)"

definition server_view :: "room \<Rightarrow> string \<Rightarrow> ((int \<times> int) option \<times> int) option" where
  "server_view r = roster username seen (filter (\<lambda>p. livesRemaining p > 0) (players r))"

definition mirrors :: "room \<Rightarrow> entity_handler \<Rightarrow> bool" where
  "mirrors r eh \<longleftrightarrow> client_view eh = server_view r \<and> distinct (map pseudonim (eplayers eh))"

lemma server_view_Some:
  assumes "distinct (map username (players r))"
  shows "server_view r k = Some v \<longleftrightarrow> (\<exists>p \<in> set (players r). livesRemaining p > 0 \<and> username p = k \<and> seen p = v)"
proof -
  have "distinct (map username (filter (\<lambda>p. livesRemaining p > 0) (players r)))"
    using assms by (rule distinct_map_filter)
  then show ?thesis unfolding server_view_def by (auto simp: roster_Some)
qed

lemma server_view_marks:
  assumes "list_all2 marks (players r) (players r')"
  shows "server_view r' = server_view r"
proof -
  have "roster username seen (filter (\<lambda>p. livesRemaining p > 0) qs) =
      roster username seen (filter (\<lambda>p. livesRemaining p > 0) ps)" if "list_all2 marks ps qs" for ps qs
    using that by (induction rule: list_all2_induct) (auto simp: marks_fields seen_def)
  with assms show ?thesis by (simp add: server_view_def)
qed

lemma server_view_sent: "sent (r, w) (r', w') \<Longrightarrow> server_view r' = server_view r"
  by (rule server_view_marks) (simp add: sent_def)

text \<open>One player of the server changes.\<close>

lemma server_view_upd:
  assumes d: "distinct (map addr (players r))" "distinct (map username (players r))"
    and p: "find_player a r = Some p" and same: "username (f p) = username p"
  shows "server_view (upd_player a f r) =
    (server_view r)(username p := if livesRemaining (f p) > 0 then Some (seen (f p)) else None)"
proof (intro ext option_ext)
  fix k v
  have mem: "p \<in> set (players r)" "addr p = a" using find_player_Some [OF p] by auto
  have only: "q = p" if "q \<in> set (players r)" "addr q = a" for q
    using find_player_iff [OF d(1), of a q] p that by simp
  have named: "q = p" if "q \<in> set (players r)" "username q = username p" for q
    using d(2) mem(1) that by (meson distinct_map inj_onD)
  have upd: "players (upd_player a f r) = map (\<lambda>q. if q = p then f p else q) (players r)"
  proof -
    have "(if addr q = a then f q else q) = (if q = p then f p else q)" if "q \<in> set (players r)" for q
      using only [OF that] mem(2) by (cases "addr q = a") auto
    then show ?thesis by (simp add: upd_player_def)
  qed
  then have set': "q \<in> set (players (upd_player a f r)) \<longleftrightarrow> q = f p \<or> (q \<in> set (players r) \<and> q \<noteq> p)" for q
    using mem(1) by auto
  have names': "map username (players (upd_player a f r)) = map username (players r)"
    unfolding upd by (simp add: same)
  have d': "distinct (map username (players (upd_player a f r)))" using d(2) names' by simp
  show "server_view (upd_player a f r) k = Some v \<longleftrightarrow>
      ((server_view r)(username p := if livesRemaining (f p) > 0 then Some (seen (f p)) else None)) k = Some v"
  proof (cases "k = username p")
    case True
    have "server_view (upd_player a f r) k = Some v \<longleftrightarrow> livesRemaining (f p) > 0 \<and> seen (f p) = v"
      unfolding server_view_Some [OF d'] Bex_def set' True using named same by blast
    then show ?thesis using True by simp
  next
    case False
    then have "server_view (upd_player a f r) k = Some v \<longleftrightarrow> server_view r k = Some v"
      unfolding server_view_Some [OF d'] server_view_Some [OF d(2)] Bex_def set' using same mem by blast
    then show ?thesis using False by simp
  qed
qed

subsection \<open>What a client makes of them\<close>

lemma findPlayer_None: "findPlayer eh u = None \<longleftrightarrow> client_view eh u = None"
  unfolding findPlayer_def find_index_None client_view_def roster_def map_of_eq_None_iff by (force simp: image_image)

lemma findPlayer_view:
  assumes "distinct (map pseudonim (eplayers eh))" "findPlayer eh u = Some i"
  shows "client_view eh u = Some (position (eplayers eh ! i), health (eplayers eh ! i))"
  using findPlayer_Some [OF assms(2)] assms(1) by (auto simp: client_view_def roster_Some)

text \<open>The vector of the players changes at the index of a name.\<close>

lemma client_view_update:
  assumes "distinct (map pseudonim (eplayers eh))" "i < length (eplayers eh)"
    "pseudonim b = pseudonim (eplayers eh ! i)"
  shows "client_view (eh\<lparr>eplayers := (eplayers eh)[i := b]\<rparr>) = (client_view eh)(pseudonim b \<mapsto> (position b, health b))"
    "map pseudonim ((eplayers eh)[i := b]) = map pseudonim (eplayers eh)"
  using roster_update(1) [OF assms, where val = "\<lambda>b. (position b, health b)"] roster_update(2) [OF assms] by (simp_all add: client_view_def)

lemma client_view_erase:
  assumes "distinct (map pseudonim (eplayers eh))" "i < length (eplayers eh)"
  shows "client_view (eh\<lparr>eplayers := erase_at i (eplayers eh)\<rparr>) = (client_view eh)(pseudonim (eplayers eh ! i) := None)"
    "distinct (map pseudonim (erase_at i (eplayers eh)))"
  using roster_erase(1) [OF assms, where val = "\<lambda>b. (position b, health b)"] roster_erase(2) [OF assms] by (simp_all add: client_view_def)

lemma trunc_of_int: "int32_ok i \<Longrightarrow> trunc_to_int (Fin (of_int i)) = Inr i"
  by (rule trunc_to_int_of_int)

lemma client_told_position:
  assumes "distinct (map pseudonim (eplayers eh))" "username p \<noteq> []"
    "in_array (cx (coords p)) (cy (coords p))" "\<forall>v. client_view eh (username p) = Some v \<longrightarrow> fst v \<noteq> None"
  shows "\<exists>eh'. handleMessage (position_message p) (sh, eh) = Inr (sh, eh') \<and>
    client_view eh' = (client_view eh)(username p := map_option
      (\<lambda>v. (Some (cx (coords p), cy (coords p)), snd v)) (client_view eh (username p))) \<and>
    map pseudonim (eplayers eh') = map pseudonim (eplayers eh)"
proof (cases "findPlayer eh (username p)")
  case None
  moreover have "client_view eh (username p) = None" using None findPlayer_None by blast
  ultimately show ?thesis using assms(2)
    by (intro exI [of _ eh])
      (auto simp: handleMessage_def position_message_def message_def msg_othermove_def GameMessage_default_def)
next
  case (Some i)
  note i = findPlayer_Some [OF Some] and v = findPlayer_view [OF assms(1) Some]
  let ?at = "(cx (coords p), cy (coords p))"
  let ?b = "(eplayers eh ! i)\<lparr>position := Some ?at\<rparr>"
  have "position (eplayers eh ! i) \<noteq> None" using assms(4) v by simp
  moreover have "int32_ok (cx (coords p))" "int32_ok (cy (coords p))" using in_array_int32 [OF assms(3)] by auto
  ultimately have "place_player i (Fin (of_int (cx (coords p)))) (Fin (of_int (cy (coords p)))) eh =
      Inr (eh\<lparr>eplayers := (eplayers eh)[i := ?b]\<rparr>)"
    by (auto simp: place_player_def trunc_of_int setBoombermanPos_def simp del: trunc_to_int.simps)
  then have "handleMessage (position_message p) (sh, eh) = Inr (sh, eh\<lparr>eplayers := (eplayers eh)[i := ?b]\<rparr>)"
    using Some assms(2)
    by (simp add: handleMessage_def position_message_def message_def msg_othermove_def GameMessage_default_def)
  then show ?thesis
    using client_view_update [OF assms(1), of i ?b] i v by auto
qed

lemma mirrors_positions: "mirrors r eh \<Longrightarrow> client_view eh u = Some v \<Longrightarrow> fst v \<noteq> None"
proof -
  assume "mirrors r eh" "client_view eh u = Some v"
  then have "server_view r u = Some v" by (simp add: mirrors_def)
  then show "fst v \<noteq> None"
    unfolding server_view_def roster_def by (auto dest!: map_of_SomeD simp: seen_def)
qed

lemma server_view_player:
  assumes "room_inv r w" "find_player a r = Some p"
  shows "server_view r (username p) = (if livesRemaining p > 0 then Some (seen p) else None)"
proof -
  have d: "distinct (map username (players r))" "distinct (map addr (players r))" using assms(1) by (auto simp: room_inv_def)
  have "server_view (upd_player a (\<lambda>p. p) r) = (server_view r)(username p := if livesRemaining p > 0 then Some (seen p) else None)"
    using server_view_upd [OF d(2,1) assms(2), of "\<lambda>p. p"] by simp
  moreover have "upd_player a (\<lambda>p. p) r = r" by (simp add: upd_player_def)
  ultimately show ?thesis by (metis fun_upd_same)
qed

lemma mirrors_player:
  assumes "mirrors r eh" "room_inv r w" "find_player a r = Some p"
  shows "client_view eh (username p) = (if livesRemaining p > 0 then Some (seen p) else None)"
  using server_view_player [OF assms(2,3)] assms(1) by (simp add: mirrors_def)

text \<open>A client of the room the examples play in.\<close>

lemma playing_room_sample: "room_inv playing_room room_world"
  by (rule playing_room_inv) (simp add: room_world_def)

lemma two_players_mirror: "mirrors playing_room two_players"
  by (auto simp: mirrors_def client_view_def server_view_def two_players_def playing_room_def bob_def
      sample_player_def seen_def mk_coords_def fun_eq_iff Boomberman_new_def)

lemma playing_room_find:
  "find_player 0 playing_room = Some sample_player" "find_player 1 playing_room = Some bob"
  by (simp_all add: find_player_def playing_room_def bob_def sample_player_def)

subsection \<open>Moves\<close>

text \<open>What a message does to the server's view: it moves its author at most.\<close>

lemma author_view:
  assumes run: "HandleMessage payload a r w = Inr (b, r', w')" and inv: "room_inv r w"
  shows "\<exists>p p'. find_player a r = Some p \<and> find_player a r' = Some p' \<and> username p' = username p \<and>
    livesRemaining p' = livesRemaining p \<and> in_array (cx (coords p')) (cy (coords p')) \<and>
    server_view r' = (server_view r)(username p := if livesRemaining p > 0 then Some (seen p') else None)"
proof -
  obtain p where p: "find_player a r = Some p"
    using run by (auto simp: HandleMessage_def get_player_Inr)
  have d: "distinct (map addr (players r))" "distinct (map username (players r))"
    using inv by (auto simp: room_inv_def)
  have step: ?thesis if q: "find_player a (upd_player a f r) = Some (f p)" "username (f p) = username p"
      "livesRemaining (f p) = livesRemaining p" "distinct (map addr (players (upd_player a f r)))"
    and s: "sent (upd_player a f r, v) (r', v')" for f v v'
  proof -
    obtain p' where p': "find_player a r' = Some p'" "marks (f p) p'" using sent_find [OF s q(1,4)] by blast
    have "server_view r' = (server_view r)(username p := if livesRemaining p > 0 then Some (seen (f p)) else None)"
      using server_view_sent [OF s] server_view_upd [OF d p, of f] q(2,3) by simp
    moreover have "seen (f p) = seen p'" using p'(2) by (simp add: seen_def marks_fields)
    moreover have "player_wf (rmap r') p'"
      using HandleMessage_inv [OF run inv] find_player_Some [OF p'(1)] by (simp add: room_inv_def)
    ultimately show ?thesis using p p' q(2,3) by (auto simp: marks_fields player_wf_def)
  qed
  have same: "upd_player a (\<lambda>p. p) r = r" by (simp add: upd_player_def)
  have calm: ?thesis if "sent (r\<lparr>bombs := bs\<rparr>, v) (r', v')" for bs v v'
  proof -
    have "sent (r, v) (r'\<lparr>bombs := bombs r\<rparr>, v')" using that by (auto simp: sent_def same_game_def)
    from sent_find [OF this p d(1)] obtain p' where p': "find_player a r' = Some p'" "marks p p'"
      by (auto simp: find_player_def)
    have "server_view r' = server_view (r'\<lparr>bombs := bombs r\<rparr>)" by (simp add: server_view_def)
    also have "\<dots> = server_view r" using \<open>sent (r, v) _\<close> by (rule server_view_sent)
    also have "\<dots> = (server_view r)(username p := if livesRemaining p > 0 then Some (seen p) else None)"
      using server_view_upd [OF d p, of "\<lambda>p. p"] same by simp
    also have "seen p = seen p'" using p'(2) by (simp add: seen_def marks_fields)
    finally have "server_view r' = (server_view r)(username p := if livesRemaining p > 0 then Some (seen p') else None)" .
    moreover have "player_wf (rmap r') p'"
      using HandleMessage_inv [OF run inv] find_player_Some [OF p'(1)] by (simp add: room_inv_def)
    ultimately show ?thesis using p p' by (auto simp: marks_fields player_wf_def)
  qed
  show ?thesis using run
  proof (cases rule: HandleMessage_cases)
    case marked
    then have "sent (r\<lparr>bombs := bombs r\<rparr>, w) (r', w')" by simp
    then show ?thesis by (rule calm)
  next
    case (bomb q bx "by")
    from bomb(8) show ?thesis by (rule calm)
  next
    case (move q)
    then obtain x y c q' w1 where m: "find_player a r = Some q" "in_array x y"
        "MoveCheckSus x y q w = Inr (c, q', w1)" "sent (upd_player a (\<lambda>_. q') r, w1) (r', w')"
      unfolding moved_def by force
    have q: "q = p" using p m(1) by simp
    note f = moved_player [OF m(3,2)]
    have "find_player a (upd_player a (\<lambda>_. q') r) = Some q'"
      using find_upd_player [OF p, of q'] f(2) find_player_Some [OF p] q by simp
    moreover have "distinct (map addr (players (upd_player a (\<lambda>_. q') r)))"
      using upd_player_addrs [of q' a r] f(2) find_player_Some [OF p] d(1) q by simp
    ultimately show ?thesis using step [of "\<lambda>_. q'", OF _ _ _ _ m(4)] f q by simp
  qed
qed

text \<open>
  Moves are mirrored. Whatever a player sends, a client that mirrors the room before, and
  is told the author's position as the server's \<open>SendOtherMove\<close> tells it, mirrors the room after;
  when the author has not moved it still does without being told anything.
\<close>

theorem moves_are_mirrored:
  assumes "HandleMessage payload a r w = Inr (b, r', w')" and "room_inv r w" and "mirrors r eh"
    and "\<forall>p \<in> set (players r). username p \<noteq> []"
  shows "\<exists>p p' eh'. find_player a r = Some p \<and> find_player a r' = Some p' \<and>
    handleMessage (position_message p') (sh, eh) = Inr (sh, eh') \<and> mirrors r' eh' \<and>
    (coords p' = coords p \<longrightarrow> mirrors r' eh)"
proof -
  obtain p p' where p: "find_player a r = Some p" "find_player a r' = Some p'" "username p' = username p"
      "livesRemaining p' = livesRemaining p" "in_array (cx (coords p')) (cy (coords p'))"
      "server_view r' = (server_view r)(username p := if livesRemaining p > 0 then Some (seen p') else None)"
    using author_view [OF assms(1,2)] by blast
  have d: "distinct (map pseudonim (eplayers eh))" "client_view eh = server_view r"
    using assms(3) by (auto simp: mirrors_def)
  note known = mirrors_player [OF assms(3,2) p(1)]
  have named: "username p' \<noteq> []" using assms(4) find_player_Some [OF p(1)] p(3) by simp
  obtain eh' where eh': "handleMessage (position_message p') (sh, eh) = Inr (sh, eh')"
      "client_view eh' = (client_view eh)(username p' := map_option
        (\<lambda>v. (Some (cx (coords p'), cy (coords p')), snd v)) (client_view eh (username p')))"
      "map pseudonim (eplayers eh') = map pseudonim (eplayers eh)"
    using client_told_position [OF d(1) named p(5)] mirrors_positions [OF assms(3)] by blast
  have "client_view eh' = server_view r'"
    using eh'(2) p(3,4,6) known d(2) by (auto simp: seen_def)
  then have "mirrors r' eh'" using d(1) eh'(3) by (simp add: mirrors_def)
  moreover have "mirrors r' eh" if "coords p' = coords p"
  proof -
    have "seen p' = seen p" using that p(4) by (simp add: seen_def)
    then have "server_view r' = (client_view eh)(username p := client_view eh (username p))"
      using p(6) known d(2) by simp
    then show ?thesis using d(1) by (simp add: mirrors_def)
  qed
  ultimately show ?thesis using p(1,2) eh'(1) by blast
qed

theorem moves_are_mirrored_witness:
  "\<exists>b r' w' eh'. HandleMessage (message I_MOVE (IMoveB (Fin 2) (Fin 1))) 0 playing_room room_world = Inr (b, r', w') \<and>
    map coords (players r') = [mk_coords 15 1, mk_coords 2 1] \<and>
    (\<exists>p'. find_player 0 r' = Some p' \<and>
      handleMessage (position_message p') (sample_handler, two_players) = Inr (sample_handler, eh')) \<and>
    mirrors r' eh'"
proof -
  let ?m = "message I_MOVE (IMoveB (Fin 2) (Fin 1))"
  have "yields (HandleMessage ?m 0 playing_room room_world)
      (\<lambda>(b, r', w'). map coords (players r') = [mk_coords 15 1, mk_coords 2 1])"
    by code_simp
  then obtain b r' w' where run: "HandleMessage ?m 0 playing_room room_world = Inr (b, r', w')"
      "map coords (players r') = [mk_coords 15 1, mk_coords 2 1]" by (auto elim!: yieldsE)
  have "\<forall>p \<in> set (players playing_room). username p \<noteq> []"
    by (simp add: playing_room_def bob_def sample_player_def)
  from moves_are_mirrored [OF run(1) playing_room_sample two_players_mirror this, of sample_handler] run
  show ?thesis by (elim exE conjE) (intro exI conjI; assumption)
qed

text \<open>
  The tile of an older move the server may correct to, and when it does: the move recorded four
  before is less than 50 milliseconds old.
\<close>

definition oldest_move :: "player \<Rightarrow> MovementEntry" where
  "oldest_move p = moveHistory p ! nat ((step p - 3) mod 5)"

definition too_fast :: "player \<Rightarrow> world \<Rightarrow> bool" where
  "too_fast p w \<longleftrightarrow> 5 \<le> step p \<and> clk w (tick w) < me_ts (oldest_move p) + 50"

lemma MoveCheckSus_decides:
  assumes "MoveCheckSus x y p w = Inr (k, p', w')" "in_array x y" "in_array (cx (coords p)) (cy (coords p))"
  shows "k = (if x \<noteq> cx (coords p) \<and> y \<noteq> cy (coords p) then Some (coords p)
    else if too_fast p w then Some (me_coords (oldest_move p)) else None)"
proof -
  have f: "move_dist x (cx (coords p)) = Inr \<bar>x - cx (coords p)\<bar>" "move_dist y (cy (coords p)) = Inr \<bar>y - cy (coords p)\<bar>"
    using assms(2,3) by (simp_all add: in_array_def move_dist_zero)
  have pos: "0 \<le> x" "0 \<le> y" using assms(2) by (simp_all add: in_array_def)
  have "step p + 1 - 4 = step p - 3" by simp
  then show ?thesis using assms(1) f pos unfolding MoveCheckSus_def ring_oldest too_fast_def oldest_move_def Let_def
    by (auto simp: TimestampMillis_def split: if_splits)
qed

text \<open>What a player is told of its own move in a started game, and where the server puts it.\<close>

lemma own_move_told:
  assumes run: "HandleMessage m a r w = Inr (b, r', w')" and inv: "room_inv r w" and on: "online a c (r, w)"
    and p: "find_player a r = Some p" and alive: "livesRemaining p > 0" and play: "rstate r \<noteq> WAIT_FOR_START"
    and m: "mtype m = I_MOVE" "floor_to_int (fst (msg_imove m)) = Inr x" "floor_to_int (snd (msg_imove m)) = Inr y"
    and fit: "fits w (correction_message (coords p))" "fits w (correction_message (me_coords (oldest_move p)))"
  shows "in_array x y \<and> (\<exists>q ms. find_player a r' = Some q \<and> tells a c ms (r, w) (r', w') \<and>
    (if tile (rmap r) x y \<noteq> 0 \<or> x \<noteq> cx (coords p) \<and> y \<noteq> cy (coords p)
     then ms = [correction_message (coords p)] \<and> coords q = coords p
     else if too_fast p w then ms = [correction_message (me_coords (oldest_move p))] \<and> coords q = coords p
     else ms = [] \<and> coords q = mk_coords x y))"
proof -
  have d: "distinct (map addr (players r))" using inv by (simp add: room_inv_def)
  have at: "in_array (cx (coords p)) (cy (coords p))"
    using inv find_player_Some [OF p] by (auto simp: room_inv_def player_wf_def)
  have h: "handle_move m a r w = Inr (b, r', w')"
    using run p alive play m(1) by (simp add: HandleMessage_def get_player_def)
  from h obtain t where t: "getSquareState (rmap r) x y = Inr t"
      "(if t \<noteq> 0 then correct_movement a (GetCoords p) (r, w)
        else andThen (MoveCheckSus x y p w) (\<lambda>(correction, p', w1).
          let r1 = upd_player a (\<lambda>_. p') r in
          case correction of Some c \<Rightarrow> correct_movement a c (r1, w1)
          | None \<Rightarrow> andThen (sendExcept a (SendOtherMove (username p')
              (Fin (of_int (float_of_int x))) (Fin (of_int (float_of_int y)))) (r1, w1))
              (\<lambda>(r2, w2). Inr (False, r2, w2)))) = Inr (b, r', w')"
    using p m(2,3) by (auto simp: handle_move_def get_player_def split: prod.splits)
  note ij = getSquareState_InrD [OF t(1)]
  have corrects: "tells a c [correction_message k] s (r', w') \<and> sent s (r', w')"
    if "correct_movement a k s = Inr (b, r', w')" "online a c s" "fits (snd s) (correction_message k)" for k s
  proof
    have u: "sendSpecific a (SendMovementCorrection (Fin (of_int (cx k))) (Fin (of_int (cy k)))) s = Inr (r', w')"
      using that(1) by (auto simp: correct_movement_def)
    show "tells a c [correction_message k] s (r', w')"
      using say_correction.sendSpecific_tells [OF u that(2)] that(3) by (simp add: correction_message_def)
    show "sent s (r', w')" by (rule snd_correction.sendSpecific_sent [OF u])
  qed
  show ?thesis
  proof (cases "tile (rmap r) x y = 0")
    case False
    then have "correct_movement a (coords p) (r, w) = Inr (b, r', w')" using t ij by (auto simp: GetCoords_def)
    note c = corrects [OF this on] 
    from sent_find [OF conjunct2 [OF c] p d] fit(1) obtain q where "find_player a r' = Some q" "marks p q" by auto
    then show ?thesis using c fit(1) False ij by (auto simp: marks_fields)
  next
    case True
    then obtain k p1 w1 where k: "MoveCheckSus x y p w = Inr (k, p1, w1)"
        "(case k of Some k \<Rightarrow> correct_movement a k (upd_player a (\<lambda>_. p1) r, w1)
          | None \<Rightarrow> andThen (sendExcept a (SendOtherMove (username p1)
              (Fin (of_int (float_of_int x))) (Fin (of_int (float_of_int y)))) (upd_player a (\<lambda>_. p1) r, w1))
              (\<lambda>(r2, w2). Inr (False, r2, w2))) = Inr (b, r', w')"
      using t ij by (auto simp: Let_def)
    note f = moved_player [OF k(1)] and dec = MoveCheckSus_decides [OF k(1) _ at]
    have xy: "in_array x y" using ij by simp
    have g: "conn p1 = conn p" "markedForDisconnect p1 = markedForDisconnect p"
      by (subst MoveCheckSus_frame [OF k(1)], simp)+
    let ?s = "(upd_player a (\<lambda>_. p1) r, w1)"
    have "says c [] w w1" using MoveCheckSus_world [OF k(1)] by auto
    then have 1: "tells a c [] (r, w) ?s" by (intro upd_player_tells [OF d p]) (use g f(2) xy in simp_all)
    then have on1: "online a c ?s" by (rule tells_online) (rule on)
    have a1: "addr p1 = a" using f(2) xy find_player_Some [OF p] by simp
    have found: "find_player a (upd_player a (\<lambda>_. p1) r) = Some p1" by (rule find_upd_player [OF p a1])
    have d1: "distinct (map addr (players (upd_player a (\<lambda>_. p1) r)))" using upd_player_addrs [OF a1] d by simp
    show ?thesis
    proof (cases k)
      case None
      then have s: "sendExcept a (SendOtherMove (username p1)
          (Fin (of_int (float_of_int x))) (Fin (of_int (float_of_int y)))) ?s = Inr (r', w')" using k(2) by auto
      obtain q where q: "find_player a r' = Some q" "marks p1 q"
        using sent_find [OF snd_move.sendExcept_sent [OF s] found d1] by blast
      have "tells a c ([] @ []) (r, w) (r', w')" by (rule tells_trans [OF 1 say_move.sendExcept_quiet [OF s on1]])
      then show ?thesis using q dec f(1) None xy True by (auto simp: marks_fields split: if_splits)
    next
      case (Some l)
      have l: "l = (if x \<noteq> cx (coords p) \<and> y \<noteq> cy (coords p) then coords p else me_coords (oldest_move p))"
        using dec xy Some by (auto split: if_splits)
      have "fits w1 = fits w" using says_fits 1 by (auto simp: tells_def)
      then have "fits (snd ?s) (correction_message l)" using fit l by simp
      note c = corrects [OF _ on1 this]
      have c: "tells a c [correction_message l] ?s (r', w') \<and> sent ?s (r', w')" by (rule c) (use k(2) Some in simp)
      from sent_find [OF conjunct2 [OF c] found d1] obtain q where q: "find_player a r' = Some q" "marks p1 q" by auto
      have "tells a c ([] @ [correction_message l]) (r, w) (r', w')" by (rule tells_trans [OF 1 conjunct1 [OF c]])
      then show ?thesis using q dec f(1) Some xy True l by (auto simp: marks_fields split: if_splits)
    qed
  qed
qed

text \<open>The view of a client that mirrors the room but has put its own player, in the first slot, on the tile \<open>u\<close>.\<close>

definition own_tile :: "int \<times> int \<Rightarrow> entity_handler \<Rightarrow> entity_handler" where
  "own_tile u eh = eh\<lparr>eplayers := (hd (eplayers eh))\<lparr>position := Some u\<rparr> # tl (eplayers eh)\<rparr>"

lemma own_tile_corrected:
  assumes "eplayers eh \<noteq> []" "in_array (cx k) (cy k)"
  shows "handleMessage (correction_message k) (sh, own_tile u eh) = Inr (sh, own_tile (cx k, cy k) eh)"
proof -
  have ok: "int32_ok (cx k)" "int32_ok (cy k)" using in_array_int32 [OF assms(2)] by auto
  then show ?thesis using assms(1)
    by (cases "eplayers eh") (simp_all add: handleMessage_def correction_message_def message_def msg_movementcorrection_def
      GameMessage_default_def place_player_def trunc_of_int setBoombermanPos_def own_tile_def del: trunc_to_int.simps)
qed

lemma own_tile_mirrors:
  assumes "mirrors r eh" "room_inv r w" "find_player a r = Some p" "livesRemaining p > 0"
    and me: "eplayers eh \<noteq> []" "pseudonim (hd (eplayers eh)) = username p"
    and r': "server_view r' = (server_view r)(username p \<mapsto> (Some (cx k, cy k), livesRemaining p))"
  shows "mirrors r' (own_tile u eh) \<longleftrightarrow> u = (cx k, cy k)"
proof -
  obtain b bs where b: "eplayers eh = b # bs" "pseudonim b = username p" using me by (cases "eplayers eh") auto
  have d: "distinct (map pseudonim (eplayers eh))" "client_view eh = server_view r"
    using assms(1) by (auto simp: mirrors_def)
  have "client_view eh (username p) = Some (seen p)" using mirrors_player [OF assms(1-3)] assms(4) by simp
  then have "health b = livesRemaining p" using b by (simp add: client_view_def seen_def)
  then have "client_view (own_tile u eh) = (server_view r)(username p \<mapsto> (Some u, livesRemaining p))"
    unfolding d(2) [symmetric] using b by (simp add: client_view_def own_tile_def)
  moreover have "distinct (map pseudonim (eplayers (own_tile u eh)))" using d(1) b by (simp add: own_tile_def)
  ultimately have "mirrors r' (own_tile u eh) \<longleftrightarrow>
      (server_view r)(username p \<mapsto> (Some u, livesRemaining p)) =
      (server_view r)(username p \<mapsto> (Some (cx k, cy k), livesRemaining p))"
    using r' by (simp add: mirrors_def)
  then show ?thesis by (metis fun_upd_same option.inject prod.inject)
qed

text \<open>
  C23. The author's own moves. A client mirrors the room but for the tile on which it has put its
  own living player ahead of the server, and asks for a move to \<open>(x, y)\<close> in the started game. If the server
  refuses the move for the board or as a diagonal, what it writes to the client is a correction
  to where it has the player, and handling that makes the client mirror the room. If the server
  refuses it as too fast, what it writes is a correction to the tile of an older move, and
  handling that repairs the client exactly when this happens to be the player's tile. If the
  server accepts it, it writes nothing to the author, whose client mirrors the room exactly when it
  predicted \<open>(x, y)\<close>.
\<close>

theorem own_moves_reconciled:
  assumes "HandleMessage m a r w = Inr (b, r', w')" and "room_inv r w" and "online a c (r, w)"
    and "find_player a r = Some p" and "livesRemaining p > 0" and "rstate r \<noteq> WAIT_FOR_START"
    and "mtype m = I_MOVE" and "floor_to_int (fst (msg_imove m)) = Inr x" and "floor_to_int (snd (msg_imove m)) = Inr y"
    and "fits w (correction_message (coords p))" and "fits w (correction_message (me_coords (oldest_move p)))"
    and "mirrors r eh" and "eplayers eh \<noteq> []" and "pseudonim (hd (eplayers eh)) = username p"
  shows "\<exists>ms. out w' (sock_of c w) = out w (sock_of c w) @ wire w ms \<and>
    (if tile (rmap r) x y \<noteq> 0 \<or> x \<noteq> cx (coords p) \<and> y \<noteq> cy (coords p)
     then ms = [correction_message (coords p)] \<and>
       (\<exists>eh'. handleMessage (correction_message (coords p)) (sh, own_tile predicted eh) = Inr (sh, eh') \<and> mirrors r' eh')
     else if too_fast p w
     then ms = [correction_message (me_coords (oldest_move p))] \<and>
       (\<exists>eh'. handleMessage (correction_message (me_coords (oldest_move p))) (sh, own_tile predicted eh) = Inr (sh, eh') \<and>
         (mirrors r' eh' \<longleftrightarrow> me_coords (oldest_move p) = coords p))
     else ms = [] \<and> (mirrors r' (own_tile predicted eh) \<longleftrightarrow> predicted = (x, y)))"
proof -
  from own_move_told [OF assms(1-11)] obtain q ms where xy: "in_array x y"
    and q: "find_player a r' = Some q" and ms: "tells a c ms (r, w) (r', w')"
    and cases: "if tile (rmap r) x y \<noteq> 0 \<or> x \<noteq> cx (coords p) \<and> y \<noteq> cy (coords p)
       then ms = [correction_message (coords p)] \<and> coords q = coords p
       else if too_fast p w then ms = [correction_message (me_coords (oldest_move p))] \<and> coords q = coords p
       else ms = [] \<and> coords q = mk_coords x y" by blast
  from author_view [OF assms(1,2)] assms(4,5) q have
      "server_view r' = (server_view r)(username p \<mapsto> (Some (cx (coords q), cy (coords q)), livesRemaining p))"
    by (auto simp: seen_def)
  note mirror = own_tile_mirrors [OF assms(12,2,4,5,13,14) this]
  have wf: "player_wf (rmap r) p" using assms(2) find_player_Some [OF assms(4)] by (simp add: room_inv_def)
  then have "oldest_move p \<in> set (moveHistory p)" unfolding oldest_move_def player_wf_def by (intro nth_mem) (simp add: nat_less_iff)
  then have at: "in_array (cx (coords p)) (cy (coords p))"
      "in_array (cx (me_coords (oldest_move p))) (cy (me_coords (oldest_move p)))" using wf by (auto simp: player_wf_def)
  have same: "(cx k, cy k) = (cx l, cy l) \<longleftrightarrow> k = l" for k l :: Coords by (auto intro: Coords.equality)
  have "out w' (sock_of c w) = out w (sock_of c w) @ wire w ms" using ms by (simp add: tells_def says_def)
  then show ?thesis
    using cases own_tile_corrected [OF assms(13) at(1)] own_tile_corrected [OF assms(13) at(2)] mirror same
    by (intro exI [of _ ms]) (auto simp: mk_coords_def)
qed

text \<open>
  Ann, on \<open>(1, 1)\<close>, asks for the wall in the corner, and for \<open>(2, 1)\<close> when her move but four is 20 milliseconds
  old: she is corrected to where she is, and to where she was.
\<close>

definition hasty_room :: room where
  "hasty_room = playing_room\<lparr>players := [bob, sample_player\<lparr>step := 5,
    moveHistory := replicate 5 \<lparr>me_ts = 980, me_coords = mk_coords 2 1\<rparr>\<rparr>]\<rparr>"

theorem own_moves_reconciled_witness:
  "\<exists>b1 r1 w1 b2 r2 w2 eh1 eh2.
    HandleMessage (message I_MOVE (IMoveB (Fin 0) (Fin 1))) 0 hasty_room room_world = Inr (b1, r1, w1) \<and>
    handleMessage (correction_message (mk_coords 1 1)) (sample_handler, own_tile (0, 1) two_players) = Inr (sample_handler, eh1) \<and>
    mirrors r1 eh1 \<and>
    HandleMessage (message I_MOVE (IMoveB (Fin 2) (Fin 1))) 0 hasty_room room_world = Inr (b2, r2, w2) \<and>
    handleMessage (correction_message (mk_coords 2 1)) (sample_handler, own_tile (2, 1) two_players) = Inr (sample_handler, eh2) \<and>
    \<not> mirrors r2 eh2"
proof -
  let ?m1 = "message I_MOVE (IMoveB (Fin 0) (Fin 1))" and ?m2 = "message I_MOVE (IMoveB (Fin 2) (Fin 1))"
  let ?ann = "sample_player\<lparr>step := 5, moveHistory := replicate 5 \<lparr>me_ts = 980, me_coords = mk_coords 2 1\<rparr>\<rparr>"
  have "yields (HandleMessage ?m1 0 hasty_room room_world) (\<lambda>_. True)" "yields (HandleMessage ?m2 0 hasty_room room_world) (\<lambda>_. True)"
    by code_simp+
  then obtain b1 r1 w1 b2 r2 w2 where run: "HandleMessage ?m1 0 hasty_room room_world = Inr (b1, r1, w1)"
      "HandleMessage ?m2 0 hasty_room room_world = Inr (b2, r2, w2)" by (auto elim!: yieldsE)
  have ann: "find_player 0 hasty_room = Some ?ann" "oldest_move ?ann = \<lparr>me_ts = 980, me_coords = mk_coords 2 1\<rparr>"
      "coords ?ann = mk_coords 1 1" "livesRemaining ?ann > 0" "username ?ann = ''ann''" "too_fast ?ann room_world"
    by (simp_all add: hasty_room_def find_player_def playing_room_def bob_def sample_player_def oldest_move_def
        eval_nat_numeral too_fast_def room_world_def)
  have inv: "room_inv hasty_room room_world"
    by (simp add: hasty_room_def room_inv_def playing_room_def bob_def sample_player_def player_wf_def
        mk_coords_def in_array_def server_tile_start room_world_def)
  have on: "online 0 5 (hasty_room, room_world)"
    by (auto simp: hasty_room_def playing_room_def bob_def sample_player_def online_def seats_def healthy_def sock_of_def room_world_def)
  have "server_view hasty_room = server_view playing_room"
    by (simp add: server_view_def hasty_room_def playing_room_def bob_def sample_player_def seen_def)
  then have mir: "mirrors hasty_room two_players" using two_players_mirror by (simp add: mirrors_def)
  have state: "rstate hasty_room \<noteq> WAIT_FOR_START" "eplayers two_players \<noteq> []" "pseudonim (hd (eplayers two_players)) = username ?ann"
      "fits room_world k" for k
    using ann(5) by (simp_all add: hasty_room_def playing_room_def two_players_def fits_def room_world_def)
  have tiles: "tile (rmap hasty_room) 0 1 \<noteq> 0" "tile (rmap hasty_room) 2 1 = 0"
    by (simp_all add: hasty_room_def playing_room_def tile_def server_map_def initial_grid_def)
  note told = own_moves_reconciled [OF _ inv on ann(1,4) state(1) _ _ _ state(4) state(4) mir state(2,3)]
  have "\<exists>eh1. handleMessage (correction_message (mk_coords 1 1)) (sample_handler, own_tile (0, 1) two_players) = Inr (sample_handler, eh1) \<and> mirrors r1 eh1"
    using told [OF run(1), of 0 1 sample_handler "(0, 1)"] tiles(1) ann(3)
    by (simp add: message_def msg_imove_def to_int32_def int32_ok_def)
  moreover have "\<exists>eh2. handleMessage (correction_message (mk_coords 2 1)) (sample_handler, own_tile (2, 1) two_players) = Inr (sample_handler, eh2) \<and> \<not> mirrors r2 eh2"
    using told [OF run(2), of 2 1 sample_handler "(2, 1)"] tiles(2) ann(2,3,6)
    by (simp add: message_def msg_imove_def to_int32_def int32_ok_def mk_coords_def)
  ultimately show ?thesis using run by blast
qed

subsection \<open>Losses\<close>

lemma client_told_hit:
  assumes "mirrors r eh" "room_inv r w" "find_player a r = Some p" "livesRemaining p > 0"
  shows "\<exists>eh'. handleMessage (hit_message p time) (sh, eh) = Inr (sh, eh') \<and>
    client_view eh' = (client_view eh)(username p := if livesRemaining p - 1 > 0
      then Some (Some (cx (coords p), cy (coords p)), livesRemaining p - 1) else None) \<and>
    distinct (map pseudonim (eplayers eh'))"
proof -
  have d: "distinct (map pseudonim (eplayers eh))" using assms(1) by (simp add: mirrors_def)
  have known: "client_view eh (username p) = Some (seen p)"
    using mirrors_player [OF assms(1-3)] assms(4) by simp
  then obtain i where i: "findPlayer eh (username p) = Some i" using findPlayer_None by fastforce
  let ?o = "eplayers eh ! i"
  have o: "position ?o = Some (cx (coords p), cy (coords p))" "health ?o = livesRemaining p"
    using findPlayer_view [OF d i] known by (auto simp: seen_def)
  note at = findPlayer_Some [OF i]
  have "livesRemaining p \<le> 3" using assms(2) find_player_Some [OF assms(3)] by (auto simp: room_inv_def player_wf_def)
  then have "int32_ok (health ?o - 1)" using o(2) assms(4) by (simp add: int32_ok_def)
  then obtain q where q: "gotHit time ?o = Inr q"
      "q = ?o\<lparr>health := livesRemaining p - 1, bm_animation_start := time, iframes := 90\<rparr>"
    using o(2) by (auto simp: gotHit_def)
  let ?ps = "(eplayers eh)[i := q]"
  have run: "handleMessage (hit_message p time) (sh, eh) =
      Inr (sh, eh\<lparr>eplayers := if livesRemaining p - 1 \<le> 0 then erase_at i ?ps else ?ps\<rparr>)"
    using i q(1)
    by (simp add: handleMessage_def hit_message_def message_def msg_gothit_def GameMessage_default_def Let_def)
  have name: "pseudonim q = pseudonim ?o" "pseudonim q = username p" using q(2) at by simp_all
  note up = client_view_update [OF d _ name(1)]
  have "distinct (map pseudonim ?ps)" using up(2) at d by simp
  then have er: "client_view (eh\<lparr>eplayers := erase_at i ?ps\<rparr>) = (client_view (eh\<lparr>eplayers := ?ps\<rparr>))(username p := None)"
      "distinct (map pseudonim (erase_at i ?ps))"
    using client_view_erase [of "eh\<lparr>eplayers := ?ps\<rparr>" i] at name(2) by auto
  show ?thesis
  proof (cases "livesRemaining p - 1 \<le> 0")
    case True
    then show ?thesis using run er up(1) at name(2) by (intro exI conjI) auto
  next
    case False
    have "health q = livesRemaining p - 1" "position q = Some (cx (coords p), cy (coords p))"
      using q(2) o(1) by simp_all
    then have "client_view (eh\<lparr>eplayers := ?ps\<rparr>) = (client_view eh)(username p \<mapsto>
        (Some (cx (coords p), cy (coords p)), livesRemaining p - 1))"
      using up(1) at name(2) by simp
    moreover have "distinct (map pseudonim ?ps)" using up(2) at d by simp
    ultimately show ?thesis using run False by (intro exI [of _ "eh\<lparr>eplayers := ?ps\<rparr>"]) simp
  qed
qed

lemma client_told_leave:
  assumes "distinct (map pseudonim (eplayers eh))"
  shows "\<exists>eh'. handleMessage (leave_message p) (sh, eh) = Inr (sh, eh') \<and>
    client_view eh' = (client_view eh)(username p := None) \<and> distinct (map pseudonim (eplayers eh'))"
proof (cases "findPlayer eh (username p)")
  case None
  then have "client_view eh (username p) = None" using findPlayer_None by blast
  then have "client_view eh = (client_view eh)(username p := None)" by (metis fun_upd_triv)
  then show ?thesis using None assms
    by (intro exI [of _ eh])
      (simp add: handleMessage_def leave_message_def message_def msg_otherleave_def GameMessage_default_def)
next
  case (Some i)
  note i = findPlayer_Some [OF Some]
  have "handleMessage (leave_message p) (sh, eh) = Inr (sh, eh\<lparr>eplayers := erase_at i (eplayers eh)\<rparr>)"
    using Some by (simp add: handleMessage_def leave_message_def message_def msg_otherleave_def GameMessage_default_def)
  then show ?thesis using client_view_erase [OF assms, of i] i by auto
qed

lemma server_view_erase:
  assumes "distinct (map addr (players r))" "distinct (map username (players r))" "find_player a r = Some p"
  shows "server_view (r\<lparr>players := erase_player (players r) a\<rparr>) = (server_view r)(username p := None)"
proof (intro ext option_ext)
  fix k v
  have mem: "p \<in> set (players r)" "addr p = a" using find_player_Some [OF assms(3)] by auto
  have only: "addr q = a \<longleftrightarrow> username q = username p" if "q \<in> set (players r)" for q
    using assms(1,2) mem that by (metis distinct_map inj_onD)
  have er: "erase_player (players r) a = filter (\<lambda>p. addr p \<noteq> a) (players r)"
    using assms(1) by (rule erase_player_filter)
  have d: "distinct (map username (players (r\<lparr>players := erase_player (players r) a\<rparr>)))"
    using assms(2) er by (simp add: distinct_map_filter)
  show "server_view (r\<lparr>players := erase_player (players r) a\<rparr>) k = Some v \<longleftrightarrow>
      ((server_view r)(username p := None)) k = Some v"
    unfolding server_view_Some [OF d]
    unfolding er room.simps fun_upd_apply
    using only server_view_Some [OF assms(2), of k v] by auto
qed

text \<open>
  Hits and departures are mirrored. When a burning tile costs a player a life, the hit the server
  announces makes every client that mirrored the room mirror it again, the last life included, after which
  the server keeps the player and the client does not; when it costs nothing the mirror stays as it is. And the
  departure it announces does so when the sweep destroys a player.
\<close>

theorem losses_are_mirrored:
  assumes "room_inv r w" and "mirrors r eh" and "find_player a r = Some p"
  shows "(\<forall>x y t r' w'. burn_player a x y t (r, w) = Inr (r', w') \<longrightarrow>
      (if (x, y) = fire_at t \<and> livesRemaining p > 0 \<and> immunityEndTimestamp p \<le> clk w (tick w)
       then \<exists>eh'. handleMessage (hit_message p (clk w (tick w + 2))) (sh, eh) = Inr (sh, eh') \<and> mirrors r' eh'
       else mirrors r' eh)) \<and>
    (\<exists>eh'. handleMessage (leave_message p) (sh, eh) = Inr (sh, eh') \<and>
      mirrors (r\<lparr>players := erase_player (players r) a\<rparr>) eh')"
proof (intro conjI allI impI)
  have d: "distinct (map addr (players r))" "distinct (map username (players r))"
    using assms(1) by (auto simp: room_inv_def)
  have e: "client_view eh = server_view r" "distinct (map pseudonim (eplayers eh))"
    using assms(2) by (auto simp: mirrors_def)
  show "\<exists>eh'. handleMessage (leave_message p) (sh, eh) = Inr (sh, eh') \<and>
      mirrors (r\<lparr>players := erase_player (players r) a\<rparr>) eh'"
    using client_told_leave [OF e(2), of p sh] server_view_erase [OF d assms(3)] e(1) by (auto simp: mirrors_def)
  fix x y t r' w'
  assume burn: "burn_player a x y t (r, w) = Inr (r', w')"
  let ?c = "(x, y) = fire_at t \<and> livesRemaining p > 0 \<and> immunityEndTimestamp p \<le> clk w (tick w)"
  show "if ?c then \<exists>eh'. handleMessage (hit_message p (clk w (tick w + 2))) (sh, eh) = Inr (sh, eh') \<and> mirrors r' eh'
      else mirrors r' eh"
  proof (cases ?c)
    case False
    then have "r' = r" using burn_player_cases [OF burn assms(3) d(1)] by auto
    then have "mirrors r' eh" using assms(2) by simp
    with False show ?thesis by (simp only: if_False)
  next
    case True
    then have "sent (upd_player a (hit (clk w) (tick w)) r, w\<lparr>tick := Suc (Suc (Suc (tick w)))\<rparr>) (r', w')"
      using burn_player_cases [OF burn assms(3) d(1)] by blast
    then have "server_view r' = server_view (upd_player a (hit (clk w) (tick w)) r)" by (rule server_view_sent)
    also have "\<dots> = (server_view r)(username p := if livesRemaining p - 1 > 0
        then Some (Some (cx (coords p), cy (coords p)), livesRemaining p - 1) else None)"
      using server_view_upd [OF d assms(3), of "hit (clk w) (tick w)"] by (simp add: hit_def seen_def)
    finally show ?thesis
      using client_told_hit [OF assms(2,1,3), of "clk w (tick w + 2)" sh] True e(1) by (auto simp: mirrors_def)
  qed
qed

theorem losses_are_mirrored_witness:
  "\<exists>r' w' eh'. burn_player 0 1 1 (TileOnFire_new 0 1 1) (playing_room, room_world) = Inr (r', w') \<and>
    map livesRemaining (players r') = [3, 2] \<and>
    handleMessage (hit_message sample_player 1200) (sample_handler, two_players) = Inr (sample_handler, eh') \<and>
    mirrors r' eh'"
proof -
  have "yields (burn_player 0 1 1 (TileOnFire_new 0 1 1) (playing_room, room_world))
      (\<lambda>(r', w'). map livesRemaining (players r') = [3, 2])"
    by code_simp
  then obtain r' w' where run: "burn_player 0 1 1 (TileOnFire_new 0 1 1) (playing_room, room_world) = Inr (r', w')"
      "map livesRemaining (players r') = [3, 2]" by (auto elim!: yieldsE)
  have "(1, 1) = fire_at (TileOnFire_new 0 1 1)" "livesRemaining sample_player > 0"
      "immunityEndTimestamp sample_player \<le> clk room_world (tick room_world)" "clk room_world (tick room_world + 2) = 1200"
    by (simp_all add: sample_player_def room_world_def)
  then show ?thesis
    using losses_are_mirrored [OF playing_room_sample two_players_mirror playing_room_find(1), of sample_handler,
      THEN conjunct1, rule_format, OF run(1)] run
    by (auto simp del: fire_at_new)
qed

subsection \<open>The lobby\<close>

text \<open>While a room waits nobody has moved and nobody has been hit.\<close>

definition at_starts :: "room \<Rightarrow> bool" where
  "at_starts r \<longleftrightarrow> (\<forall>p \<in> set (players r). start_coords (color p) = Some (coords p) \<and> livesRemaining p = 3)"

text \<open>A player as it is shown, by name.\<close>

definition shown :: "boomberman \<Rightarrow> string \<times> (int \<times> int) option \<times> int" where
  "shown b = (pseudonim b, position b, health b)"

lemma client_view_shown: "client_view eh = map_of (map shown (eplayers eh))"
  by (simp add: client_view_def roster_def shown_def [abs_def])

lemma addPlayer_at_start:
  assumes "start_coords (color p) = Some (coords p)" "livesRemaining p = 3"
  shows "map shown (eplayers (snd (addPlayer (GamePlayer (username p) (color p)) s))) =
    map shown (eplayers (snd s)) @ [(username p, seen p)]"
proof -
  obtain x y where "coords p = \<lparr>cx = x, cy = y\<rparr>" by (cases "coords p")
  then show ?thesis using assms
    by (cases s; cases "color p")
      (auto simp: addPlayer_def setPlayerParams_def Let_def start_coords_def mk_coords_def shown_def seen_def)
qed

lemma joinRoom_at_starts:
  assumes "\<forall>p \<in> set ps. start_coords (color p) = Some (coords p) \<and> livesRemaining p = 3"
  shows "map shown (eplayers (snd (joinRoom (roster_message ps) s))) =
    map shown (eplayers (snd s)) @ map (\<lambda>p. (username p, seen p)) ps"
proof -
  have "map shown (eplayers (snd (foldl (\<lambda>s pl. addPlayer pl s) s (map (\<lambda>p. GamePlayer (username p) (color p)) ps)))) =
      map shown (eplayers (snd s)) @ map (\<lambda>p. (username p, seen p)) ps"
    using assms
  proof (induction ps arbitrary: s)
    case (Cons p ps)
    then show ?case using addPlayer_at_start [of p s] by simp
  qed simp
  then show ?thesis
    by (simp add: joinRoom_def roster_message_def msg_welcometoroom_def message_def GameMessage_default_def)
qed

lemma server_view_at_starts:
  assumes "\<forall>p \<in> set (players r). livesRemaining p = 3"
  shows "server_view r = map_of (map (\<lambda>p. (username p, seen p)) (players r))"
proof -
  have "filter (\<lambda>p. livesRemaining p > 0) (players r) = players r" using assms by (simp add: filter_id_conv)
  then show ?thesis by (simp add: server_view_def roster_def)
qed

lemma map_of_snoc: "u \<notin> fst ` set xs \<Longrightarrow> map_of (xs @ [(u, v)]) = (map_of xs)(u \<mapsto> v)"
  by (induction xs) (auto simp: fun_eq_iff)

lemma distinct_shown: "distinct (map pseudonim bs) \<longleftrightarrow> distinct (map fst (map shown bs))"
  by (simp add: shown_def comp_def)

text \<open>
  The handling of a welcome by the new client and of a join by the others. The start positions
  the client knows by colour are those of the server.
\<close>

lemma join_handled:
  assumes "JoinPlayer c name r w = Inr (a, r', w')" and "CanJoin name r = None"
    and "rstate r = WAIT_FOR_START" and "room_inv r w" and "at_starts r"
  shows "at_starts r' \<and> username (hd (players r')) = name \<and>
    (let eh' = snd (joinRoom (roster_message (players r')) (sh, EntityHandler_new)) in
      mirrors r' eh' \<and> pseudonim (hd (eplayers eh')) = name) \<and>
    (\<forall>s eh. mirrors r eh \<longrightarrow>
      mirrors r' (snd (addPlayer (msg_gamejoin (join_message (hd (players r')))) (s, eh))) \<and>
      (eplayers eh \<noteq> [] \<longrightarrow>
        hd (eplayers (snd (addPlayer (msg_gamejoin (join_message (hd (players r')))) (s, eh)))) = hd (eplayers eh)))"
proof -
  obtain q pos where q: "list_all2 marks (q # players r) (players r')" "username q = name"
      "livesRemaining q = 3" "start_coords (color q) = Some (coords q)"
    using JoinPlayer_changes [OF assms(1-4)] by blast
  then obtain p rest where p: "players r' = p # rest" "marks q p" "list_all2 marks (players r) rest"
    by (auto simp: list_all2_Cons1)
  have P: "username p = name" "livesRemaining p = 3" "start_coords (color p) = Some (coords p)"
    using q p(2) by (simp_all add: marks_fields)
  have rest: "\<forall>p \<in> set rest. start_coords (color p) = Some (coords p) \<and> livesRemaining p = 3"
    by (rule list_all2_ball [OF p(3)]) (use assms(5) in \<open>auto simp: at_starts_def marks_fields\<close>)
  then have starts: "at_starts r'" using P p(1) by (simp add: at_starts_def)
  have inv: "room_inv r' w'" using JoinPlayer_inv [OF assms(1,4,2)] .
  then have d: "distinct (map username (players r'))" by (simp add: room_inv_def)
  have names: "map username rest = map username (players r)" using marks_maps(3) [OF p(3)] .
  have view: "server_view r' = map_of (map (\<lambda>p. (username p, seen p)) (players r'))"
    using server_view_at_starts starts by (simp add: at_starts_def)
  have old: "server_view r = map_of (map (\<lambda>p. (username p, seen p)) rest)"
  proof -
    have "server_view (r'\<lparr>players := rest\<rparr>) = server_view r"
      by (rule server_view_marks) (use p(3) in simp)
    moreover have "server_view (r'\<lparr>players := rest\<rparr>) = map_of (map (\<lambda>p. (username p, seen p)) rest)"
      using server_view_at_starts [of "r'\<lparr>players := rest\<rparr>"] rest by simp
    ultimately show ?thesis by simp
  qed
  let ?own = "snd (joinRoom (roster_message (players r')) (sh, EntityHandler_new))"
  have own: "map shown (eplayers ?own) = map (\<lambda>p. (username p, seen p)) (players r')"
    using joinRoom_at_starts [of "players r'" "(sh, EntityHandler_new)"] starts
    by (simp add: at_starts_def EntityHandler_new_def)
  then have "mirrors r' ?own"
    using d view by (simp add: mirrors_def client_view_shown distinct_shown comp_def)
  moreover have "pseudonim (hd (eplayers ?own)) = name"
    using own p(1) P(1) by (cases "eplayers ?own") (auto simp: shown_def)
  moreover have "mirrors r' (snd (addPlayer (msg_gamejoin (join_message p)) (s, eh))) \<and>
      (eplayers eh \<noteq> [] \<longrightarrow> hd (eplayers (snd (addPlayer (msg_gamejoin (join_message p)) (s, eh)))) = hd (eplayers eh))"
    if m: "mirrors r eh" for s eh
  proof -
    let ?eh = "snd (addPlayer (msg_gamejoin (join_message p)) (s, eh))"
    have pl: "msg_gamejoin (join_message p) = GamePlayer (username p) (color p)"
      by (simp add: msg_gamejoin_def join_message_def message_def GameMessage_default_def)
    have sh: "map shown (eplayers ?eh) = map shown (eplayers eh) @ [(username p, seen p)]"
      using addPlayer_at_start [of p "(s, eh)"] P(2,3) pl by simp
    have e: "client_view eh = server_view r" "distinct (map fst (map shown (eplayers eh)))"
      using m by (auto simp: mirrors_def distinct_shown simp del: map_map)
    have new: "username p \<notin> username ` set rest" using d p(1) by simp
    then have "client_view eh (username p) = None"
      unfolding e(1) old map_of_eq_None_iff by (simp add: image_image)
    then have free: "username p \<notin> fst ` set (map shown (eplayers eh))"
      unfolding client_view_shown map_of_eq_None_iff .
    have "client_view ?eh = (client_view eh)(username p \<mapsto> seen p)"
      unfolding client_view_shown sh by (rule map_of_snoc [OF free])
    then have "client_view ?eh = server_view r'" by (simp add: e(1) old view p(1))
    moreover have "distinct (map pseudonim (eplayers ?eh))"
      unfolding distinct_shown sh using e(2) free by (simp del: map_map)
    moreover have "eplayers eh \<noteq> [] \<longrightarrow> hd (eplayers ?eh) = hd (eplayers eh)"
      by (simp add: addPlayer_def Let_def)
    ultimately show ?thesis by (simp add: mirrors_def)
  qed
  ultimately show ?thesis using starts p(1) P(1) by (auto simp: Let_def)
qed

lemma handle_welcome_or_join:
  "handleLobbyMsg (roster_message ps) s u = Some (Inr (False, joinRoom (roster_message ps) s, EndDrawing u))"
  "handleLobbyMsg (join_message p) s u = Some (Inr (False, addPlayer (msg_gamejoin (join_message p)) s, EndDrawing u))"
  "handleLobbyMsg (start_of k) s u = Some (Inr (True, s, u))"
  by (simp_all add: handleLobbyMsg_def roster_message_def join_message_def message_def start_of_def)

text \<open>
  C6. The clients in the lobby mirror the room. When a player joins a waiting room in which nobody
  has left its start, what the room writes to the new player's connection is one welcome, and
  handling it makes the new client mirror the room, with itself in the first slot; what
  it writes to the connection of every other player that can be sent to is one join, and
  handling it makes a client that mirrored the room before mirror it after, and leaves its own player where it
  was. With the fourth join, and only then, the message that ends the wait follows. The room stays one in
  which nobody has left its start.
\<close>

theorem joins_are_mirrored:
  assumes "JoinPlayer c name r w = Inr (a, r', w')" and "CanJoin name r = None"
    and "rstate r = WAIT_FOR_START" and "room_inv r w" and "at_starts r"
    and "healthy c w" and "\<forall>q \<in> set (players r). sock_of (conn q) w \<noteq> sock_of c w"
    and "\<forall>k \<in> {roster_message (players r'), join_message (hd (players r'))}. fits w k \<and> fits w (start_of k)"
  shows "at_starts r' \<and>
    out w' (sock_of c w) = out w (sock_of c w) @ wire w (with_start r (roster_message (players r'))) \<and>
    (\<exists>sh' eh'. handleLobbyMsg (roster_message (players r')) (sh, EntityHandler_new) u =
        Some (Inr (False, (sh', eh'), EndDrawing u)) \<and>
      mirrors r' eh' \<and> pseudonim (hd (eplayers eh')) = name) \<and>
    (\<forall>q \<in> set (players r). online (addr q) (conn q) (r, w) \<longrightarrow>
      out w' (sock_of (conn q) w) =
        out w (sock_of (conn q) w) @ wire w (with_start r (join_message (hd (players r'))))) \<and>
    (\<forall>sh eh u. mirrors r eh \<longrightarrow>
      (\<exists>sh' eh'. handleLobbyMsg (join_message (hd (players r'))) (sh, eh) u =
          Some (Inr (False, (sh', eh'), EndDrawing u)) \<and>
        mirrors r' eh' \<and> (eplayers eh \<noteq> [] \<longrightarrow> hd (eplayers eh') = hd (eplayers eh))))"
proof -
  note e = join_handled [OF assms(1-5), of sh, unfolded Let_def]
  note say = JoinPlayer_says [OF assms(1,3,4,8)]
  let ?R = "roster_message (players r')" and ?J = "join_message (hd (players r'))"
  have "out w' (sock_of c w) = out w (sock_of c w) @ wire w (with_start r ?R)"
    using say(1) [OF assms(6,7)] by (simp add: says_def)
  moreover have "\<exists>sh' eh'. handleLobbyMsg ?R (sh, EntityHandler_new) u = Some (Inr (False, (sh', eh'), EndDrawing u)) \<and>
      mirrors r' eh' \<and> pseudonim (hd (eplayers eh')) = name"
    unfolding handle_welcome_or_join using e by (cases "joinRoom ?R (sh, EntityHandler_new)") simp
  moreover have "\<forall>q \<in> set (players r). online (addr q) (conn q) (r, w) \<longrightarrow>
      out w' (sock_of (conn q) w) = out w (sock_of (conn q) w) @ wire w (with_start r ?J)"
    using say(2) assms(7) by (simp add: says_def)
  moreover have "\<exists>sh' eh'. handleLobbyMsg ?J (s, eh) v = Some (Inr (False, (sh', eh'), EndDrawing v)) \<and> mirrors r' eh' \<and>
      (eplayers eh \<noteq> [] \<longrightarrow> hd (eplayers eh') = hd (eplayers eh))" if "mirrors r eh" for s eh v
    unfolding handle_welcome_or_join
    by (intro exI [of _ "fst (addPlayer (msg_gamejoin ?J) (s, eh))"] exI [of _ "snd (addPlayer (msg_gamejoin ?J) (s, eh))"])
      (use e that in simp)
  ultimately show ?thesis using e by blast
qed

text \<open>Bob joins the room in which Ann waits, and she sees him.\<close>

definition waiting_room :: room where
  "waiting_room = playing_room\<lparr>players := [sample_player], rstate := WAIT_FOR_START, clientCount := 1\<rparr>"

definition waiting_ann :: entity_handler where
  "waiting_ann = two_players\<lparr>eplayers := [Boomberman_new ''ann'' RED 1 1 3]\<rparr>"

theorem joins_are_mirrored_witness:
  "\<exists>a r' w'. JoinPlayer 6 ''bob'' waiting_room room_world = Inr (a, r', w') \<and>
    map username (players r') = [''bob'', ''ann''] \<and>
    out w' 6 = wire room_world [roster_message (players r')] \<and> out w' 5 = wire room_world [join_message (hd (players r'))] \<and>
    (\<forall>u. \<exists>sh' eh'. handleLobbyMsg (roster_message (players r')) (sample_handler, EntityHandler_new) u =
      Some (Inr (False, (sh', eh'), EndDrawing u)) \<and> mirrors r' eh') \<and>
    (\<forall>u. \<exists>sh' eh'. handleLobbyMsg (join_message (hd (players r'))) (sample_handler, waiting_ann) u =
      Some (Inr (False, (sh', eh'), EndDrawing u)) \<and> mirrors r' eh')"
proof -
  have "yields (JoinPlayer 6 ''bob'' waiting_room room_world) (\<lambda>(a, r', w'). map username (players r') = [''bob'', ''ann''])" by code_simp
  then obtain a r' w' where run: "JoinPlayer 6 ''bob'' waiting_room room_world = Inr (a, r', w')"
      "map username (players r') = [''bob'', ''ann'']" by (auto elim!: yieldsE)
  have pre: "CanJoin ''bob'' waiting_room = None" "rstate waiting_room = WAIT_FOR_START" "at_starts waiting_room"
      "room_inv waiting_room room_world"
    by (simp_all add: CanJoin_def waiting_room_def playing_room_def sample_player_def at_starts_def room_inv_def
        start_coords_def player_wf_def mk_coords_def in_array_def server_tile_start room_world_def)
  have net: "healthy 6 room_world" "\<forall>q \<in> set (players waiting_room). sock_of (conn q) room_world \<noteq> sock_of 6 room_world"
      "sock_of 6 room_world = 6" "sock_of 5 room_world = 5" "out room_world s = []" "fits room_world k" for s k
    by (simp_all add: waiting_room_def sample_player_def healthy_def sock_of_def room_world_def fits_def)
  have ann: "players waiting_room = [sample_player]" "conn sample_player = 5" "clientCount waiting_room = 1"
      "online (addr sample_player) 5 (waiting_room, room_world)"
    by (simp_all add: waiting_room_def playing_room_def sample_player_def online_def seats_def healthy_def sock_of_def room_world_def)
  have mir: "mirrors waiting_room waiting_ann"
    by (auto simp: mirrors_def client_view_def server_view_def waiting_ann_def two_players_def waiting_room_def
        playing_room_def sample_player_def seen_def mk_coords_def Boomberman_new_def)
  have one: "with_start waiting_room m = [m]" for m by (simp add: with_start_def ann(3))
  have "\<forall>k \<in> {roster_message (players r'), join_message (hd (players r'))}. fits room_world k \<and> fits room_world (start_of k)"
    using net(6) by blast
  note e = joins_are_mirrored [OF run(1) pre(1,2,4,3) net(1,2) this, of sample_handler, unfolded one net(3,5)]
  have "out w' 5 = wire room_world [join_message (hd (players r'))]" using e ann net(4,5) by auto
  moreover have "out w' 6 = wire room_world [roster_message (players r')]" using e by simp
  moreover have "\<forall>u. \<exists>sh' eh'. handleLobbyMsg (roster_message (players r')) (sample_handler, EntityHandler_new) u =
      Some (Inr (False, (sh', eh'), EndDrawing u)) \<and> mirrors r' eh'" using e by metis
  moreover have "\<forall>u. \<exists>sh' eh'. handleLobbyMsg (join_message (hd (players r'))) (sample_handler, waiting_ann) u =
      Some (Inr (False, (sh', eh'), EndDrawing u)) \<and> mirrors r' eh'" using e mir by metis
  ultimately show ?thesis using run by (intro exI conjI)
qed

subsection \<open>Nobody left\<close>

definition last_hit :: "string \<Rightarrow> int \<Rightarrow> GameMessage" where
  "last_hit name time = message GOT_HIT (GotHitB name 0 time)"

lemma names_dom: "names eh = dom (client_view eh)"
  unfolding names_def client_view_def roster_def dom_map_of_conv_image_fst by (simp add: image_image)

lemma last_hit_removes:
  assumes "handleMessage (last_hit u t) (sh, eh) = Inr (sh', eh')" "distinct (map pseudonim (eplayers eh))"
  shows "names eh' = names eh - {u} \<and> distinct (map pseudonim (eplayers eh'))"
proof (cases "findPlayer eh u")
  case None
  then have "eh' = eh" using assms(1)
    by (simp add: handleMessage_def last_hit_def message_def msg_gothit_def GameMessage_default_def)
  moreover have "u \<notin> names eh" unfolding names_dom using None findPlayer_None by (simp add: domIff)
  ultimately show ?thesis using assms(2) by simp
next
  case (Some i)
  note i = findPlayer_Some [OF Some]
  obtain q where q: "gotHit t (eplayers eh ! i) = Inr q"
      "eh' = eh\<lparr>eplayers := erase_at i ((eplayers eh)[i := q])\<rparr>"
    using assms(1) Some
    by (auto simp: handleMessage_def last_hit_def message_def msg_gothit_def GameMessage_default_def Let_def)
  have name: "pseudonim q = pseudonim (eplayers eh ! i)" using q(1) by (auto simp: gotHit_Inr)
  let ?e = "eh\<lparr>eplayers := (eplayers eh)[i := q]\<rparr>"
  have d: "distinct (map pseudonim (eplayers ?e))"
    using client_view_update(2) [OF assms(2) _ name] i assms(2) by simp
  have er: "client_view eh' = (client_view ?e)(u := None)" "distinct (map pseudonim (eplayers eh'))"
    using client_view_erase [OF d, of i] i name by (simp_all add: q(2))
  have "dom (client_view ?e) = dom (client_view eh)"
    using client_view_update(1) [OF assms(2) _ name] i findPlayer_view [OF assms(2) Some] name by auto
  then show ?thesis unfolding names_dom using er by simp
qed

text \<open>
  C40. When everybody loses the last life (as in an explosion that nobody survives) and the clients
  are told so, the next frame of a client, and the end of its loop, use a destroyed player:
  the pointer to the first slot is kept although no player is left.
\<close>

theorem everyone_dead_undefined:
  assumes "iterE handleMessage (map (\<lambda>u. last_hit u (time u)) us) (sh, cl_eh c) = Inr (sh', eh')"
    and "names (cl_eh c) \<subseteq> set us" and "distinct (map pseudonim (eplayers (cl_eh c)))"
  shows "run_frame (c\<lparr>cl_eh := eh', cl_sh := sh'\<rparr>) = Inl (Undefined ''use of a destroyed player'') \<and>
    end_client (c\<lparr>cl_eh := eh', cl_sh := sh'\<rparr>) = Inl (Undefined ''use of a destroyed player'')"
proof -
  have "names eh' = {}"
    if "iterE handleMessage (map (\<lambda>u. last_hit u (time u)) us) (sh, eh) = Inr (sh', eh')"
      "names eh \<subseteq> set us" "distinct (map pseudonim (eplayers eh))" for us sh eh
    using that
  proof (induction us arbitrary: sh eh)
    case (Cons u us)
    obtain s1 e1 where h: "handleMessage (last_hit u (time u)) (sh, eh) = Inr (s1, e1)"
        "iterE handleMessage (map (\<lambda>u. last_hit u (time u)) us) (s1, e1) = Inr (sh', eh')"
      using Cons.prems(1) by auto
    show ?case
      by (rule Cons.IH [OF h(2)]) (use last_hit_removes [OF h(1) Cons.prems(3)] Cons.prems(2) in auto)
  qed simp
  from this [OF assms] have "eplayers eh' = []" by (simp add: names_def)
  then show ?thesis by (simp add: run_frame_def end_client_def local_boomberman_def)
qed

theorem everyone_dead_undefined_witness:
  "\<exists>eh'. handleMessage (last_hit ''bob'' 7) (cl_sh gone_client, cl_eh gone_client) = Inr (cl_sh gone_client, eh') \<and>
    run_frame (gone_client\<lparr>cl_eh := eh', cl_sh := cl_sh gone_client\<rparr>) = Inl (Undefined ''use of a destroyed player'')"
proof -
  have "yields (handleMessage (last_hit ''bob'' 7) (cl_sh gone_client, cl_eh gone_client)) (\<lambda>(sh', eh'). sh' = cl_sh gone_client)"
    by code_simp
  then obtain eh' where run: "handleMessage (last_hit ''bob'' 7) (cl_sh gone_client, cl_eh gone_client) =
      Inr (cl_sh gone_client, eh')" by (auto elim!: yieldsE)
  then have "iterE handleMessage (map (\<lambda>u. last_hit u 7) [''bob'']) (cl_sh gone_client, cl_eh gone_client) =
      Inr (cl_sh gone_client, eh')" by simp
  from everyone_dead_undefined [OF this] run show ?thesis
    by (simp add: names_def gone_client_def two_players_def)
qed

end
