(* ===== verification/ClientWire.thy ===== *)
theory ClientWire
  imports ClientMirror ServerLoops
begin

section \<open>From the room to the screens\<close>

text \<open>
  The two sides of the program together: what a room writes to the socket of a player (theory
  \<open>RoomWire\<close>) during a call makes the client that handles it mirror the room again (theory \<open>ClientMirror\<close>),
  but for the tile of its own player, which it moves ahead of the room.
\<close>

subsection \<open>News for a client\<close>

text \<open>
  A client moves its own player before the server does, so what it is told of a game is what the
  room says but for its own player's tile. \<open>sees me V eh\<close>: the view of the client is \<open>V\<close> but for where \<open>me\<close> is, every player has
  a position, and \<open>me\<close> is in the first slot while it lives.
\<close>

type_synonym view = "string \<Rightarrow> ((int \<times> int) option \<times> int) option"

definition blur :: "string \<Rightarrow> view \<Rightarrow> view" where
  "blur me V = V(me := map_option (\<lambda>v. (None, snd v)) (V me))"

definition placed :: "view \<Rightarrow> bool" where
  "placed V \<longleftrightarrow> (\<forall>u v. V u = Some v \<longrightarrow> fst v \<noteq> None)"

definition sees :: "string \<Rightarrow> view \<Rightarrow> entity_handler \<Rightarrow> bool" where
  "sees me V eh \<longleftrightarrow> blur me (client_view eh) = blur me V \<and> distinct (map pseudonim (eplayers eh)) \<and>
    (\<forall>b \<in> set (eplayers eh). position b \<noteq> None) \<and>
    (V me \<noteq> None \<longrightarrow> (\<exists>b bs. eplayers eh = b # bs \<and> pseudonim b = me))"

text \<open>
  \<open>turns me ms V V'\<close>: handling \<open>ms\<close> takes every client that sees \<open>V\<close> to one that sees \<open>V'\<close>,
  whatever it does to its entities between two messages as long as it sees the same.
  \<open>informs\<close>: from one state of the room to another the player at \<open>a\<close> is told, over its
  connection \<open>c\<close>, messages that do so for the views of the room.
\<close>

primrec turns :: "string \<Rightarrow> GameMessage list \<Rightarrow> view \<Rightarrow> view \<Rightarrow> bool" where
  "turns me [] V V' \<longleftrightarrow> blur me V' = blur me V"
| "turns me (m # ms) V V' \<longleftrightarrow> (\<exists>U. turns me ms U V' \<and> (\<forall>sh eh. sees me V eh \<longrightarrow>
    (\<exists>sh' eh'. handleMessage m (sh, eh) = Inr (sh', eh') \<and> sees me U eh')))"

definition informs :: "nat \<Rightarrow> int \<Rightarrow> string \<Rightarrow> view \<Rightarrow> room \<times> world \<Rightarrow> view \<Rightarrow> room \<times> world \<Rightarrow> bool" where
  "informs a c me V s V' s' \<longleftrightarrow> (\<exists>ms. tells a c ms s s' \<and> (\<forall>m \<in> set ms. decodable (snd s) m) \<and> turns me ms V V')"

lemma blur_None: "blur me V = blur me U \<Longrightarrow> V me = None \<longleftrightarrow> U me = None"
proof -
  assume "blur me V = blur me U"
  then have "blur me V me = None \<longleftrightarrow> blur me U me = None" by simp
  then show ?thesis by (simp add: blur_def)
qed

lemma sees_blur: "blur me V = blur me U \<Longrightarrow> sees me V eh = sees me U eh"
  using blur_None [of me V U] by (simp add: sees_def)

lemma turns_blur_from: "blur me V = blur me U \<Longrightarrow> turns me ms V W = turns me ms U W"
proof -
  assume m: "blur me V = blur me U"
  then have "sees me V = sees me U" by (intro ext) (rule sees_blur)
  with m show ?thesis by (cases ms) simp_all
qed

lemma turns_blur_to: "blur me W' = blur me W \<Longrightarrow> turns me ms V W \<Longrightarrow> turns me ms V W'"
proof (induction ms arbitrary: V)
  case (Cons m ms)
  then obtain U where U: "turns me ms U W"
      "\<forall>sh eh. sees me V eh \<longrightarrow> (\<exists>sh' eh'. handleMessage m (sh, eh) = Inr (sh', eh') \<and> sees me U eh')" by auto
  from Cons.IH [OF Cons.prems(1) U(1)] U(2) show ?case unfolding turns.simps by (intro exI [of _ U] conjI)
qed simp

lemma turns_nothing [simp]: "turns me [] V V"
  by simp

lemma turns_append: "turns me (ms @ ms') U W \<longleftrightarrow> (\<exists>V. turns me ms U V \<and> turns me ms' V W)"
proof (induction ms arbitrary: U)
  case Nil
  have "turns me ms' U W" if "blur me V = blur me U" "turns me ms' V W" for V
    using turns_blur_from [OF that(1)] that(2) by blast
  then show ?case by auto
qed auto

lemma turns_trans: "turns me ms U V \<Longrightarrow> turns me ms' V W \<Longrightarrow> turns me (ms @ ms') U W"
  by (auto simp: turns_append)

text \<open>Handling the messages one after the other.\<close>

lemma turns_handled:
  "turns me ms V V' \<Longrightarrow> sees me V eh \<Longrightarrow> \<exists>sh' eh'. iterE handleMessage ms (sh, eh) = Inr (sh', eh') \<and> sees me V' eh'"
proof (induction ms arbitrary: V sh eh)
  case Nil
  then show ?case using sees_blur [of me V V' eh] by simp
next
  case (Cons m ms)
  then obtain U where U: "turns me ms U V'"
      "\<forall>sh eh. sees me V eh \<longrightarrow> (\<exists>sh' eh'. handleMessage m (sh, eh) = Inr (sh', eh') \<and> sees me U eh')" by auto
  then obtain sh1 eh1 where m: "handleMessage m (sh, eh) = Inr (sh1, eh1)" "sees me U eh1" using Cons.prems(2) by blast
  from Cons.IH [OF U(1) m(2), of sh1] m(1) show ?case by simp
qed

subsection \<open>Clients that differ in their own tile\<close>

text \<open>
  What a message does to a client does not depend on where the client has put its own player: two
  clients that differ in that handle it alike and still differ in at most that.
\<close>

definition moved_only :: "string \<Rightarrow> boomberman \<Rightarrow> boomberman \<Rightarrow> bool" where
  "moved_only me b b' \<longleftrightarrow> position b \<noteq> None \<and> position b' \<noteq> None \<and> b' = b\<lparr>position := position b'\<rparr> \<and>
    (pseudonim b \<noteq> me \<longrightarrow> b' = b)"

definition but_for :: "string \<Rightarrow> entity_handler \<Rightarrow> entity_handler \<Rightarrow> bool" where
  "but_for me eh eh' \<longleftrightarrow> list_all2 (moved_only me) (eplayers eh) (eplayers eh')"

lemma moved_only_fields: "moved_only me b b' \<Longrightarrow> pseudonim b' = pseudonim b \<and> health b' = health b"
  by (cases b; cases b') (auto simp: moved_only_def)

lemma but_for_names: "but_for me eh eh' \<Longrightarrow> map pseudonim (eplayers eh') = map pseudonim (eplayers eh)"
  unfolding but_for_def by (erule list_all2_map_eq) (simp add: moved_only_fields)

lemma find_index_rel: "list_all2 R xs ys \<Longrightarrow> (\<And>x y. R x y \<Longrightarrow> P y = P x) \<Longrightarrow> find_index P ys = find_index P xs"
  unfolding find_index_def
  by (rule find_cong) (auto simp: list_all2_lengthD list_all2_nthD2)

lemma but_for_find: "but_for me eh eh' \<Longrightarrow> findPlayer eh' u = findPlayer eh u"
  unfolding but_for_def findPlayer_def by (erule find_index_rel) (simp add: moved_only_fields)

lemma but_for_update:
  "but_for me eh eh' \<Longrightarrow> moved_only me b b' \<Longrightarrow>
    but_for me (eh\<lparr>eplayers := (eplayers eh)[i := b]\<rparr>) (eh'\<lparr>eplayers := (eplayers eh')[i := b']\<rparr>)"
  by (simp add: but_for_def list_all2_update_cong)

lemma but_for_erase:
  "but_for me eh eh' \<Longrightarrow>
    but_for me (eh\<lparr>eplayers := erase_at i (eplayers eh)\<rparr>) (eh'\<lparr>eplayers := erase_at i (eplayers eh')\<rparr>)"
  by (simp add: but_for_def erase_at_def list_all2_appendI list_all2_takeI list_all2_dropI)

lemma but_for_nth:
  "but_for me eh eh' \<Longrightarrow> i < length (eplayers eh) \<Longrightarrow> moved_only me (eplayers eh ! i) (eplayers eh' ! i)"
  by (simp add: but_for_def list_all2_nthD)

lemma place_player_but_for:
  assumes "place_player i x y eh = Inr eh1" "but_for me eh eh'" "i < length (eplayers eh)"
  shows "\<exists>eh2. place_player i x y eh' = Inr eh2 \<and> but_for me eh1 eh2"
proof -
  obtain k l where kl: "trunc_to_int x = Inr k" "trunc_to_int y = Inr l" using assms(1) by (auto simp: place_player_def)
  note m = but_for_nth [OF assms(2,3)]
  have "moved_only me ((eplayers eh ! i)\<lparr>position := Some (k, l)\<rparr>) ((eplayers eh' ! i)\<lparr>position := Some (k, l)\<rparr>)"
    using m by (cases "eplayers eh ! i"; cases "eplayers eh' ! i") (auto simp: moved_only_def)
  from but_for_update [OF assms(2) this, of i] show ?thesis
    using assms(1) kl m by (auto simp: place_player_def setBoombermanPos_def moved_only_def)
qed

lemma handleMessage_but_for:
  assumes run: "handleMessage m (sh, eh) = Inr (sh1, eh1)" and bf: "but_for me eh eh'"
  shows "\<exists>eh2. handleMessage m (sh, eh') = Inr (sh1, eh2) \<and> but_for me eh1 eh2"
proof (cases "mtype m")
  case OTHER_MOVE
  obtain u x y where u: "msg_othermove m = (u, x, y)" by (metis prod_cases3)
  show ?thesis
  proof (cases "u = [] \<or> findPlayer eh u = None")
    case True
    then show ?thesis using OTHER_MOVE run bf u but_for_find [OF bf] by (auto simp: handleMessage_def)
  next
    case False
    then obtain i where i: "findPlayer eh u = Some i" by blast
    then have "place_player i x y eh = Inr eh1" "sh1 = sh" using OTHER_MOVE run u False by (auto simp: handleMessage_def)
    from place_player_but_for [OF this(1) bf] this(2) i findPlayer_Some [OF i] show ?thesis
      using OTHER_MOVE u False but_for_find [OF bf] by (auto simp: handleMessage_def)
  qed
next
  case OTHER_LEAVE
  then show ?thesis
    using run bf but_for_find [OF bf] but_for_erase [OF bf]
    by (cases "findPlayer eh (msg_otherleave m)") (auto simp: handleMessage_def)
next
  case GOT_HIT
  obtain u l t where u: "msg_gothit m = (u, l, t)" by (metis prod_cases3)
  show ?thesis
  proof (cases "findPlayer eh u")
    case None
    then show ?thesis using GOT_HIT run bf u but_for_find [OF bf] by (auto simp: handleMessage_def)
  next
    case (Some i)
    note mo = but_for_nth [OF bf conjunct1 [OF findPlayer_Some [OF Some]]]
    obtain b where b: "gotHit t (eplayers eh ! i) = Inr b" "sh1 = sh"
        "eh1 = eh\<lparr>eplayers := if l \<le> 0 then erase_at i ((eplayers eh)[i := b]) else (eplayers eh)[i := b]\<rparr>"
      using GOT_HIT run u Some by (auto simp: handleMessage_def Let_def)
    obtain b' where b': "gotHit t (eplayers eh' ! i) = Inr b'" "moved_only me b b'"
      using b(1) mo moved_only_fields [OF mo] unfolding gotHit_Inr moved_only_def
      by (cases "eplayers eh ! i"; cases "eplayers eh' ! i") (auto simp: gotHit_def)
    note up = but_for_update [OF bf b'(2), of i]
    show ?thesis
      using GOT_HIT u Some b b'(1) up but_for_erase [OF up, of i] but_for_find [OF bf]
      by (auto simp: handleMessage_def Let_def)
  qed
next
  case OTHER_BOMB_PLACE
  obtain u t x y where u: "msg_otherbombplace m = (u, t, x, y)" by (metis prod_cases4)
  show ?thesis using OTHER_BOMB_PLACE run bf u by (auto simp: handleMessage_def placeBomb_def but_for_def)
next
  case MOVEMENT_CORRECTION
  obtain x y where u: "msg_movementcorrection m = (x, y)" by fastforce
  have ne: "eplayers eh \<noteq> []" and p: "place_player 0 x y eh = Inr eh1" "sh1 = sh"
    using MOVEMENT_CORRECTION run u by (auto simp: handleMessage_def split: if_splits)
  moreover have "eplayers eh' \<noteq> []" using ne bf by (auto simp: but_for_def)
  ultimately show ?thesis
    using place_player_but_for [OF p(1) bf] MOVEMENT_CORRECTION u by (auto simp: handleMessage_def)
qed (use run bf in \<open>auto simp: handleMessage_def\<close>)

text \<open>The order of the players is kept.\<close>

lemma handleMessage_order:
  assumes "handleMessage m (sh, eh) = Inr (sh', eh')"
  shows "map pseudonim (eplayers eh') = map pseudonim (eplayers eh) \<or>
    (\<exists>i. map pseudonim (eplayers eh') = erase_at i (map pseudonim (eplayers eh)))"
proof -
  have up: "map pseudonim ((eplayers eh)[i := b]) = map pseudonim (eplayers eh)"
    if "pseudonim b = pseudonim (eplayers eh ! i)" for i b
    using that by (metis list_update_id map_update)
  have place: "map pseudonim (eplayers eh') = map pseudonim (eplayers eh)" if "place_player i x y eh = Inr eh'" for i x y
    using that up by (auto simp: place_player_def setBoombermanPos_Inr)
  have er: "map pseudonim (erase_at i xs) = erase_at i (map pseudonim xs)" for i and xs :: "boomberman list"
    by (simp add: erase_at_def take_map drop_map)
  show ?thesis
  proof (cases "mtype m")
    case OTHER_MOVE
    then show ?thesis using assms place
      by (auto simp: handleMessage_def Let_def split: prod.splits option.splits if_splits)
  next
    case OTHER_LEAVE
    then show ?thesis using assms er by (auto simp: handleMessage_def split: option.splits)
  next
    case GOT_HIT
    obtain u l t where u: "msg_gothit m = (u, l, t)" by (metis prod_cases3)
    show ?thesis
    proof (cases "findPlayer eh u")
      case None
      then show ?thesis using GOT_HIT u assms by (simp add: handleMessage_def)
    next
      case (Some i)
      then obtain b where b: "gotHit t (eplayers eh ! i) = Inr b"
          "eh' = eh\<lparr>eplayers := if l \<le> 0 then erase_at i ((eplayers eh)[i := b]) else (eplayers eh)[i := b]\<rparr>"
        using GOT_HIT u assms by (auto simp: handleMessage_def Let_def)
      have "map pseudonim ((eplayers eh)[i := b]) = map pseudonim (eplayers eh)"
        using b(1) by (intro up) (auto simp: gotHit_Inr)
      then show ?thesis using b(2) er [of i "(eplayers eh)[i := b]"] by (cases "l \<le> 0") auto
    qed
  next
    case OTHER_BOMB_PLACE
    then show ?thesis using assms
      by (auto simp: handleMessage_def placeBomb_def split: prod.splits)
  next
    case MOVEMENT_CORRECTION
    then show ?thesis using assms place
      by (auto simp: handleMessage_def split: prod.splits if_splits)
  qed (use assms in \<open>auto simp: handleMessage_def\<close>)
qed

text \<open>What a client that saw \<open>V\<close> exactly would do, a client that sees it but for its own tile does too.\<close>

lemma but_for_view:
  assumes "but_for me eh eh'" "distinct (map pseudonim (eplayers eh))"
  shows "blur me (client_view eh') = blur me (client_view eh)"
proof
  fix u
  have d: "distinct (map pseudonim (eplayers eh'))" using assms(2) but_for_names [OF assms(1)] by simp
  show "blur me (client_view eh') u = blur me (client_view eh) u"
  proof (cases "findPlayer eh u")
    case None
    then have "client_view eh u = None" "client_view eh' u = None"
      using findPlayer_None but_for_find [OF assms(1)] by metis+
    then show ?thesis by (auto simp: blur_def)
  next
    case (Some i)
    then have i: "findPlayer eh' u = Some i" using but_for_find [OF assms(1)] by simp
    note m = but_for_nth [OF assms(1) conjunct1 [OF findPlayer_Some [OF Some]]]
    have "client_view eh u = Some (position (eplayers eh ! i), health (eplayers eh ! i))"
      by (rule findPlayer_view [OF assms(2) Some])
    moreover have "client_view eh' u = Some (position (eplayers eh' ! i), health (eplayers eh ! i))"
      using findPlayer_view [OF d i] moved_only_fields [OF m] by simp
    moreover have "position (eplayers eh' ! i) = position (eplayers eh ! i)" if "u \<noteq> me"
      using m that findPlayer_Some [OF Some] by (simp add: moved_only_def)
    ultimately show ?thesis by (cases "u = me") (simp_all add: blur_def)
  qed
qed

text \<open>The client with its own player put where the view has it.\<close>

lemma exact_client:
  assumes "sees me V eh" "placed V"
  shows "\<exists>eh0. client_view eh0 = V \<and> but_for me eh0 eh"
proof (cases "V me")
  case None
  then have "client_view eh me = None" using assms(1) blur_None [of me "client_view eh" V] by (simp add: sees_def)
  moreover have "blur me (client_view eh) u = blur me V u" for u using assms(1) by (simp add: sees_def)
  then have "client_view eh u = V u" if "u \<noteq> me" for u using that by (metis blur_def fun_upd_other)
  ultimately have "client_view eh = V" using None by (metis ext)
  moreover have "but_for me eh eh"
    using assms(1) by (auto simp: but_for_def sees_def moved_only_def intro!: list.rel_refl_strong)
  ultimately show ?thesis by blast
next
  case (Some v)
  then have "fst v \<noteq> None" using assms(2) unfolding placed_def by blast
  then obtain q h where v: "v = (Some q, h)" by (cases v) auto
  obtain b bs where b: "eplayers eh = b # bs" "pseudonim b = me" using assms(1) Some by (auto simp: sees_def)
  let ?eh = "eh\<lparr>eplayers := b\<lparr>position := Some q\<rparr> # bs\<rparr>"
  have eq: "blur me (client_view eh) u = blur me V u" for u using assms(1) by (simp add: sees_def)
  have "client_view ?eh u = V u" for u
  proof (cases "u = me")
    case True
    have "snd (the (client_view eh me)) = h" using eq [of me] Some v b by (simp add: blur_def client_view_def)
    then show ?thesis using True Some v b by (simp add: client_view_def)
  next
    case False
    then show ?thesis using eq [of u] b by (simp add: blur_def client_view_def)
  qed
  moreover have "but_for me ?eh eh"
    using assms(1) b by (auto simp: but_for_def sees_def moved_only_def intro!: list.rel_refl_strong)
  ultimately show ?thesis by blast
qed

lemma turns_single:
  assumes "placed V"
    and exact: "\<And>sh eh. client_view eh = V \<Longrightarrow> distinct (map pseudonim (eplayers eh)) \<Longrightarrow>
      \<exists>sh' eh'. handleMessage m (sh, eh) = Inr (sh', eh') \<and> client_view eh' = V' \<and> distinct (map pseudonim (eplayers eh'))"
  shows "turns me [m] V V'"
proof -
  have "\<exists>sh' eh'. handleMessage m (sh, eh) = Inr (sh', eh') \<and> sees me V' eh'" if sees: "sees me V eh" for sh eh
  proof -
    obtain eh0 where eh0: "client_view eh0 = V" "but_for me eh0 eh" using exact_client [OF sees assms(1)] by blast
    have d: "distinct (map pseudonim (eplayers eh0))" using sees but_for_names [OF eh0(2)] by (simp add: sees_def)
    obtain sh' eh1 where run: "handleMessage m (sh, eh0) = Inr (sh', eh1)" "client_view eh1 = V'"
        "distinct (map pseudonim (eplayers eh1))"
      using exact [OF eh0(1) d] by blast
    obtain eh' where eh': "handleMessage m (sh, eh) = Inr (sh', eh')" "but_for me eh1 eh'"
      using handleMessage_but_for [OF run(1) eh0(2)] by blast
    have names: "map pseudonim (eplayers eh') = map pseudonim (eplayers eh1)" by (rule but_for_names [OF eh'(2)])
    have "blur me (client_view eh') = blur me V'" using but_for_view [OF eh'(2) run(3)] run(2) by simp
    moreover have "\<forall>b \<in> set (eplayers eh'). position b \<noteq> None"
      using eh'(2) unfolding but_for_def by (auto simp: list_all2_conv_all_nth in_set_conv_nth moved_only_def)
    moreover have "\<exists>b bs. eplayers eh' = b # bs \<and> pseudonim b = me" if "V' me \<noteq> None"
    proof -
      have "me \<in> set (map pseudonim (eplayers eh1))"
        using that run(2) findPlayer_None [of eh1 me] findPlayer_Some [of eh1 me] by (force simp: in_set_conv_nth)
      then have in': "me \<in> set (map pseudonim (eplayers eh'))" using names by simp
      have sub: "set (map pseudonim (eplayers eh')) \<subseteq> set (map pseudonim (eplayers eh))"
        using handleMessage_order [OF eh'(1)] set_erase_at [of _ "map pseudonim (eplayers eh)"] by fastforce
      then have "me \<in> set (map pseudonim (eplayers eh))" using in' by blast
      then have "V me \<noteq> None"
        using sees blur_None [of me "client_view eh" V] findPlayer_None [of eh me]
        by (auto simp: sees_def findPlayer_def find_index_None)
      then obtain b bs where b: "eplayers eh = b # bs" "pseudonim b = me" using sees by (auto simp: sees_def)
      have "me \<notin> set (map pseudonim bs)" using sees b by (auto simp: sees_def)
      have "\<exists>ns. map pseudonim (eplayers eh') = me # ns"
        using handleMessage_order [OF eh'(1)]
      proof (elim disjE exE)
        fix i assume i: "map pseudonim (eplayers eh') = erase_at i (map pseudonim (eplayers eh))"
        show ?thesis
        proof (cases i)
          case 0
          then show ?thesis using i in' \<open>me \<notin> set (map pseudonim bs)\<close> b by simp
        next
          case (Suc k)
          then show ?thesis using i b by (simp add: erase_at_def)
        qed
      qed (use b in simp)
      then show ?thesis by auto
    qed
    ultimately show ?thesis using eh'(1) names run(3) by (auto simp: sees_def)
  qed
  then show ?thesis unfolding turns.simps by (intro exI [of _ V'] conjI) simp_all
qed

lemma informsI: "tells a c ms s s' \<Longrightarrow> (\<And>m. m \<in> set ms \<Longrightarrow> decodable (snd s) m) \<Longrightarrow> turns me ms V V' \<Longrightarrow> informs a c me V s V' s'"
  unfolding informs_def by blast

lemma informs_quiet: "tells a c [] s s' \<Longrightarrow> informs a c me V s V s'"
  unfolding informs_def by (intro exI [of _ "[]"]) simp

lemma informs_refl [simp, intro]: "informs a c me V s V s"
  by (rule informs_quiet) simp

lemma informs_trans: "informs a c me U s V t \<Longrightarrow> informs a c me V t W u \<Longrightarrow> informs a c me U s W u"
proof -
  assume "informs a c me U s V t" "informs a c me V t W u"
  then obtain ms ms' where m: "tells a c ms s t" "\<forall>m \<in> set ms. decodable (snd s) m" "turns me ms U V"
      "tells a c ms' t u" "\<forall>m \<in> set ms'. decodable (snd t) m" "turns me ms' V W"
    by (auto simp: informs_def)
  then show ?thesis using tells_trans [OF m(1,4)] turns_trans [OF m(3,6)] tells_decodable [OF m(1)]
    by (intro informsI [of a c "ms @ ms'"]) auto
qed

lemma placed_server_view: "placed (server_view r)"
  unfolding placed_def server_view_def roster_def by (auto dest!: map_of_SomeD simp: seen_def)

text \<open>One message that takes every client that mirrors the room before to mirror the room after.\<close>

lemma turns_one:
  assumes "\<And>sh eh. mirrors r eh \<Longrightarrow> \<exists>sh' eh'. handleMessage m (sh, eh) = Inr (sh', eh') \<and> mirrors r' eh'"
  shows "turns me [m] (server_view r) (server_view r')"
  using assms unfolding mirrors_def by (intro turns_single placed_server_view) blast

text \<open>Messages that leave the players as they are.\<close>

lemma turns_idle:
  assumes "\<And>sh eh. \<exists>sh' eh'. handleMessage m (sh, eh) = Inr (sh', eh') \<and> eplayers eh' = eplayers eh"
  shows "turns me [m] V V"
proof -
  have "\<exists>sh' eh'. handleMessage m (sh, eh) = Inr (sh', eh') \<and> sees me V eh'" if "sees me V eh" for sh eh
  proof -
    obtain sh' eh' where "handleMessage m (sh, eh) = Inr (sh', eh')" "eplayers eh' = eplayers eh" using assms by blast
    then show ?thesis using that by (auto simp: sees_def client_view_def)
  qed
  then show ?thesis unfolding turns.simps by (intro exI [of _ V] conjI) simp_all
qed

lemma turns_error: "turns me [message ERROR (ErrorB e)] V V"
  by (rule turns_idle) (simp add: handleMessage_def message_def GameMessage_default_def)

text \<open>A correction moves the player it is for, and nobody else.\<close>

lemma turns_correction:
  assumes "in_array (cx d) (cy d)" "V me \<noteq> None"
  shows "turns me [correction_message d] V V"
proof -
  have ok: "int32_ok (cx d)" "int32_ok (cy d)" using in_array_int32 [OF assms(1)] by auto
  have "\<exists>sh' eh'. handleMessage (correction_message d) (sh, eh) = Inr (sh', eh') \<and> sees me V eh'" if sees: "sees me V eh" for sh eh
  proof -
    obtain b bs where b: "eplayers eh = b # bs" "pseudonim b = me" using sees assms(2) by (auto simp: sees_def)
    let ?eh = "eh\<lparr>eplayers := b\<lparr>position := Some (cx d, cy d)\<rparr> # bs\<rparr>"
    have p: "position b \<noteq> None" using sees b by (simp add: sees_def)
    have run: "handleMessage (correction_message d) (sh, eh) = Inr (sh, ?eh)"
      using ok b p by (auto simp: handleMessage_def correction_message_def message_def msg_movementcorrection_def
        GameMessage_default_def place_player_def trunc_of_int setBoombermanPos_def simp del: trunc_to_int.simps)
    have bf: "but_for me eh ?eh"
      using sees b by (auto simp: but_for_def sees_def moved_only_def intro!: list.rel_refl_strong)
    have "sees me V ?eh"
      using sees but_for_view [OF bf] but_for_names [OF bf] b by (simp add: sees_def)
    then show ?thesis using run by blast
  qed
  then show ?thesis unfolding turns.simps by (intro exI [of _ V] conjI) simp_all
qed

lemma iterE_informs:
  assumes "iterE f xs s = Inr t" "J s"
    and body: "\<And>x u v. x \<in> set xs \<Longrightarrow> J u \<Longrightarrow> f x u = Inr v \<Longrightarrow> J v \<and> informs a c me (V u) u (V v) v"
  shows "J t \<and> informs a c me (V s) s (V t) t"
proof (rule iterE_inv [OF assms(1), where P = "\<lambda>u. J u \<and> informs a c me (V s) s (V u) u"])
  show "J s \<and> informs a c me (V s) s (V s) s" using assms(2) by simp
  show "J v \<and> informs a c me (V s) s (V v) v" if "x \<in> set xs" "J u \<and> informs a c me (V s) s (V u) u" "f x u = Inr v" for x u v
    using body [OF that(1) _ that(3)] that(2) informs_trans by blast
qed

text \<open>
  What holds of a room while it keeps the player at \<open>a\<close> informed: the player is online, the room
  well-formed, and the codec carries the news about its players, who have names in \<open>N\<close>. Its own name is \<open>me\<close>.
\<close>

definition nametags :: "room \<Rightarrow> (nat \<times> string) list" where
  "nametags r = map (\<lambda>p. (addr p, username p)) (players r)"

definition talking :: "nat \<Rightarrow> int \<Rightarrow> string \<Rightarrow> string set \<Rightarrow> (f32 \<times> f32) set \<Rightarrow> room \<times> world \<Rightarrow> bool" where
  "talking a c me N X s \<longleftrightarrow> online a c s \<and> room_inv (fst s) (snd s) \<and> speaks (snd s) N X \<and> tiles \<subseteq> X \<and>
    username ` set (players (fst s)) \<subseteq> N \<and> [] \<notin> N \<and> (a, me) \<in> set (nametags (fst s))"

lemma map_pair: "map (\<lambda>x. (f x, g x)) xs = zip (map f xs) (map g xs)"
  by (induction xs) simp_all

lemma talking_tells:
  assumes "talking a c me N X s" "tells a c ms s s'" "room_inv (fst s') (snd s')"
    "map username (players (fst s')) = map username (players (fst s))"
  shows "talking a c me N X s'"
proof -
  have "username ` set (players (fst s')) = username ` set (players (fst s))"
    using assms(4) by (metis set_map)
  moreover have "map addr (players (fst s')) = map addr (players (fst s))"
    using assms(2) seats_addrs by (metis tells_def)
  then have "nametags (fst s') = nametags (fst s)" by (simp add: nametags_def map_pair assms(4))
  ultimately show ?thesis
    using assms(1,3) tells_online [OF assms(2)] tells_speaks [OF assms(2)] by (simp add: talking_def)
qed

subsection \<open>Messages\<close>

lemma trunc_of_floor:
  assumes "floor_to_int x = Inr i"
  shows "\<exists>j. trunc_to_int x = Inr j"
proof (cases x)
  case (Fin q)
  have "\<lceil>q\<rceil> - \<lfloor>q\<rfloor> \<le> 1" by (rule ceiling_diff_floor_le_1)
  moreover have "q < 0 \<Longrightarrow> \<lceil>q\<rceil> \<le> 0" by simp
  moreover have "\<lfloor>q\<rfloor> \<le> \<lceil>q\<rceil>" by (rule floor_le_ceiling)
  ultimately show ?thesis using assms Fin by (auto simp: to_int32_def truncate_rat_def int32_ok_def split: if_splits)
qed (use assms in auto)

lemma turns_bomb:
  assumes "floor_to_int (fst xy) = Inr i" "floor_to_int (snd xy) = Inr j"
  shows "turns me [bomb_message u t xy] V V"
proof (rule turns_idle)
  obtain k l where "trunc_to_int (fst xy) = Inr k" "trunc_to_int (snd xy) = Inr l"
    using trunc_of_floor assms by blast
  then show "\<exists>sh' eh'. handleMessage (bomb_message u t xy) (sh, eh) = Inr (sh', eh') \<and> eplayers eh' = eplayers eh" for sh eh
    by (cases xy) (auto simp: handleMessage_def bomb_message_def message_def msg_otherbombplace_def GameMessage_default_def
        placeBomb_def)
qed

lemma HandleMessage_names:
  assumes "HandleMessage m b r w = Inr (x, r', w')" "room_inv r w"
  shows "map username (players r') = map username (players r)"
  using assms(1)
proof (cases rule: HandleMessage_cases)
  case marked
  then show ?thesis by (simp add: sent_simps)
next
  case (bomb p bx "by")
  then show ?thesis using sent_simps(8) [OF bomb(8)] by simp
next
  case (move p)
  then obtain i j c p' w1 where m: "in_array i j" "MoveCheckSus i j p w = Inr (c, p', w1)"
      "sent (upd_player b (\<lambda>_. p') r, w1) (r', w')" unfolding moved_def by auto
  have d: "distinct (map addr (players r))" using assms(2) by (simp add: room_inv_def)
  have "(if addr q = b then p' else q) = (if q = p then p' else q)" if "q \<in> set (players r)" for q
    using find_player_iff [OF d, of b q] that move(4) find_player_Some [OF move(4)] by auto
  then have "map username (players (upd_player b (\<lambda>_. p') r)) = map username (players r)"
    using moved_player(3) [OF m(2,1)] by (auto simp: upd_player_def)
  then show ?thesis using sent_simps(8) [OF m(3)] by simp
qed

lemma message_informs:
  assumes run: "HandleMessage m b r w = Inr (x, r', w')" and on: "talking a c me N X (r, w)" "a \<noteq> b"
    and play: "rstate r \<noteq> WAIT_FOR_START" and bomb: "mtype m = I_PLACE_BOMB \<longrightarrow> msg_iplacebomb m \<in> X"
  shows "talking a c me N X (r', w') \<and> informs a c me (server_view r) (r, w) (server_view r') (r', w') \<and>
    (staying a r \<longrightarrow> staying a r')"
proof -
  have T: "online a c (r, w)" "room_inv r w" "speaks w N X" "tiles \<subseteq> X" "username ` set (players r) \<subseteq> N" "[] \<notin> N"
    using on(1) by (simp_all add: talking_def)
  obtain p p' ms where p: "find_player b r = Some p" "find_player b r' = Some p'" "tells a c ms (r, w) (r', w')"
      "ms = [position_message p'] \<or> coords p' = coords p \<and>
      (ms = [] \<or> (\<exists>n. ms = [bomb_message (username p) (clk w n) (msg_iplacebomb m)]) \<and>
        (\<exists>i j. floor_to_int (fst (msg_iplacebomb m)) = Inr i \<and> floor_to_int (snd (msg_iplacebomb m)) = Inr j) \<and>
        msg_iplacebomb m \<in> X)"
    using HandleMessage_tells [OF run T(1) on(2) T(3,4,5,2) play bomb] by blast
  have inv': "room_inv r' w'" by (rule HandleMessage_inv [OF run T(2)])
  have names: "map username (players r') = map username (players r)" by (rule HandleMessage_names [OF run T(2)])
  have t': "talking a c me N X (r', w')"
    by (rule talking_tells [OF on(1) p(3)]) (use inv' names in simp_all)
  have known: "\<forall>q \<in> set (players r). username q \<noteq> []" using T(5,6) by auto
  have in_N: "username p \<in> N" using T(5) find_player_Some [OF p(1)] by auto
  have moved: "\<exists>sh' eh'. handleMessage (position_message p') (sh, eh) = Inr (sh', eh') \<and> mirrors r' eh'"
    if "mirrors r eh" for sh eh
  proof -
    obtain q q' eh' where q: "find_player b r' = Some q'"
        "handleMessage (position_message q') (sh, eh) = Inr (sh, eh')" "mirrors r' eh'"
      using moves_are_mirrored [OF run T(2) \<open>mirrors r eh\<close> known, of sh] by blast
    then show ?thesis using p(2) by auto
  qed
  have view: "server_view r' = server_view r" if "coords p' = coords p"
  proof -
    obtain q q' where q: "find_player b r = Some q" "find_player b r' = Some q'" "username q' = username q"
        "livesRemaining q' = livesRemaining q"
        "server_view r' = (server_view r)(username q := if livesRemaining q > 0 then Some (seen q') else None)"
      using author_view [OF run T(2)] by blast
    then have "seen q' = seen q" using p(1,2) that by (simp add: seen_def)
    moreover have "server_view r (username q) = (if livesRemaining q > 0 then Some (seen q) else None)"
      by (rule server_view_player [OF T(2) q(1)])
    ultimately have "server_view r (username q) = (if livesRemaining q > 0 then Some (seen q') else None)" by simp
    then show ?thesis unfolding q(5) by (rule fun_upd_idem)
  qed
  have "informs a c me (server_view r) (r, w) (server_view r') (r', w')"
    using p(4)
  proof (elim disjE conjE exE)
    assume ms: "ms = [position_message p']"
    have "username p' = username p"
    proof -
      obtain q q' where "find_player b r = Some q" "find_player b r' = Some q'" "username q' = username q"
        using author_view [OF run T(2)] by blast
      then show ?thesis using p(1,2) by simp
    qed
    moreover have "in_array (cx (coords p')) (cy (coords p'))"
      using inv' find_player_Some [OF p(2)] by (auto simp: room_inv_def player_wf_def)
    then have "(Fin (of_int (cx (coords p'))), Fin (of_int (cy (coords p')))) \<in> X" using tile_in_tiles T(4) by blast
    ultimately have "decodable w (position_message p')"
      using speaks_news(1) [OF T(3) in_N] by (simp add: position_message_def)
    then show ?thesis
      using informsI [OF p(3), unfolded ms] turns_one [OF moved] by simp
  next
    assume "coords p' = coords p" "ms = []"
    then show ?thesis using view informs_quiet p(3) by simp
  next
    fix n i j assume b: "coords p' = coords p" "ms = [bomb_message (username p) (clk w n) (msg_iplacebomb m)]"
      "floor_to_int (fst (msg_iplacebomb m)) = Inr i" "floor_to_int (snd (msg_iplacebomb m)) = Inr j"
      "msg_iplacebomb m \<in> X"
    have "decodable w (bomb_message (username p) (clk w n) (msg_iplacebomb m))"
      using speaks_news(2) [OF T(3)] in_N b(5) by (simp add: bomb_message_def)
    then show ?thesis using b(2) view [OF b(1)] turns_bomb [OF b(3,4)] by (intro informsI [OF p(3)]) simp_all
  qed
  moreover have "staying a r \<longrightarrow> staying a r'" using p(3) by (simp add: tells_def)
  ultimately show ?thesis using t' by blast
qed

text \<open>
  The player's own messages: the room may move it without saying so, as its client has moved it
  already, or corrects the client; the view of the others does not change.
\<close>

lemma talking_me:
  assumes "talking a c me N X (r, w)" "find_player a r = Some p"
  shows "username p = me"
proof -
  have "distinct (map addr (players r))" using assms(1) by (simp add: talking_def room_inv_def)
  moreover obtain q where "q \<in> set (players r)" "addr q = a" "username q = me"
    using assms(1) by (auto simp: talking_def nametags_def)
  ultimately show ?thesis using find_player_iff [of r a q] assms(2) by simp
qed

lemma own_message_informs:
  assumes run: "HandleMessage m a r w = Inr (x, r', w')" and on: "talking a c me N X (r, w)"
    and play: "rstate r \<noteq> WAIT_FOR_START" and stays: "mtype m \<noteq> I_LEAVE"
  shows "talking a c me N X (r', w') \<and> informs a c me (server_view r) (r, w) (server_view r') (r', w') \<and>
    (staying a r \<longrightarrow> staying a r')"
proof -
  have T: "online a c (r, w)" "room_inv r w" "speaks w N X" "tiles \<subseteq> X" using on by (simp_all add: talking_def)
  obtain p ms where p: "find_player a r = Some p" "tells a c ms (r, w) (r', w')"
      "ms = [] \<or> (\<exists>e \<in> complaints. ms = [message ERROR (ErrorB e)]) \<or>
        0 < livesRemaining p \<and> (\<exists>d. in_array (cx d) (cy d) \<and> ms = [correction_message d])"
    using HandleMessage_answer [OF run T(1,3,4,2) play stays] by blast
  have t': "talking a c me N X (r', w')"
    by (rule talking_tells [OF on p(2)]) (use HandleMessage_inv [OF run T(2)] HandleMessage_names [OF run T(2)] in simp_all)
  have me: "username p = me" by (rule talking_me [OF on p(1)])
  obtain q q' where q: "find_player a r = Some q" "livesRemaining q' = livesRemaining q"
      "server_view r' = (server_view r)(username q := if livesRemaining q > 0 then Some (seen q') else None)"
    using author_view [OF run T(2)] by blast
  have known: "server_view r me = (if livesRemaining p > 0 then Some (seen p) else None)"
    using server_view_player [OF T(2) p(1)] me by simp
  have "q = p" using q(1) p(1) by simp
  then have "blur me (server_view r') = blur me (server_view r)"
    using q(2,3) known me by (auto simp: blur_def seen_def)
  moreover have "turns me ms (server_view r) (server_view r) \<and> (\<forall>m \<in> set ms. decodable w m)"
    using p(3)
  proof (elim disjE conjE exE bexE)
    fix e assume "e \<in> complaints" "ms = [message ERROR (ErrorB e)]"
    then show ?thesis
      using turns_error speaks_news(7) [OF T(3)] by simp_all
  next
    fix d assume d: "0 < livesRemaining p" "in_array (cx d) (cy d)" "ms = [correction_message d]"
    then have "server_view r me \<noteq> None" using known by simp
    then have "turns me ms (server_view r) (server_view r)" using turns_correction [OF d(2)] d(3) by simp
    moreover have "(Fin (of_int (cx d)), Fin (of_int (cy d))) \<in> X" using tile_in_tiles [OF d(2)] T(4) by blast
    then have "\<forall>m \<in> set ms. decodable w m"
      using speaks_news(6) [OF T(3)] d(3) by (simp add: correction_message_def)
    ultimately show ?thesis ..
  qed simp_all
  ultimately have "informs a c me (server_view r) (r, w) (server_view r') (r', w')"
    using turns_blur_to by (intro informsI [OF p(2)]) auto
  then show ?thesis using t' p(2) by (auto simp: tells_def)
qed

subsection \<open>Explosions\<close>

lemma upd_player_names:
  assumes "distinct (map addr (players r))" "find_player b r = Some p" "username (f p) = username p"
  shows "map username (players (upd_player b f r)) = map username (players r)"
proof -
  have "username (if addr q = b then f q else q) = username q" if "q \<in> set (players r)" for q
    using find_player_iff [OF assms(1), of b q] that assms(2,3) by auto
  then show ?thesis by (simp add: upd_player_def)
qed

lemma burn_informs:
  assumes run: "burn_player d x y t (r, w) = Inr s'" and on: "talking a c me N X (r, w)"
  shows "talking a c me N X s' \<and> informs a c me (server_view r) (r, w) (server_view (fst s')) s'"
proof -
  have T: "online a c (r, w)" "room_inv r w" "speaks w N X" "username ` set (players r) \<subseteq> N"
    using on by (simp_all add: talking_def)
  obtain p where p: "find_player d r = Some p" using run by (auto simp: burn_player_def get_player_Inr)
  have dist: "distinct (map addr (players r))" using T(2) by (simp add: room_inv_def)
  obtain r' w' where s': "s' = (r', w')" by fastforce
  let ?c = "(x, y) = fire_at t \<and> livesRemaining p > 0 \<and> immunityEndTimestamp p \<le> clk w (tick w)"
  show ?thesis
  proof (cases ?c)
    case False
    then have "r' = r" "w' = w \<or> w' = w\<lparr>tick := Suc (tick w)\<rparr>"
      using burn_player_cases [OF run p dist] s' by auto
    then have t: "tells a c [] (r, w) s'" by (auto simp: tells_def s')
    have "room_inv r' w'" using T(2) \<open>r' = r\<close> \<open>w' = w \<or> w' = w\<lparr>tick := Suc (tick w)\<rparr>\<close> by (auto simp: room_inv_def)
    then show ?thesis using talking_tells [OF on t] informs_quiet [OF t] \<open>r' = r\<close> s' by simp
  next
    case True
    let ?msg = "message GOT_HIT (GotHitB (username p) (livesRemaining p - 1) (clk w (tick w + 2)))"
    let ?f = "\<lambda>q. q\<lparr>immunityEndTimestamp := clk w (Suc (tick w)) + IMMUNITY_TIME_MILLIS, livesRemaining := livesRemaining p - 1\<rparr>"
    let ?w = "w\<lparr>tick := Suc (Suc (Suc (tick w)))\<rparr>"
    have s: "sendBroadcast (SendGotHit (username p) (livesRemaining p - 1) (clk w (tick w + 2)))
        (upd_player d ?f r, ?w) = Inr s'"
      using run p True by (auto simp: burn_player_def get_player_def Let_def TimestampMillis_def)
    have t: "tells a c [] (r, w) (upd_player d ?f r, ?w)"
      by (rule upd_player_tells [OF dist p]) simp_all
    have wf: "player_wf (rmap r) p" using T(2) find_player_Some [OF p] by (simp add: room_inv_def)
    have inv: "room_inv (upd_player d ?f r) ?w"
      by (rule room_inv_upd_player [OF T(2) p]) (use wf True in \<open>auto simp: player_wf_def\<close>)
    have "username p \<in> N" using T(4) find_player_Some [OF p] by auto
    then have m: "decodable w ?msg"
      using speaks_news(3) [OF T(3), of "username p" "livesRemaining p - 1"] True wf by (simp add: player_wf_def)
    then have "tells a c [?msg] (upd_player d ?f r, ?w) s'"
      using say_hit.sendBroadcast_tells [OF s tells_online [OF t T(1)]] tells_decodable [OF t] by simp
    from tells_trans [OF t this] have t': "tells a c [?msg] (r, w) s'" by simp
    have sent: "sent (upd_player d ?f r, ?w) s'" by (rule snd_hit.sendBroadcast_sent [OF s])
    have "room_inv r' w'" using sent_room_inv sent inv s' by blast
    moreover have "map username (players r') = map username (players r)"
      using sent_simps(8) [OF sent [unfolded s']] upd_player_names [OF dist p, of ?f] by simp
    ultimately have talk: "talking a c me N X s'" using talking_tells [OF on t'] s' by simp
    have "\<exists>sh' eh'. handleMessage ?msg (sh, eh) = Inr (sh', eh') \<and> mirrors r' eh'" if "mirrors r eh" for sh eh
      using losses_are_mirrored [OF T(2) that p, THEN conjunct1, rule_format, OF run [unfolded s'], of sh] True
      by (auto simp: hit_message_def)
    then have "turns me [?msg] (server_view r) (server_view r')" by (rule turns_one)
    then show ?thesis using talk informsI [OF t'] m s' by simp
  qed
qed

lemma explode_player_informs:
  assumes "explode_player fs d s = Inr s'" "talking a c me N X s"
  shows "talking a c me N X s' \<and> informs a c me (server_view (fst s)) s (server_view (fst s')) s'"
proof -
  obtain x y where "iterE (burn_player d x y) fs s = Inr s'" using assms(1) by (auto simp: explode_player_def)
  then show ?thesis
    using iterE_informs [where J = "talking a c me N X" and V = "\<lambda>s. server_view (fst s)", OF _ assms(2)] burn_informs
    by (metis prod.collapse)
qed

text \<open>What a client hears, with nothing said about the player.\<close>

definition hears :: "int \<Rightarrow> string \<Rightarrow> view \<Rightarrow> world \<Rightarrow> view \<Rightarrow> world \<Rightarrow> bool" where
  "hears c me V w V' w' \<longleftrightarrow> (\<exists>ms. says c ms w w' \<and> (\<forall>m \<in> set ms. decodable w m) \<and> turns me ms V V')"

lemma informs_hears: "informs a c me V s V' s' \<Longrightarrow> hears c me V (snd s) V' (snd s')"
  by (auto simp: informs_def hears_def tells_def)

lemma hears_nothing: "says c [] w w' \<Longrightarrow> hears c me V w V w'"
  unfolding hears_def by (intro exI [of _ "[]"]) simp

lemma hears_trans:
  assumes "hears c me U u V v" "hears c me V v W w"
  shows "hears c me U u W w"
proof -
  obtain ms ms' where m: "says c ms u v" "\<forall>m \<in> set ms. decodable u m" "turns me ms U V"
      "says c ms' v w" "\<forall>m \<in> set ms'. decodable v m" "turns me ms' V W"
    using assms by (auto simp: hears_def)
  then show ?thesis using says_trans [OF m(1,4)] turns_trans [OF m(3,6)] says_decodable [OF m(1)]
    unfolding hears_def by (intro exI [of _ "ms @ ms'"]) auto
qed

lemma turns_won: "turns me [message GAME_WON (GameWonB n)] V V"
  by (rule turns_idle) (simp add: handleMessage_def message_def GameMessage_default_def)

lemma winner_hears:
  assumes "announce_winner n (r, w) = Inr (r', w')" "talking a c me N X (r, w)" "n \<in> N"
  shows "hears c me (server_view r) w (server_view r') w'"
proof -
  have T: "online a c (r, w)" "speaks w N X" using assms(2) by (simp_all add: talking_def)
  obtain r1 where s: "sendBroadcast (SendGameWon n) (r, w) = Inr (r1, w')"
    using assms(1) by (auto simp: announce_winner_def Let_def)
  let ?msg = "message GAME_WON (GameWonB n)"
  have d: "decodable w ?msg" using speaks_news(5) [OF T(2) assms(3)] .
  have "tells a c [?msg] (r, w) (r1, w')" using say_won.sendBroadcast_tells [OF s T(1)] d by simp
  moreover have "server_view r' = server_view r"
    using announce_winner_Inr [OF assms(1)] by (simp add: server_view_marks)
  ultimately show ?thesis using d turns_won unfolding hears_def by (intro exI [of _ "[?msg]"]) (simp add: tells_def)
qed

lemma NotifyExplosion_informs:
  assumes run: "NotifyExplosion r w = Inr (r', w')" and on: "talking a c me N X (r, w)"
  shows "hears c me (server_view r) w (server_view r') w' \<and>
    (rstate r' = PLAY \<longrightarrow> talking a c me N X (r', w') \<and> informs a c me (server_view r) (r, w) (server_view r') (r', w'))"
proof (cases "rstate r \<noteq> PLAY \<or> bombs r = []")
  case True
  then show ?thesis using run on hears_nothing [of c w w] by (simp add: NotifyExplosion_def)
next
  case False
  then obtain b bs where b: "rstate r = PLAY" "bombs r = b # bs" by (cases "bombs r") auto
  from run b obtain fs m' r3 w3 r4 w4 where x:
      "boom (\<lambda>n. gtime w (gtick w + n)) b (rmap r) = Inr (fs, m')"
      "iterE (explode_player fs) (map addr (players r))
        (r\<lparr>bombs := bs, rmap := m'\<rparr>, w\<lparr>gtick := gtick w + length fs\<rparr>) = Inr (r3, w3)"
      "(if alive r3 = [] \<and> rstate r3 = PLAY then
            (let (winner, w4) = uniform_int 0 (length (alive (r\<lparr>bombs := bs\<rparr>))) w3 in
             if winner < length (alive (r\<lparr>bombs := bs\<rparr>))
             then announce_winner (username (players r3 ! (alive (r\<lparr>bombs := bs\<rparr>) ! winner))) (r3, w4)
             else Inl (Undefined ''index past the end of a vector''))
          else Inr (r3, w3)) = Inr (r4, w4)"
      "(if length (alive r3) = 1 \<and> rstate r4 = PLAY
       then announce_winner (username (players r4 ! last (alive r3))) (r4, w4)
       else Inr (r4, w4)) = Inr (r', w')"
    by (auto simp: NotifyExplosion_def Let_def)
  let ?s = "(r\<lparr>bombs := bs, rmap := m'\<rparr>, w\<lparr>gtick := gtick w + length fs\<rparr>)"
  have inv: "room_inv r w" using on by (simp add: talking_def)
  have keep: "map_wf m'" "\<And>x y. tile (rmap r) x y = 0 \<Longrightarrow> tile m' x y = 0"
    using boom_keeps_floor [OF x(1)] inv b by (auto simp: room_inv_def)
  have inv2: "room_inv (fst ?s) (snd ?s)"
    using inv b keep by (auto simp: room_inv_def player_wf_def starts_free_def)
  have t: "tells a c [] (r, w) ?s" by (auto simp: tells_def seats_def staying_def)
  have on2: "talking a c me N X ?s" by (rule talking_tells [OF on t inv2]) simp
  have view2: "server_view (fst ?s) = server_view r" by (simp add: server_view_def)
  have "talking a c me N X (r3, w3) \<and> informs a c me (server_view (fst ?s)) ?s (server_view (fst (r3, w3))) (r3, w3)"
    by (rule iterE_informs [OF x(2), where J = "talking a c me N X" and V = "\<lambda>s. server_view (fst s)"])
      (use on2 explode_player_informs in auto)
  then have 3: "talking a c me N X (r3, w3)" "informs a c me (server_view r) (r, w) (server_view r3) (r3, w3)"
    using informs_trans [OF informs_quiet [OF t]] view2 by auto
  note loop = explosion_loop [OF inv b x(1,2)]
  have winner: ?thesis if w4: "announce_winner (username q) (r3, v) = Inr (r', w')" "q \<in> set (players r3)"
    "says c [] w3 v" "talking a c me N X (r3, v)" for q v
  proof -
    have "username q \<in> N" using that(2) 3(1) by (auto simp: talking_def)
    from hears_trans [OF hears_nothing [OF that(3)] winner_hears [OF w4(1) that(4) this]]
    have "hears c me (server_view r) w (server_view r') w'" using hears_trans [OF informs_hears [OF 3(2)]] by simp
    moreover have "rstate r' = GAME_OVER" using announce_winner_Inr [OF w4(1)] by blast
    ultimately show ?thesis by simp
  qed
  have at: "i < length (players r3)" if "i \<in> set (alive (r\<lparr>bombs := bs\<rparr>)) \<or> i \<in> set (alive r3)" for i
    using that loop list_all2_lengthD by (fastforce simp: alive_def)
  show ?thesis
  proof (cases "alive r3 = []")
    case True
    then obtain k w5 where k: "uniform_int 0 (length (alive (r\<lparr>bombs := bs\<rparr>))) w3 = (k, w5)"
        "k < length (alive (r\<lparr>bombs := bs\<rparr>))"
        "announce_winner (username (players r3 ! (alive (r\<lparr>bombs := bs\<rparr>) ! k))) (r3, w5) = Inr (r4, w4)"
      using x(3) loop by (auto simp: Let_def split: prod.splits if_splits)
    then have over: "r4 = r'" "w4 = w'" using x(4) announce_winner_Inr [OF k(3)] by simp_all
    have "\<exists>t. w5 = w3\<lparr>rtick := t\<rparr>" using k(1) by (auto simp: uniform_int_def)
    then obtain t where w5: "w5 = w3\<lparr>rtick := t\<rparr>" ..
    have t5: "tells a c [] (r3, w3) (r3, w5)" by (simp add: tells_def w5)
    have "room_inv r3 w5" using 3(1) by (simp add: w5 talking_def room_inv_def)
    then have "talking a c me N X (r3, w5)" "says c [] w3 w5"
      using talking_tells [OF 3(1) t5] t5 by (simp_all add: tells_def)
    moreover have "players r3 ! (alive (r\<lparr>bombs := bs\<rparr>) ! k) \<in> set (players r3)"
      using at k(2) by (intro nth_mem) simp
    ultimately show ?thesis by (intro winner [OF k(3) [unfolded over]])
  next
    case False
    then have r4: "r4 = r3" "w4 = w3" using x(3) by simp_all
    show ?thesis
    proof (cases "length (alive r3) = 1")
      case True
      then have "announce_winner (username (players r3 ! last (alive r3))) (r3, w3) = Inr (r', w')"
        using x(4) r4 loop by simp
      then show ?thesis using winner [of _ w3] at [of "last (alive r3)"] False 3(1) by simp
    next
      case one: False
      then have "r' = r3" "w' = w3" using x(4) r4 by simp_all
      then show ?thesis using 3 informs_hears [OF 3(2)] by simp
    qed
  qed
qed

subsection \<open>Sweeps\<close>

text \<open>The room without the players with addresses in \<open>d\<close>, who are about to be destroyed.\<close>

definition without :: "nat list \<Rightarrow> room \<Rightarrow> room" where
  "without d r = r\<lparr>players := filter (\<lambda>p. addr p \<notin> set d) (players r)\<rparr>"

lemma without_marks:
  assumes "list_all2 marks (players r) (players r')"
  shows "server_view (without d r') = server_view (without d r)"
proof (rule server_view_marks)
  have "list_all2 marks (filter (\<lambda>p. addr p \<notin> set d) (players r)) (filter (\<lambda>p. addr p \<notin> set d) (players r'))"
    by (rule list_all2_filter_cong [OF assms]) (simp add: marks_fields)
  then show "list_all2 marks (players (without d r)) (players (without d r'))" by (simp add: without_def)
qed

lemma without_one_more:
  assumes "room_inv r w" "find_player b r = Some p" "b \<notin> set d"
  shows "server_view (without (d @ [b]) r) = (server_view (without d r))(username p := None)"
proof -
  have inv: "room_inv (without d r) w" unfolding without_def by (rule room_inv_filter [OF assms(1)])
  then have dist: "distinct (map addr (players (without d r)))" "distinct (map username (players (without d r)))"
    by (simp_all add: room_inv_def)
  have "find_player b (without d r) = Some p"
    using find_player_iff [OF dist(1), of b p] find_player_Some [OF assms(2)] assms(3) by (simp add: without_def)
  from server_view_erase [OF dist this]
  have "server_view ((without d r)\<lparr>players := erase_player (players (without d r)) b\<rparr>) = (server_view (without d r))(username p := None)" .
  moreover have "(without d r)\<lparr>players := erase_player (players (without d r)) b\<rparr> = without (d @ [b]) r"
    unfolding erase_player_filter [OF dist(1)] by (simp add: without_def conj_commute)
  ultimately show ?thesis by simp
qed

lemma turns_leave:
  fixes p :: player
  assumes "placed V"
  shows "turns me [message OTHER_LEAVE (OtherLeaveB (username p))] V (V(username p := None))"
proof (rule turns_single [OF assms])
  fix sh eh assume "client_view eh = V" "distinct (map pseudonim (eplayers eh))"
  then show "\<exists>sh' eh'. handleMessage (message OTHER_LEAVE (OtherLeaveB (username p))) (sh, eh) = Inr (sh', eh') \<and>
      client_view eh' = V(username p := None) \<and> distinct (map pseudonim (eplayers eh'))"
    using client_told_leave [of eh p sh] by (auto simp: leave_message_def)
qed

lemma turns_last_bomb: "in_array (cx (coords p)) (cy (coords p)) \<Longrightarrow> turns me [last_bomb_message p t] V V"
  unfolding last_bomb_message_def by (rule turns_bomb) (simp_all add: in_array_def to_int32_def int32_ok_def)

lemma disconnect_player_informs:
  assumes run: "disconnect_player b ((n, ss, d), r, w) = Inr ((n', ss', d'), r', w')"
    and on: "talking a c me N X (r, w)" "staying a r" "a \<notin> set d" "b \<notin> set d"
  shows "talking a c me N X (r', w') \<and> a \<notin> set d' \<and> (d' = d \<or> d' = d @ [b]) \<and>
    informs a c me (server_view (without d r)) (r, w) (server_view (without d' r')) (r', w')"
proof -
  obtain p where p: "find_player b r = Some p" using run by (auto simp: disconnect_player_def get_player_Inr)
  note fp = find_player_Some [OF p]
  show ?thesis
  proof (cases "markedForDisconnect p")
    case False
    then show ?thesis using run p on by (simp add: disconnect_player_def get_player_def)
  next
    case True
    then have ab: "a \<noteq> b" using on(2) fp by (auto simp: staying_def)
    have T: "online a c (r, w)" "room_inv r w" "speaks w N X" "tiles \<subseteq> X" "username p \<in> N"
      using on(1) fp by (auto simp: talking_def)
    have wf: "in_array (cx (coords p)) (cy (coords p))" using T(2) fp by (auto simp: room_inv_def player_wf_def)
    have dec: "decodable w (leave_message p)" "decodable w (last_bomb_message p (clk w k))" for k
      using speaks_news(2,4) [OF T(3)] T(4,5) tile_in_tiles [OF wf]
      by (auto simp: leave_message_def last_bomb_message_def bomb_message_def)
    from disconnect_player_tells [OF run p True T(1) ab wf] dec obtain ms where
        t: "d' = d @ [b]" "list_all2 marks (players r) (players r')" "room_inv r' w'" "tells a c ms (r, w) (r', w')"
          "ms = [leave_message p] \<or> (\<exists>k. ms = [leave_message p, last_bomb_message p (clk w k)])"
      using T(2) by blast
    have on': "talking a c me N X (r', w')"
      by (rule talking_tells [OF on(1) t(4)]) (use t(3) marks_maps [OF t(2)] in simp_all)
    have view: "server_view (without d' r') = (server_view (without d r))(username p := None)"
      using without_marks [OF t(2)] without_one_more [OF T(2) p on(4)] t(1) by simp
    have "turns me ms (server_view (without d r)) (server_view (without d' r'))"
      using t(5) turns_leave [OF placed_server_view] turns_trans [OF turns_leave [OF placed_server_view] turns_last_bomb [OF wf]]
      unfolding view leave_message_def by fastforce
    then have "informs a c me (server_view (without d r)) (r, w) (server_view (without d' r')) (r', w')"
      by (intro informsI [OF t(4)]) (use t(5) dec in auto)
    then show ?thesis using on' t(1) on(3) ab by simp
  qed
qed

text \<open>The loop over the players: the views are those of the room without the players it has left.\<close>

lemma disconnect_loop_informs:
  assumes "iterE disconnect_player bs ((n, ss, d), r, w) = Inr ((n', ss', d'), r', w')"
    "talking a c me N X (r, w)" "staying a r" "a \<notin> set d" "distinct bs" "set bs \<inter> set d = {}"
  shows "talking a c me N X (r', w') \<and> a \<notin> set d' \<and>
    informs a c me (server_view (without d r)) (r, w) (server_view (without d' r')) (r', w')"
  using assms
proof (induction bs arbitrary: n ss d r w)
  case (Cons b bs)
  then obtain n1 ss1 d1 r1 w1 where one: "disconnect_player b ((n, ss, d), r, w) = Inr ((n1, ss1, d1), r1, w1)"
      "iterE disconnect_player bs ((n1, ss1, d1), r1, w1) = Inr ((n', ss', d'), r', w')"
    by auto
  have b: "b \<notin> set d" using Cons.prems(6) by simp
  note i = disconnect_player_informs [OF one(1) Cons.prems(2-4) b]
  have "set bs \<inter> set d1 = {}" using i Cons.prems(5,6) by auto
  moreover have "staying a r1" using i Cons.prems(3) by (auto simp: informs_def tells_def)
  ultimately show ?case
    using Cons.IH [OF one(2)] i Cons.prems(5) informs_trans by (metis distinct.simps(2))
qed simp

text \<open>The room after a sweep that does not end the game.\<close>

lemma talking_without:
  assumes "talking a c me N X (r, w)" "a \<notin> set d"
  shows "talking a c me N X (without d r, w)"
proof -
  have T: "online a c (r, w)" "room_inv r w" "speaks w N X" "tiles \<subseteq> X" "username ` set (players r) \<subseteq> N" "[] \<notin> N"
      "(a, me) \<in> set (nametags r)"
    using assms(1) by (simp_all add: talking_def)
  have "(a, me) \<in> set (nametags (without d r))"
    using T(7) assms(2) by (auto simp: nametags_def without_def)
  moreover have "seats (without d r) = filter (\<lambda>s. fst s \<notin> set d) (seats r)"
    by (simp add: seats_def without_def filter_map comp_def)
  then have "online a c (without d r, w)"
    using T(1) assms(2) by (auto simp: online_def distinct_map_filter)
  moreover have "room_inv (without d r) w" unfolding without_def by (rule room_inv_filter [OF T(2)])
  ultimately show ?thesis using T by (auto simp: talking_def without_def)
qed

lemma DisconnectPlayers_hears:
  assumes run: "DisconnectPlayers r w = Inr (x, r', w')" and on: "talking a c me N X (r, w)" "staying a r"
    and goes_on: "rstate r' = PLAY"
  shows "talking a c me N X (r', w') \<and> staying a r' \<and> hears c me (server_view r) w (server_view r') w'"
proof -
  from run obtain m ss d r1 w1 where loop:
      "iterE disconnect_player (map addr (players r)) ((0, [], []), r, w) = Inr ((m, ss, d), r1, w1)"
      "(let r2 = r1\<lparr>players := foldl erase_player (players r1) d\<rparr> in
      case players r2 of
        [] \<Rightarrow> Inr ((m, ss), r2\<lparr>rstate := GAME_OVER\<rparr>, w1)
      | [p] \<Rightarrow>
          andThen (sendBroadcast (SendGameWon (username p)) (r2, w1)) (\<lambda>(r3, w2).
          andThen (conn_sock (conn p) w2) (\<lambda>sk.
            let r4 = r3\<lparr>rstate := WAIT_FOR_END\<rparr>; w3 = drop_socket (epollSock r4) sk w2 in
            Inr ((m, ss @ [sk]), r4\<lparr>players := [], rstate := GAME_OVER\<rparr>, w3)))
      | _ \<Rightarrow> Inr ((m, ss), r2, w1)) = Inr (x, r', w')"
    by (auto simp: DisconnectPlayers_def)
  have dist: "distinct (map addr (players r))" using on(1) by (simp add: talking_def room_inv_def)
  from disconnect_loop_informs [OF loop(1) on] dist
  have i: "talking a c me N X (r1, w1)" "a \<notin> set d"
      "informs a c me (server_view (without [] r)) (r, w) (server_view (without d r1)) (r1, w1)" by simp_all
  have "distinct (map addr (players r1))" using i(1) by (simp add: talking_def room_inv_def)
  then have "r1\<lparr>players := foldl erase_player (players r1) d\<rparr> = without d r1" by (simp add: erase_all without_def)
  then have "r' = without d r1 \<and> w' = w1"
    using loop(2) goes_on by (auto simp: Let_def split: list.splits)
  moreover have "without [] r = r" by (simp add: without_def)
  moreover have "staying a r1" using i(3) on(2) by (auto simp: informs_def tells_def)
  then have "staying a (without d r1)" by (auto simp: staying_def without_def)
  ultimately show ?thesis
    using talking_without [OF i(1,2)] informs_hears [OF i(3)] by simp
qed

end
