(* ===== verification/ClientPlay.thy ===== *)
theory ClientPlay
  imports ClientWire
begin

section \<open>A game and a client that follows it\<close>

text \<open>
  The machine of a running game and of one client that plays it: the calls of the server on the
  room (\<open>room_step\<close>), each of which carries what it wrote to the client's connection into the
  client's socket, and the frames and reader rounds of the client (\<open>client_step\<close>), in any order.
  The invariant is that the messages on their way would make the client mirror the room but for
  its own tile. What the client sends is not carried: the room may get any messages from it.
\<close>

subsection \<open>The room's side\<close>

text \<open>
  The calls of the server while the player at \<open>a\<close> plays: it does not leave and its connection
  does not fail; the others plant bombs at positions in \<open>X\<close>; the rest of the server writes nothing to
  its connection; and the game goes on.
\<close>

definition watched :: "nat \<Rightarrow> int \<Rightarrow> (f32 \<times> f32) set \<Rightarrow> room_event \<Rightarrow> room \<times> world \<Rightarrow> room \<times> world \<Rightarrow> bool" where
  "watched a c X e s s' \<longleftrightarrow> rstate (fst s') = PLAY \<and> (case e of
     Say m b \<Rightarrow> if b = a then mtype m \<noteq> I_LEAVE else mtype m = I_PLACE_BOMB \<longrightarrow> msg_iplacebomb m \<in> X
   | Lost b \<Rightarrow> b \<noteq> a
   | Elsewhere \<Rightarrow> says c [] (snd s) (snd s')
   | _ \<Rightarrow> True)"

lemma room_step_hears:
  assumes run: "room_step (r, w) e (r', w')" and watch: "watched a c X e (r, w) (r', w')"
    and on: "talking a c me N X (r, w)" "staying a r" and play: "rstate r = PLAY"
  shows "talking a c me N X (r', w') \<and> staying a r' \<and> hears c me (server_view r) w (server_view r') w'"
proof -
  have still: ?thesis if "informs a c me (server_view r) (r, w) (server_view r') (r', w')" "talking a c me N X (r', w')"
    using that on(2) informs_hears [OF that(1)] by (auto simp: informs_def tells_def)
  have inv: "room_inv r w" using on(1) by (simp add: talking_def)
  show ?thesis
    using run
  proof (cases rule: room_step_cases)
    case (join name k b)
    then have "r' = r" "w' = w" using play by (auto simp: JoinPlayer_def)
    then show ?thesis using on still by simp
  next
    case (say m b x)
    show ?thesis
    proof (cases "b = a")
      case True
      then show ?thesis
        using own_message_informs [of m a r w x r' w' c me N X] say on(1) watch play still by (auto simp: watched_def)
    next
      case False
      then show ?thesis
        using message_informs [OF say(2) on(1)] say(1) watch play still by (auto simp: watched_def)
    qed
  next
    case explode
    then show ?thesis using NotifyExplosion_informs [OF explode(2) on(1)] watch still by (simp add: watched_def)
  next
    case (sweep n socks)
    then show ?thesis using DisconnectPlayers_hears [OF sweep(2) on] watch by (simp add: watched_def)
  next
    case (lost b)
    have s: "sent (r, w) (r', w')" using lost upd_player_mark_sent by simp
    have "seats r' = seats r" by (rule seats_marks) (use s in \<open>simp add: sent_def\<close>)
    then have t: "tells a c [] (r, w) (r', w')"
      using lost watch staying_mark [of b a r] by (simp add: tells_def watched_def)
    have "talking a c me N X (r', w')"
      by (rule talking_tells [OF on(1) t]) (use sent_room_inv [OF s inv] sent_simps(8) [OF s] in simp_all)
    then show ?thesis using still informs_quiet [OF t] server_view_sent [OF s] by simp
  next
    case elsewhere
    then have t: "tells a c [] (r, w) (r', w')" using watch by (simp add: watched_def tells_def)
    have "talking a c me N X (r', w')"
      by (rule talking_tells [OF on(1) t]) (use room_inv_elsewhere [OF inv elsewhere(3)] elsewhere(2) in simp_all)
    then show ?thesis using still informs_quiet [OF t] elsewhere(2) by simp
  qed
qed

subsection \<open>The client's side\<close>

text \<open>A frame reads the clocks and leaves the network alone.\<close>

definition clocked :: "world \<Rightarrow> world \<Rightarrow> bool" where
  "clocked w w' \<longleftrightarrow> (\<exists>t g. w' = w\<lparr>tick := t, gtick := g\<rparr>)"

lemma clockedI [intro]: "clocked w (w\<lparr>tick := t, gtick := g\<rparr>)" "clocked w (w\<lparr>tick := t\<rparr>)" "clocked w (w\<lparr>gtick := g\<rparr>)"
  unfolding clocked_def by (rule exI [of _ t], rule exI [of _ g], simp)
    (rule exI [of _ t], rule exI [of _ "gtick w"], simp, rule exI [of _ "tick w"], rule exI [of _ g], simp)

lemma clocked_refl [simp, intro]: "clocked w w"
  using clockedI(2) [of w "tick w"] by simp

lemma clocked_trans: "clocked u v \<Longrightarrow> clocked v w \<Longrightarrow> clocked u w"
  unfolding clocked_def by (elim exE) (hypsubst, simp, blast)

lemma clocked_incoming: "clocked w w' \<Longrightarrow> incoming p w' ms = incoming p w ms \<and> same_codec w w'"
proof -
  assume "clocked w w'"
  then obtain t g where w: "w' = w\<lparr>tick := t, gtick := g\<rparr>" by (auto simp: clocked_def)
  show ?thesis unfolding w by (intro conjI incoming_cong) (simp_all add: same_codec_def)
qed

lemma tryExtinguish_loop_clocked: "tryExtinguish_loop i ts w = (ts', w') \<Longrightarrow> clocked w w'"
proof (induction i ts w rule: tryExtinguish_loop.induct)
  case (1 i ts w)
  show ?case
  proof (cases "i < length ts")
    case True
    from "1.IH" [OF True refl refl] "1.prems" True
    have "clocked (w\<lparr>gtick := Suc (gtick w)\<rparr>) w'" by (simp add: tryExtinguish_loop.simps [of i ts w])
    then show ?thesis by (rule clocked_trans [rotated]) blast
  qed (use "1.prems" in \<open>simp add: tryExtinguish_loop.simps [of i ts w]\<close>)
qed

lemma tryExtinguish_quiet:
  "tryExtinguish (eh, w) = (eh', w') \<Longrightarrow> clocked w w' \<and> eplayers eh' = eplayers eh"
  by (auto simp: tryExtinguish_def split: prod.splits dest: tryExtinguish_loop_clocked)

lemma sees_shown:
  assumes "map shown (eplayers eh') = map shown (eplayers eh)" "sees me V eh"
  shows "sees me V eh'"
proof -
  have names: "map pseudonim (eplayers eh') = map pseudonim (eplayers eh)"
    using arg_cong [OF assms(1), of "map fst"] by (simp add: shown_def comp_def)
  have "map position (eplayers eh') = map position (eplayers eh)"
    using arg_cong [OF assms(1), of "map (fst \<circ> snd)"] by (simp add: shown_def comp_def)
  then have "position ` set (eplayers eh') = position ` set (eplayers eh)" by (metis set_map)
  moreover have "\<forall>x \<in> position ` set (eplayers eh). x \<noteq> None" using assms(2) by (simp add: sees_def)
  ultimately have "\<forall>b \<in> set (eplayers eh'). position b \<noteq> None" by blast
  moreover have "client_view eh' = client_view eh" by (simp add: client_view_shown assms(1))
  moreover have "\<exists>b bs. eplayers eh' = b # bs \<and> pseudonim b = me" if "V me \<noteq> None"
    using that assms(2) names by (auto simp: sees_def)
  ultimately show ?thesis using assms(2) names by (simp add: sees_def)
qed

lemma draw_players_quiet:
  "draw_players m ps w = Inr (ds, ps', w') \<Longrightarrow> map shown ps' = map shown ps \<and> clocked w w'"
proof (induction ps arbitrary: w ds ps')
  case (Cons p ps)
  obtain d q w1 e qs where c: "draw_player m p w = Inr (d, q, w1)" "draw_players m ps w1 = Inr (e, qs, w')"
      "ps' = q # qs"
    using Cons.prems by auto
  note f = player_frame_simps [OF draw_player_frame [OF c(1), symmetric]]
  have "clocked w w1" unfolding f(5) by blast
  then show ?case using Cons.IH [OF c(2)] f(1-3) c(3) clocked_trans by (auto simp: shown_def)
qed simp

lemma draw_bomb_quiet:
  assumes "draw_bomb i (ds, eh, m, w) = Inr (ds', eh', m', w')"
  shows "eplayers eh' = eplayers eh \<and> clocked w w'"
  using assms
proof (cases rule: draw_bomb_cases)
  case exploded
  then show ?thesis using explodeBomb_Inr(2) [OF exploded(4)] by auto
qed auto

lemma drawBombs_quiet:
  assumes "drawBombs (eh, m, w) = Inr (ds, eh', m', w')"
  shows "eplayers eh' = eplayers eh \<and> clocked w w'"
proof -
  let ?P = "\<lambda>s :: draw list \<times> entity_handler \<times> tmap \<times> world.
    eplayers (fst (snd s)) = eplayers eh \<and> clocked w (snd (snd (snd s)))"
  have "?P (ds, eh', m', w')"
  proof (rule iterE_inv [where P = ?P])
    show "iterE draw_bomb [0..<length (ebombs eh)] ([], eh, m, w) = Inr (ds, eh', m', w')"
      using assms by (simp add: drawBombs_def)
    show "?P t" if "?P s" "draw_bomb i s = Inr t" for i s t
    proof -
      obtain d1 e1 m1 w1 d2 e2 m2 w2 where st: "s = (d1, e1, m1, w1)" "t = (d2, e2, m2, w2)" by (cases s; cases t) auto
      show ?thesis using that draw_bomb_quiet [of i d1 e1 m1 w1 d2 e2 m2 w2] clocked_trans st by auto
    qed
  qed simp
  then show ?thesis by simp
qed

text \<open>What a client sends changes neither what is on its way to it nor the codec or the kernel.\<close>

definition keeps_mail :: "world \<Rightarrow> world \<Rightarrow> bool" where
  "keeps_mail w w' \<longleftrightarrow> (\<forall>p ms. incoming p w ms \<longrightarrow> incoming p w' ms) \<and> same_codec w w' \<and> kans w' = kans w"

lemma keeps_mail_refl [simp, intro]: "keeps_mail w w"
  by (simp add: keeps_mail_def same_codec_def)

lemma keeps_mail_trans: "keeps_mail u v \<Longrightarrow> keeps_mail v w \<Longrightarrow> keeps_mail u w"
  by (simp add: keeps_mail_def same_codec_def)

lemma clocked_mail: "clocked w w' \<Longrightarrow> keeps_mail w w'"
  using clocked_incoming by (auto simp: keeps_mail_def clocked_def)

lemma send_with_mail:
  assumes "send_with q g w = Inr (r, w')"
  shows "keeps_mail w w'"
proof -
  note io = send_with_frame [OF assms]
  note f = io_frame_fields [OF io]
  have c: "decodable w' = decodable w" "wire w' = wire w"
    by (intro ext decodable_cong wire_cong; simp add: f)+
  have "incoming p w' ms" if "incoming p w ms" for p ms
    using that io_frame_rel [OF io, of p] f c
    by (cases "conns w p"; cases "conns w' p") (auto simp: incoming_def same_conn_def)
  moreover have "kans w' = kans w" using io by (auto simp: io_frame_def)
  ultimately show ?thesis using f by (simp add: keeps_mail_def same_codec_def)
qed

lemma sees_but_for: "sees me V eh \<Longrightarrow> but_for me eh eh' \<Longrightarrow> sees me V eh'"
proof -
  assume s: "sees me V eh" and bf: "but_for me eh eh'"
  have "\<forall>b \<in> set (eplayers eh'). position b \<noteq> None"
    using bf unfolding but_for_def by (auto simp: list_all2_conv_all_nth in_set_conv_nth moved_only_def)
  moreover have "\<exists>b bs. eplayers eh' = b # bs \<and> pseudonim b = me" if "V me \<noteq> None"
    using that s but_for_names [OF bf] by (auto simp: sees_def)
  ultimately show ?thesis
    using s but_for_view [OF bf] but_for_names [OF bf] by (simp add: sees_def)
qed

text \<open>The keys move the local player at most.\<close>

lemma set_local_sees:
  assumes "sees me V eh" "local_boomberman eh = Inr b" "pseudonim b = me"
    "b' = b \<or> (\<exists>q. b' = b\<lparr>position := Some q\<rparr>)"
  shows "sees me V (set_local b' eh)"
proof -
  obtain bs where b: "eplayers eh = b # bs" using assms(2) by (auto simp: local_boomberman_def split: list.splits)
  have "but_for me eh (set_local b' eh)"
    using assms(1,3,4) b
    by (auto simp: but_for_def set_local_def sees_def moved_only_def intro!: list.rel_refl_strong)
  then show ?thesis by (rule sees_but_for [OF assms(1)])
qed

definition mine :: "string \<Rightarrow> view \<Rightarrow> play \<Rightarrow> play \<Rightarrow> bool" where
  "mine me V s s' \<longleftrightarrow> sees me V (fst s') \<and> keeps_mail (snd s) (snd s') \<and>
    map pseudonim (eplayers (fst s')) = map pseudonim (eplayers (fst s))"

lemma mine_trans: "mine me V s t \<Longrightarrow> mine me V t u \<Longrightarrow> mine me V s u"
  using keeps_mail_trans by (auto simp: mine_def)

lemma step_key_mine:
  assumes "step_key m p pos dx dy tx ty down (eh, w) = Inr (eh', w')" "sees me V eh"
    "\<exists>ns. map pseudonim (eplayers eh) = me # ns"
  shows "mine me V (eh, w) (eh', w')"
proof (cases down)
  case True
  then obtain b ok b' where b: "local_boomberman eh = Inr b" "move m pos dx dy b = Inr (ok, b')"
      "(if ok then andThen (SendIMove (flt tx) (flt ty) p w) (\<lambda>(_, w1). Inr (set_local b' eh, w1)) else Inr (eh, w)) =
        Inr (eh', w')"
    using assms(1) by (auto simp: step_key_def)
  have me: "pseudonim b = me" using assms(3) b(1) by (auto simp: local_boomberman_def split: list.splits)
  have b': "b' = b \<or> (\<exists>q. b' = b\<lparr>position := Some q\<rparr>)" "pseudonim b' = pseudonim b"
    using b(2) by (auto simp: move_Inr Let_def split: if_splits)
  show ?thesis
  proof (cases ok)
    case True
    then obtain r where r: "SendIMove (flt tx) (flt ty) p w = Inr (r, w')" "eh' = set_local b' eh" using b(3) by auto
    have "map pseudonim (eplayers eh') = map pseudonim (eplayers eh)"
      using r(2) b(1) b'(2) by (auto simp: set_local_def local_boomberman_def split: list.splits)
    then show ?thesis
      using set_local_sees [OF assms(2) b(1) me b'(1)] send_with_mail [OF r(1) [unfolded SendIMove_def]] r(2)
      by (simp add: mine_def)
  qed (use b(3) assms(2) in \<open>simp add: mine_def\<close>)
qed (use assms in \<open>simp add: step_key_def mine_def\<close>)

lemma bomb_key_mine:
  assumes "bomb_key p pos down (eh, w) = Inr (eh', w')" "sees me V eh"
  shows "mine me V (eh, w) (eh', w')"
proof (cases down)
  case True
  then obtain x y r where r: "SendIPlaceBomb (flt (fst pos)) (flt (snd pos)) p (w\<lparr>tick := Suc (tick w)\<rparr>) = Inr (r, w')"
      "eh' = placeBomb x y 3 25 (clk w (tick w)) 3 False eh"
    using assms(1) by (auto simp: bomb_key_def TimestampMillis_def Let_def split: prod.splits)
  have "keeps_mail w w'"
    using keeps_mail_trans [OF clocked_mail [OF clockedI(2)] send_with_mail [OF r(1) [unfolded SendIPlaceBomb_def]]] .
  moreover have "eplayers eh' = eplayers eh" by (simp add: r(2) placeBomb_def)
  then have "map shown (eplayers eh') = map shown (eplayers eh)"
      "map pseudonim (eplayers eh') = map pseudonim (eplayers eh)" by simp_all
  ultimately show ?thesis using sees_shown [OF _ assms(2)] by (simp add: mine_def)
qed (use assms in \<open>simp add: bomb_key_def mine_def\<close>)

lemma handle_keys_mine:
  assumes "handle_keys m p (x, y) u (eh, w) = Inr (eh', w')" "sees me V eh" "\<not> pressed u KEY_ESCAPE"
    "\<exists>ns. map pseudonim (eplayers eh) = me # ns"
  shows "mine me V (eh, w) (eh', w')"
proof -
  from assms(1,3) obtain e1 w1 e2 w2 e3 w3 e4 w4 where k:
      "bomb_key p (x, y) (pressed u KEY_SPACE) (eh, w) = Inr (e1, w1)"
      "step_key m p (x, y) 1 0 (float_of_int (x + 1)) y (pressed u KEY_RIGHT) (e1, w1) = Inr (e2, w2)"
      "step_key m p (x, y) (- 1) 0 (float_of_int (x - 1)) y (pressed u KEY_LEFT) (e2, w2) = Inr (e3, w3)"
      "step_key m p (x, y) 0 (- 1) x (float_of_int (y - 1)) (pressed u KEY_UP) (e3, w3) = Inr (e4, w4)"
      "step_key m p (x, y) 0 1 x (float_of_int (y + 1)) (pressed u KEY_DOWN) (e4, w4) = Inr (eh', w')"
    by (auto simp: handle_keys_def leave_key_def)
  have s1: "mine me V (eh, w) (e1, w1)" by (rule bomb_key_mine [OF k(1) assms(2)])
  have s2: "mine me V (eh, w) (e2, w2)"
    by (rule mine_trans [OF s1 step_key_mine [OF k(2)]]) (use s1 assms(4) in \<open>simp_all add: mine_def\<close>)
  have s3: "mine me V (eh, w) (e3, w3)"
    by (rule mine_trans [OF s2 step_key_mine [OF k(3)]]) (use s2 assms(4) in \<open>simp_all add: mine_def\<close>)
  have s4: "mine me V (eh, w) (e4, w4)"
    by (rule mine_trans [OF s3 step_key_mine [OF k(4)]]) (use s3 assms(4) in \<open>simp_all add: mine_def\<close>)
  show ?thesis
    by (rule mine_trans [OF s4 step_key_mine [OF k(5)]]) (use s4 assms(4) in \<open>simp_all add: mine_def\<close>)
qed

lemma frame_mine:
  assumes "run_frame cl = Inr (ds, cl')" "\<not> pressed (cl_ui cl) KEY_ESCAPE" "sees (true_local_name cl) V (cl_eh cl)"
  shows "sees (true_local_name cl) V (cl_eh cl') \<and> cl_sh cl' = cl_sh cl \<and> keeps_mail (cl_world cl) (cl_world cl')"
proof -
  let ?me = "true_local_name cl"
  from assms(1) obtain px py eh w b1 eh0 w0 eh1 w1 d1 d2 d3 d4 m2 eh2 w2 where
      f: "tryExtinguish (cl_eh cl, cl_world cl) = (eh, w)" "local_boomberman eh = Inr b1"
      "(if pseudonim b1 = ?me
        then handle_keys (cl_map cl) (sh_conn (cl_sh cl)) (float_of_int px, float_of_int py) (cl_ui cl) (eh, w)
        else Inr (eh, w)) = Inr (eh0, w0)"
      "drawPlayers (cl_map cl) eh0 w0 = Inr (d3, eh1, w1)" "drawBombs (eh1, cl_map cl, w1) = Inr (d4, eh2, m2, w2)"
      "cl_eh cl' = eh2" "cl_world cl' = w2" "cl_sh cl' = cl_sh cl"
    by (auto simp: run_frame_def draw_all_def Let_def split: prod.splits)
  have s: "sees ?me V eh" "keeps_mail (cl_world cl) w"
    using tryExtinguish_quiet [OF f(1)] sees_shown [OF _ assms(3), of eh] clocked_mail by auto
  have k: "sees ?me V eh0" "keeps_mail w w0"
  proof -
    have "mine ?me V (eh, w) (eh0, w0)"
    proof (cases "pseudonim b1 = ?me")
      case True
      then have "\<exists>ns. map pseudonim (eplayers eh) = ?me # ns"
        using f(2) by (auto simp: local_boomberman_def split: list.splits)
      then show ?thesis using handle_keys_mine [OF _ s(1) assms(2)] f(3) True by auto
    qed (use f(3) s(1) in \<open>simp add: mine_def\<close>)
    then show "sees ?me V eh0" "keeps_mail w w0" by (simp_all add: mine_def)
  qed
  obtain ps where p: "draw_players (cl_map cl) (eplayers eh0) w0 = Inr (d3, ps, w1)" "eh1 = eh0\<lparr>eplayers := ps\<rparr>"
    using f(4) by (auto simp: drawPlayers_def)
  have "map shown (eplayers eh2) = map shown (eplayers eh0)"
    using draw_players_quiet [OF p(1)] p(2) drawBombs_quiet [OF f(5)] by simp
  then have "sees ?me V eh2" by (rule sees_shown [OF _ k(1)])
  moreover have "keeps_mail w0 w2"
    using draw_players_quiet [OF p(1)] drawBombs_quiet [OF f(5)] clocked_mail keeps_mail_trans by blast
  ultimately show ?thesis using f(6-8) s(2) k(2) keeps_mail_trans by metis
qed

subsection \<open>The machine\<close>

text \<open>The network: bytes the server wrote become readable at the client's socket.\<close>

definition carry :: "byte list \<Rightarrow> client \<Rightarrow> client" where
  "carry bs cl = (let w = cl_world cl; fd = sock_of (sh_conn (cl_sh cl)) w in
    cl\<lparr>cl_world := w\<lparr>rd_pending := (rd_pending w)(fd := rd_pending w fd @ bs)\<rparr>\<rparr>)"

lemma carry_simps [simp]:
  "cl_eh (carry bs cl) = cl_eh cl" "cl_sh (carry bs cl) = cl_sh cl" "true_local_name (carry bs cl) = true_local_name cl"
  "kans (cl_world (carry bs cl)) = kans (cl_world cl)" "same_codec w (cl_world (carry bs cl)) = same_codec w (cl_world cl)"
  by (simp_all add: carry_def Let_def same_codec_def)

lemma carry_incoming:
  assumes "incoming (sh_conn (cl_sh cl)) (cl_world cl) ms" "same_codec w (cl_world cl)" "\<forall>m \<in> set ms'. decodable w m"
  shows "incoming (sh_conn (cl_sh cl)) (cl_world (carry (wire w ms') cl)) (ms @ ms')"
proof -
  let ?p = "sh_conn (cl_sh cl)" and ?w = "cl_world cl" and ?w' = "cl_world (carry (wire w ms') cl)"
  obtain k ms2 where k: "conns ?w ?p = Some k" "fd_open ?w (sock k)" "list_all delivers (rd_events ?w (sock k))"
      "ms = inboundQueue k @ ms2" "\<forall>m \<in> set ms2. decodable ?w m" "rd_pending ?w (sock k) = wire ?w ms2"
    using assms(1) by (auto simp: incoming_def split: option.splits)
  have c: "wire ?w' = wire ?w" "decodable ?w' = decodable ?w" "wire ?w = wire w" "decodable ?w = decodable w"
    using assms(2) by (intro ext wire_cong decodable_cong; simp add: carry_def Let_def same_codec_def)+
  have "rd_pending ?w' (sock k) = wire w (ms2 @ ms')"
    using k(1,6) c(3) by (simp add: carry_def Let_def sock_of_def)
  then show ?thesis
    using k c assms(3) by (auto simp: incoming_def carry_def Let_def)
qed

datatype play_event = OfRoom room_event | OfClient client_event

inductive play_step :: "nat \<Rightarrow> int \<Rightarrow> (f32 \<times> f32) set \<Rightarrow>
    (room \<times> world) \<times> client \<Rightarrow> play_event \<Rightarrow> (room \<times> world) \<times> client \<Rightarrow> bool"
  for a :: nat and c :: int and X :: "(f32 \<times> f32) set" where
  play_room: "room_step (r, w) e (r', w') \<Longrightarrow> watched a c X e (r, w) (r', w') \<Longrightarrow>
    play_step a c X ((r, w), cl) (OfRoom e)
      ((r', w'), carry (drop (length (out w (sock_of c w))) (out w' (sock_of c w))) cl)"
| play_frame: "client_step cl Frame cl' \<Longrightarrow> \<not> pressed (cl_ui cl) KEY_ESCAPE \<Longrightarrow>
    play_step a c X (s, cl) (OfClient Frame) (s, cl')"
| play_round: "client_step cl Incoming cl' \<Longrightarrow> play_step a c X (s, cl) (OfClient Incoming) (s, cl')"

inductive_cases play_step_cases [consumes 1, case_names play_room play_frame play_round]: "play_step a c X g e g'"

text \<open>
  The start: the game is on, the player is online, and its client has caught up with the room and
  has its own player in the first slot.
\<close>

definition connected :: "nat \<Rightarrow> int \<Rightarrow> string \<Rightarrow> string set \<Rightarrow> (f32 \<times> f32) set \<Rightarrow> (room \<times> world) \<times> client \<Rightarrow> bool" where
  "connected a c me N X g \<longleftrightarrow> (case g of (s, cl) \<Rightarrow> talking a c me N X s \<and> staying a (fst s) \<and> rstate (fst s) = PLAY \<and>
    same_codec (snd s) (cl_world cl) \<and> true_local_name cl = me)"

definition caught_up :: "client \<Rightarrow> bool" where
  "caught_up cl \<longleftrightarrow> incoming (sh_conn (cl_sh cl)) (cl_world cl) []"

definition play_start :: "nat \<Rightarrow> int \<Rightarrow> string \<Rightarrow> string set \<Rightarrow> (f32 \<times> f32) set \<Rightarrow> (room \<times> world) \<times> client \<Rightarrow> bool" where
  "play_start a c me N X g \<longleftrightarrow> connected a c me N X g \<and> caught_up (snd g) \<and> mirrors (fst (fst g)) (cl_eh (snd g)) \<and>
    (\<exists>b bs. eplayers (cl_eh (snd g)) = b # bs \<and> pseudonim b = me)"

text \<open>
  What a client keeps up with: the living players and their lives, and the tiles of all but its own player.
\<close>

definition mirrors_but :: "string \<Rightarrow> room \<Rightarrow> entity_handler \<Rightarrow> bool" where
  "mirrors_but me r eh \<longleftrightarrow> (\<forall>u. u \<noteq> me \<longrightarrow> client_view eh u = server_view r u) \<and>
    map_option snd (client_view eh me) = map_option snd (server_view r me) \<and> distinct (map pseudonim (eplayers eh))"

lemma mirrors_mirrors_but: "mirrors r eh \<longleftrightarrow> mirrors_but me r eh \<and> client_view eh me = server_view r me"
  by (auto simp: mirrors_def mirrors_but_def fun_eq_iff)

lemma sees_mirrors_but: "sees me (server_view r) eh \<Longrightarrow> mirrors_but me r eh"
proof -
  assume s: "sees me (server_view r) eh"
  then have eq: "blur me (client_view eh) u = blur me (server_view r) u" for u by (simp add: sees_def)
  have "client_view eh u = server_view r u" if "u \<noteq> me" for u using eq [of u] that by (simp add: blur_def)
  moreover have "map_option snd (client_view eh me) = map_option snd (server_view r me)"
    using eq [of me] by (cases "client_view eh me"; cases "server_view r me") (auto simp: blur_def)
  ultimately show ?thesis using s by (simp add: mirrors_but_def sees_def)
qed

lemma mirrors_sees:
  assumes "mirrors r eh" "\<exists>b bs. eplayers eh = b # bs \<and> pseudonim b = me"
  shows "sees me (server_view r) eh"
proof -
  have m: "client_view eh = server_view r" "distinct (map pseudonim (eplayers eh))" using assms(1) by (simp_all add: mirrors_def)
  have "position b \<noteq> None" if "b \<in> set (eplayers eh)" for b
  proof -
    have "client_view eh (pseudonim b) = Some (position b, health b)"
      using m(2) that by (auto simp: client_view_def roster_Some)
    then show ?thesis using mirrors_positions [OF assms(1)] by fastforce
  qed
  then show ?thesis using assms(2) m by (simp add: sees_def)
qed

definition in_touch :: "nat \<Rightarrow> int \<Rightarrow> string \<Rightarrow> string set \<Rightarrow> (f32 \<times> f32) set \<Rightarrow> (room \<times> world) \<times> client \<Rightarrow> bool" where
  "in_touch a c me N X g \<longleftrightarrow> connected a c me N X g \<and> (case g of (s, cl) \<Rightarrow>
    \<exists>ms V. incoming (sh_conn (cl_sh cl)) (cl_world cl) ms \<and> sees me V (cl_eh cl) \<and> turns me ms V (server_view (fst s)))"

text \<open>The bytes on their way determine the messages.\<close>

lemma wire_inj:
  "wire w ms = wire w ms' \<Longrightarrow> \<forall>m \<in> set ms. decodable w m \<Longrightarrow> \<forall>m \<in> set ms'. decodable w m \<Longrightarrow> ms = ms'"
proof (induction ms arbitrary: ms')
  case Nil
  then show ?case by (cases ms') auto
next
  case (Cons m ms)
  then obtain k ks where ks: "ms' = k # ks" by (cases ms') auto
  let ?f = "SerializeToArray w"
  have d: "decodable w m" "decodable w k" using Cons.prems ks by simp_all
  have e: "(of_nat (length (?f m)) :: byte) = of_nat (length (?f k))" "?f m @ wire w ms = ?f k @ wire w ks"
    using Cons.prems(1) ks by (simp_all add: frame_of_def)
  have "length (?f m) = length (?f k)"
    using e(1) d by (simp add: decodable_def word_unat_eq_iff unat_of_nat)
  with e(2) have f: "?f m = ?f k" "wire w ms = wire w ks" by simp_all
  have "m = k" using d f(1) unfolding decodable_def by metis
  then show ?case using Cons.IH [OF f(2)] Cons.prems ks by simp
qed

lemma incoming_unique:
  assumes "incoming p w ms" "incoming p w ms'"
  shows "ms = ms'"
  using assms wire_inj [of w] by (auto simp: incoming_def split: option.splits)

text \<open>A round handles at least one message that is on its way.\<close>

lemma round_delivers:
  assumes k: "kans (cl_world cl) (ktick (cl_world cl)) \<noteq> - 1" "odd (kans (cl_world cl) (ktick (cl_world cl)))"
    and inc: "incoming (sh_conn (cl_sh cl)) (cl_world cl) (m # ms)"
    and V: "sees me V (cl_eh cl)" "turns me (m # ms) V W"
  shows "\<exists>cl' ms' V'. receive_event cl = Some (Inr cl') \<and> incoming (sh_conn (cl_sh cl')) (cl_world cl') ms' \<and>
    length ms' \<le> length ms \<and> sees me V' (cl_eh cl') \<and> turns me ms' V' W \<and>
    same_codec (cl_world cl) (cl_world cl') \<and> kans (cl_world cl') = kans (cl_world cl)"
proof -
  let ?w = "cl_world cl" and ?p = "sh_conn (cl_sh cl)"
  obtain n w where n: "n \<le> length ms"
      "receive_round (cl_sh cl, cl_eh cl, ?w) = Some (andThen (iterE handleMessage (m # take n ms) (cl_sh cl, cl_eh cl))
        (\<lambda>(sh', eh'). Inr (sh', eh', w)))"
      "incoming ?p w (drop n ms)" "same_codec ?w w" "kans w = kans ?w"
    using receive_round_delivers [OF k inc] by blast
  have "turns me ((m # take n ms) @ drop n ms) V W" using V(2) by simp
  then obtain U where U: "turns me (m # take n ms) V U" "turns me (drop n ms) U W" unfolding turns_append by blast
  from turns_handled [OF U(1) V(1)] obtain sh eh where
      h: "iterE handleMessage (m # take n ms) (cl_sh cl, cl_eh cl) = Inr (sh, eh)" "sees me U eh" by blast
  then have r: "receive_round (cl_sh cl, cl_eh cl, ?w) = Some (Inr (sh, eh, w))" unfolding n(2) by simp
  have "sh_conn sh = ?p" using receive_round_net [OF r] by (simp add: net_step_def)
  then show ?thesis using r n h(2) U(2)
    by (intro exI [of _ "cl\<lparr>cl_sh := sh, cl_eh := eh, cl_world := w\<rparr>"] exI [of _ "drop n ms"] exI [of _ U])
      (simp add: receive_event_def)
qed

lemma round_in_touch:
  assumes round: "receive_event cl = Some (Inr cl')" and inc: "incoming (sh_conn (cl_sh cl)) (cl_world cl) ms"
    and V: "sees me V (cl_eh cl)" "turns me ms V W"
  shows "\<exists>ms' V'. incoming (sh_conn (cl_sh cl')) (cl_world cl') ms' \<and> sees me V' (cl_eh cl') \<and> turns me ms' V' W \<and>
    same_codec (cl_world cl) (cl_world cl')"
proof -
  let ?w = "cl_world cl"
  obtain sh eh w where r: "receive_round (cl_sh cl, cl_eh cl, ?w) = Some (Inr (sh, eh, w))"
      "cl' = cl\<lparr>cl_sh := sh, cl_eh := eh, cl_world := w\<rparr>"
    using round by (auto simp: receive_event_def elim!: andThenOE)
  have k: "kans ?w (ktick ?w) \<noteq> - 1" using r(1) by (auto simp: receive_round_def sys_call_def)
  show ?thesis
  proof (cases "odd (kans ?w (ktick ?w))")
    case False
    then have e: "sh = cl_sh cl" "eh = cl_eh cl" "w = snd (sys_call (PollOn (polling_fd (cl_sh cl))) ?w)"
      using r(1) receive_round_idle [OF k] by auto
    have "same_codec ?w w" unfolding e by (simp add: same_codec_def sys_call_def syscall_def)
    then show ?thesis using inc V r(2) e incoming_sys_call by auto
  next
    case True
    then obtain m ms1 where ms: "ms = m # ms1"
      using receive_round_closed [OF k] r(1) inc by (cases ms) auto
    from round_delivers [OF k True inc [unfolded ms] V(1) V(2) [unfolded ms]] round show ?thesis by auto
  qed
qed

lemma rounds_catch_up:
  assumes "\<forall>n. kans (cl_world cl) n \<noteq> - 1 \<and> odd (kans (cl_world cl) n)"
    "incoming (sh_conn (cl_sh cl)) (cl_world cl) ms" "sees me V (cl_eh cl)" "turns me ms V W"
  shows "\<exists>n cl'. n \<le> length ms \<and> runs (play_step a c X) (s, cl) (replicate n (OfClient Incoming)) (s, cl') \<and>
    caught_up cl' \<and> sees me W (cl_eh cl')"
  using assms
proof (induction "length ms" arbitrary: ms V cl rule: less_induct)
  case less
  show ?case
  proof (cases ms)
    case Nil
    then have "sees me W (cl_eh cl)" using less.prems(3,4) sees_blur [of me W V] by simp
    then show ?thesis using less.prems(2) Nil
      by (intro exI [of _ 0] exI [of _ cl]) (simp add: caught_up_def runs_done)
  next
    case (Cons m ms1)
    obtain cl1 ms' V' where r: "receive_event cl = Some (Inr cl1)" "incoming (sh_conn (cl_sh cl1)) (cl_world cl1) ms'"
        "length ms' \<le> length ms1" "sees me V' (cl_eh cl1)" "turns me ms' V' W" "kans (cl_world cl1) = kans (cl_world cl)"
      using round_delivers [OF _ _ less.prems(2) [unfolded Cons] less.prems(3) less.prems(4) [unfolded Cons]]
        less.prems(1) by blast
    have "length ms' < length ms" using r(3) Cons by simp
    from less.hyps [OF this _ r(2,4,5)] less.prems(1) r(6) obtain n cl' where
        n: "n \<le> length ms'" "runs (play_step a c X) (s, cl1) (replicate n (OfClient Incoming)) (s, cl')"
        "caught_up cl'" "sees me W (cl_eh cl')" by auto
    have "play_step a c X (s, cl) (OfClient Incoming) (s, cl1)" by (intro play_round step_incoming r(1))
    from runs_more [of "play_step a c X", OF this n(2)] show ?thesis
      using n r(3) Cons by (intro exI [of _ "Suc n"] exI [of _ cl']) simp
  qed
qed

lemma same_codec_trans: "same_codec u v \<Longrightarrow> same_codec v w \<Longrightarrow> same_codec u w"
  by (simp add: same_codec_def)

lemma receive_event_name: "receive_event cl = Some (Inr cl') \<Longrightarrow> true_local_name cl' = true_local_name cl"
  by (auto simp: receive_event_def elim!: andThenOE)

interpretation playing: state_machine "play_start a c me N X" "play_step a c X" "in_touch a c me N X"
  for a c me N X
proof
  show "in_touch a c me N X g" if "play_start a c me N X g" for g
  proof -
    obtain s cl where g: "g = (s, cl)" by fastforce
    have "sees me (server_view (fst s)) (cl_eh cl)" using that mirrors_sees by (simp add: play_start_def g)
    then show ?thesis using that by (auto simp: play_start_def in_touch_def caught_up_def g intro!: exI [of _ "[]"])
  qed
  show "in_touch a c me N X g'" if touch: "in_touch a c me N X g" and run: "play_step a c X g e g'" for g e g'
    using run
  proof (cases rule: play_step_cases)
    case (play_room r w e1 r' w' cl)
    have T: "talking a c me N X (r, w)" "staying a r" "rstate r = PLAY" "same_codec w (cl_world cl)"
        "true_local_name cl = me"
      using touch play_room(1) by (simp_all add: in_touch_def connected_def)
    obtain ms V where V: "incoming (sh_conn (cl_sh cl)) (cl_world cl) ms" "sees me V (cl_eh cl)" "turns me ms V (server_view r)"
      using touch play_room(1) by (auto simp: in_touch_def)
    have h: "talking a c me N X (r', w')" "staying a r'" "hears c me (server_view r) w (server_view r') w'"
      using room_step_hears [OF play_room(4,5) T(1-3)] by simp_all
    then obtain ms' where m: "says c ms' w w'" "\<forall>m \<in> set ms'. decodable w m" "turns me ms' (server_view r) (server_view r')"
      by (auto simp: hears_def)
    have "drop (length (out w (sock_of c w))) (out w' (sock_of c w)) = wire w ms'" using m(1) by (simp add: says_def)
    then have "incoming (sh_conn (cl_sh cl))
        (cl_world (carry (drop (length (out w (sock_of c w))) (out w' (sock_of c w))) cl)) (ms @ ms')"
      using carry_incoming [OF V(1) T(4) m(2)] by simp
    moreover have "same_codec w' (cl_world cl)" using m(1) T(4) by (simp add: says_def same_codec_def)
    moreover have "rstate r' = PLAY" using play_room(5) by (simp add: watched_def)
    ultimately show ?thesis
      using h turns_trans [OF V(3) m(3)] V(2) T(5) play_room(3) by (auto simp: in_touch_def connected_def)
  next
    case (play_frame cl cl' s)
    obtain ds where fr: "run_frame cl = Inr (ds, cl')" using play_frame(4) by (cases rule: client_step_cases) auto
    obtain ms V where V: "incoming (sh_conn (cl_sh cl)) (cl_world cl) ms" "sees me V (cl_eh cl)"
        "turns me ms V (server_view (fst s))" "true_local_name cl = me" "same_codec (snd s) (cl_world cl)"
      using touch play_frame(1) by (auto simp: in_touch_def connected_def)
    have f: "sees me V (cl_eh cl')" "cl_sh cl' = cl_sh cl" "keeps_mail (cl_world cl) (cl_world cl')"
      using frame_mine [OF fr play_frame(5), of V] V(2,4) by simp_all
    have "true_local_name cl' = me" using run_frame_cases [OF fr] V(4) by simp
    moreover have "incoming (sh_conn (cl_sh cl')) (cl_world cl') ms" "same_codec (snd s) (cl_world cl')"
      using f(2,3) V(1,5) same_codec_trans by (auto simp: keeps_mail_def)
    ultimately show ?thesis using touch play_frame(1,3) f(1) V(3) by (auto simp: in_touch_def connected_def)
  next
    case (play_round cl cl' s)
    have r: "receive_event cl = Some (Inr cl')" using play_round(4) by (cases rule: client_step_cases) auto
    obtain ms V where V: "incoming (sh_conn (cl_sh cl)) (cl_world cl) ms" "sees me V (cl_eh cl)"
        "turns me ms V (server_view (fst s))"
      using touch play_round(1) by (auto simp: in_touch_def)
    from round_in_touch [OF r V] show ?thesis
      using touch play_round(1,3) same_codec_trans receive_event_name [OF r] by (auto simp: in_touch_def connected_def)
  qed
qed

subsection \<open>An example\<close>

text \<open>
  A codec for the news about ann and bob: a byte for the kind, one for the name, one for each
  number. The clock stands still, so the times need no byte.
\<close>

definition names_coded :: "string list" where
  "names_coded = [''Server'', ''ann'', ''bob'']"

definition name_byte :: "string \<Rightarrow> byte" where
  "name_byte u = (if u = ''ann'' then 1 else if u = ''bob'' then 2 else 0)"

definition tile_byte :: "f32 \<Rightarrow> byte" where
  "tile_byte x = (case x of Fin q \<Rightarrow> of_int \<lfloor>q\<rfloor> | _ \<Rightarrow> 0)"

definition encode_news :: "GameMessage \<Rightarrow> byte list" where
  "encode_news m = (case oneof m of
     Some (OtherMoveB u x y) \<Rightarrow> [1, name_byte u, tile_byte x, tile_byte y]
   | Some (OtherBombPlaceB u t x y) \<Rightarrow> [2, name_byte u, tile_byte x, tile_byte y]
   | Some (GotHitB u l t) \<Rightarrow> [3, name_byte u, of_int l]
   | Some (OtherLeaveB u) \<Rightarrow> [4, name_byte u]
   | Some (GameWonB u) \<Rightarrow> [5, name_byte u]
   | Some (MovementCorrectionB x y) \<Rightarrow> [6, 0, tile_byte x, tile_byte y]
   | Some (ErrorB e) \<Rightarrow> [7, if e = ''Unexpected message'' then 1 else 0]
   | _ \<Rightarrow> [])"

definition decode_news :: "byte list \<Rightarrow> GameMessage" where
  "decode_news bs = (let u = names_coded ! unat (bs ! 1); x = Fin (of_int (uint (bs ! 2))); y = Fin (of_int (uint (bs ! 3))) in
     if bs ! 0 = 1 then message OTHER_MOVE (OtherMoveB u x y)
     else if bs ! 0 = 2 then message OTHER_BOMB_PLACE (OtherBombPlaceB u 1000 x y)
     else if bs ! 0 = 3 then message GOT_HIT (GotHitB u (uint (bs ! 2)) 1000)
     else if bs ! 0 = 4 then message OTHER_LEAVE (OtherLeaveB u)
     else if bs ! 0 = 5 then message GAME_WON (GameWonB u)
     else if bs ! 0 = 6 then message MOVEMENT_CORRECTION (MovementCorrectionB x y)
     else message ERROR (ErrorB (if bs ! 1 = 1 then ''Unexpected message''
       else ''You can't really do anything while dead, can you?'')))"

definition coded :: "world \<Rightarrow> world" where
  "coded w = w\<lparr>clk := (\<lambda>_. 1000), SerializeToArray := encode_news, ParseFromArray := (\<lambda>bs _. decode_news bs)\<rparr>"

text \<open>The client of ann while ann and bob play, with an arrow down.\<close>

definition ann_client :: client where
  "ann_client = gone_client\<lparr>cl_eh := two_players, cl_ui := holding [KEY_RIGHT],
    cl_world := coded (playing_world\<lparr>kans := (\<lambda>_. 1)\<rparr>)\<rparr>"

lemma tile_byte_tiles:
  assumes "(x, y) \<in> tiles"
  shows "Fin (of_int (uint (tile_byte x))) = x" "Fin (of_int (uint (tile_byte y))) = y"
proof -
  obtain i j where ij: "x = Fin (of_int i)" "y = Fin (of_int j)" "in_array i j" using assms by (auto simp: tiles_def)
  then have "0 \<le> i" "i < 256" "0 \<le> j" "j < 256" by (auto simp: in_array_def)
  then show "Fin (of_int (uint (tile_byte x))) = x" "Fin (of_int (uint (tile_byte y))) = y"
    by (simp_all add: ij tile_byte_def uint_word_of_int_eq take_bit_int_eq_self)
qed

lemma name_byte_coded: "u \<in> {''Server'', ''ann'', ''bob''} \<Longrightarrow> names_coded ! unat (name_byte u) = u"
  by (auto simp: names_coded_def name_byte_def)

lemma coded_decodable:
  "length (encode_news m) \<le> 127 \<Longrightarrow> (\<And>rest. decode_news (encode_news m @ rest) = m) \<Longrightarrow> decodable (coded w) m"
  by (simp add: decodable_def coded_def)

lemma coded_speaks: "speaks (coded w) {''ann'', ''bob''} tiles"
  unfolding speaks_def
proof
  fix m assume "m \<in> news {''ann'', ''bob''} (range (clk (coded w))) tiles"
  then show "decodable (coded w) m"
  proof cases
    case (news_move u x y)
    then have "names_coded ! unat (name_byte u) = u" by (intro name_byte_coded) blast
    then show ?thesis unfolding news_move(1)
      by (intro coded_decodable) (simp_all add: encode_news_def decode_news_def message_def GameMessage_default_def
        tile_byte_tiles [OF news_move(3), simplified])
  next
    case (news_bomb u t x y)
    then have "names_coded ! unat (name_byte u) = u" "t = 1000"
      by (intro name_byte_coded, blast) (use news_bomb in \<open>simp add: coded_def\<close>)
    then show ?thesis unfolding news_bomb(1)
      by (intro coded_decodable) (simp_all add: encode_news_def decode_news_def message_def GameMessage_default_def
        tile_byte_tiles [OF news_bomb(4), simplified])
  next
    case (news_hit u l t)
    then have "names_coded ! unat (name_byte u) = u" "t = 1000"
      by (intro name_byte_coded, blast) (use news_hit in \<open>simp add: coded_def\<close>)
    moreover have "uint (of_int l :: byte) = l"
      using news_hit(3,4) by (simp add: uint_word_of_int_eq take_bit_int_eq_self)
    ultimately show ?thesis unfolding news_hit(1)
      by (intro coded_decodable) (simp_all add: encode_news_def decode_news_def message_def GameMessage_default_def)
  next
    case (news_leave u)
    then have "names_coded ! unat (name_byte u) = u" by (intro name_byte_coded) blast
    then show ?thesis unfolding news_leave(1)
      by (intro coded_decodable) (simp_all add: encode_news_def decode_news_def message_def GameMessage_default_def)
  next
    case (news_won u)
    then have "names_coded ! unat (name_byte u) = u" by (intro name_byte_coded) blast
    then show ?thesis unfolding news_won(1)
      by (intro coded_decodable) (simp_all add: encode_news_def decode_news_def message_def GameMessage_default_def)
  next
    case (news_correction x y)
    then show ?thesis unfolding news_correction(1)
      by (intro coded_decodable) (simp_all add: encode_news_def decode_news_def message_def GameMessage_default_def
        tile_byte_tiles [OF news_correction(2), simplified])
  next
    case (news_complaint e)
    then show ?thesis unfolding news_complaint(1)
      by (intro coded_decodable) (auto simp: encode_news_def decode_news_def message_def GameMessage_default_def
        complaints_def)
  qed
qed

lemma ann_talking: "talking 0 5 ''ann'' {''ann'', ''bob''} tiles (playing_room, coded room_world) \<and> staying 0 playing_room"
proof -
  have "room_inv playing_room (coded room_world)" by (rule playing_room_inv) (simp add: coded_def room_world_def)
  moreover have "online 0 5 (playing_room, coded room_world)"
    by (simp add: online_def seats_def playing_room_def bob_def sample_player_def healthy_def coded_def room_world_def
        sock_of_def)
  ultimately show ?thesis
    using coded_speaks by (simp add: talking_def staying_def nametags_def playing_room_def bob_def sample_player_def)
qed

lemma ann_start: "play_start 0 5 ''ann'' {''ann'', ''bob''} tiles ((playing_room, coded room_world), ann_client)"
proof -
  have "rstate playing_room = PLAY" by (simp add: playing_room_def)
  moreover have "same_codec (coded room_world) (cl_world ann_client)"
    by (simp add: same_codec_def coded_def ann_client_def)
  moreover have "caught_up ann_client"
    by (simp add: caught_up_def incoming_def ann_client_def gone_client_def coded_def playing_world_def sample_handler_def)
  ultimately show ?thesis
    using ann_talking two_players_mirror
    by (simp add: play_start_def connected_def ann_client_def gone_client_def two_players_def)
qed

text \<open>Ann makes a step to the right on her screen, and bob one to the left in the room.\<close>

definition two_steps :: "play_event list" where
  "two_steps = [OfClient Frame, OfRoom (Say (message I_MOVE (IMoveB (Fin 14) (Fin 1))) 1)]"

lemma ann_and_bob_step:
  "\<exists>r w cl. runs (play_step 0 5 tiles) ((playing_room, coded room_world), ann_client) two_steps ((r, w), cl) \<and>
    map coords (players r) = [mk_coords 14 1, mk_coords 1 1] \<and>
    map position (eplayers (cl_eh cl)) = [Some (2, 1), Some (15, 1)] \<and> kans (cl_world cl) = (\<lambda>_. 1)"
proof -
  let ?m = "message I_MOVE (IMoveB (Fin 14) (Fin 1))" and ?w = "coded room_world"
  have "yields (run_frame ann_client) (\<lambda>(ds, cl). map position (eplayers (cl_eh cl)) = [Some (2, 1), Some (15, 1)])"
    by code_simp
  then obtain ds cl where frame: "run_frame ann_client = Inr (ds, cl)"
      "map position (eplayers (cl_eh cl)) = [Some (2, 1), Some (15, 1)]" by (auto elim!: yieldsE)
  have esc: "\<not> pressed (cl_ui ann_client) KEY_ESCAPE" by (simp add: ann_client_def holding_def pressed_def)
  have "client_step ann_client Frame cl"
    by (rule step_frame [OF _ frame(1)]) (simp add: ann_client_def holding_def)
  from play_frame [OF this esc] have
    st1: "play_step 0 5 tiles ((playing_room, ?w), ann_client) (OfClient Frame) ((playing_room, ?w), cl)" .
  have start: "sees ''ann'' (server_view playing_room) (cl_eh ann_client)" "true_local_name ann_client = ''ann''"
    using ann_start mirrors_sees by (simp_all add: play_start_def connected_def)
  have "kans (cl_world cl) = kans (cl_world ann_client)"
    using frame_mine [OF frame(1) esc] start by (simp add: keeps_mail_def)
  then have kans: "kans (cl_world (carry bs cl)) = (\<lambda>_. 1)" for bs by (simp add: ann_client_def coded_def)
  have pos: "map position (eplayers (cl_eh (carry bs cl))) = [Some (2, 1), Some (15, 1)]" for bs
    using frame(2) by simp
  have "yields (HandleMessage ?m 1 playing_room ?w)
      (\<lambda>(b, r', w'). map coords (players r') = [mk_coords 14 1, mk_coords 1 1] \<and> rstate r' = PLAY)"
    by code_simp
  then obtain b r' w' where run: "HandleMessage ?m 1 playing_room ?w = Inr (b, r', w')"
      "map coords (players r') = [mk_coords 14 1, mk_coords 1 1]" "rstate r' = PLAY" by (auto elim!: yieldsE)
  have "watched 0 5 tiles (Say ?m 1) (playing_room, ?w) (r', w')"
    using run(3) by (simp add: watched_def message_def)
  note st2 = play_room [OF step_say [OF run(1)] this, of cl]
  have "runs (play_step 0 5 tiles) ((playing_room, ?w), ann_client) two_steps
      ((r', w'), carry (drop (length (out ?w (sock_of 5 ?w))) (out w' (sock_of 5 ?w))) cl)"
    unfolding two_steps_def by (rule runs_more, rule st1, rule runs_more, rule st2, rule runs_done)
  then show ?thesis by (intro exI conjI) (assumption, rule run(2), rule pos, rule kans)
qed

subsection \<open>Following a game\<close>

text \<open>
  C4. A client follows the game. From a room in play and a client that mirrors it, whatever the
  players send, the client's own included, whatever keys but escape are down in its frames, whatever
  explodes, whoever else leaves or is thrown out, and in whatever order the calls on the room, the client's frames
  and the rounds of its reader come, and however the kernel cuts the writes and the reads: while
  the game goes on, the messages on their way to the client are such that handling them leaves
  it with the living players of the room, their lives, and the tiles of all but its own (which it
  moves ahead of the room); and when none is on its way it has them.
\<close>

theorem client_follows_game:
  assumes "play_start a c me N X (s, cl)" and "runs (play_step a c X) (s, cl) es (s', cl')"
  shows "(caught_up cl' \<longrightarrow> mirrors_but me (fst s') (cl_eh cl')) \<and>
    (\<exists>ms sh' eh'. incoming (sh_conn (cl_sh cl')) (cl_world cl') ms \<and>
      iterE handleMessage ms (cl_sh cl', cl_eh cl') = Inr (sh', eh') \<and> mirrors_but me (fst s') eh')"
proof -
  have "in_touch a c me N X (s', cl')" by (rule playing.runs_inv [OF assms(2) playing.inv_init [OF assms(1)]])
  then obtain ms V where V: "incoming (sh_conn (cl_sh cl')) (cl_world cl') ms" "sees me V (cl_eh cl')"
      "turns me ms V (server_view (fst s'))"
    by (auto simp: in_touch_def)
  have "mirrors_but me (fst s') (cl_eh cl')" if "caught_up cl'"
  proof -
    have "ms = []" using incoming_unique [OF V(1)] that by (simp add: caught_up_def)
    then show ?thesis using turns_handled [OF V(3,2)] sees_mirrors_but by auto
  qed
  then show ?thesis using turns_handled [OF V(3,2)] V(1) sees_mirrors_but by blast
qed

theorem client_follows_game_witness:
  "\<exists>r' w' cl' ms sh' eh'. runs (play_step 0 5 tiles) ((playing_room, coded room_world), ann_client)
      two_steps ((r', w'), cl') \<and>
    map coords (players r') = [mk_coords 14 1, mk_coords 1 1] \<and>
    map position (eplayers (cl_eh cl')) = [Some (2, 1), Some (15, 1)] \<and>
    incoming (sh_conn (cl_sh cl')) (cl_world cl') ms \<and>
    iterE handleMessage ms (cl_sh cl', cl_eh cl') = Inr (sh', eh') \<and> mirrors_but ''ann'' r' eh'"
proof -
  obtain r w cl where run: "runs (play_step 0 5 tiles) ((playing_room, coded room_world), ann_client) two_steps ((r, w), cl)"
      "map coords (players r) = [mk_coords 14 1, mk_coords 1 1]"
      "map position (eplayers (cl_eh cl)) = [Some (2, 1), Some (15, 1)]"
    using ann_and_bob_step by (elim exE conjE) (rule that)
  obtain ms sh eh where f: "incoming (sh_conn (cl_sh cl)) (cl_world cl) ms"
      "iterE handleMessage ms (cl_sh cl, cl_eh cl) = Inr (sh, eh)" "mirrors_but ''ann'' r eh"
    using client_follows_game [OF ann_start run(1)] by auto
  show ?thesis by (intro exI conjI) (rule run, rule run(2), rule run(3), rule f(1), rule f(2), rule f(3))
qed

text \<open>
  C7. A client that keeps receiving catches up: after any such run of the game, as many rounds of its
  reader as there are messages on their way are enough, while \<open>poll\<close> reports input, to leave
  nothing on its way and the client with the players, lives and tiles of the room, but for its own
  tile; none of them blocks for good or ends the process.
\<close>

theorem client_catches_up:
  assumes "play_start a c me N X (s, cl)" and "runs (play_step a c X) (s, cl) es (s', cl')"
    and "\<forall>n. kans (cl_world cl') n \<noteq> - 1 \<and> odd (kans (cl_world cl') n)"
    and "incoming (sh_conn (cl_sh cl')) (cl_world cl') ms"
  shows "\<exists>n cl''. n \<le> length ms \<and>
    runs (play_step a c X) (s', cl') (replicate n (OfClient Incoming)) (s', cl'') \<and>
    caught_up cl'' \<and> mirrors_but me (fst s') (cl_eh cl'')"
proof -
  have "in_touch a c me N X (s', cl')" by (rule playing.runs_inv [OF assms(2) playing.inv_init [OF assms(1)]])
  then obtain ms' V where V: "incoming (sh_conn (cl_sh cl')) (cl_world cl') ms'" "sees me V (cl_eh cl')"
      "turns me ms' V (server_view (fst s'))"
    by (auto simp: in_touch_def)
  have "ms' = ms" by (rule incoming_unique [OF V(1) assms(4)])
  then show ?thesis using rounds_catch_up [OF assms(3) V] sees_mirrors_but by blast
qed

theorem client_catches_up_witness:
  "\<exists>r' w' cl' n cl''. runs (play_step 0 5 tiles) ((playing_room, coded room_world), ann_client)
      two_steps ((r', w'), cl') \<and>
    map coords (players r') = [mk_coords 14 1, mk_coords 1 1] \<and>
    runs (play_step 0 5 tiles) ((r', w'), cl') (replicate n (OfClient Incoming)) ((r', w'), cl'') \<and>
    caught_up cl'' \<and> mirrors_but ''ann'' r' (cl_eh cl'')"
proof -
  obtain r w cl where run: "runs (play_step 0 5 tiles) ((playing_room, coded room_world), ann_client) two_steps ((r, w), cl)"
      "map coords (players r) = [mk_coords 14 1, mk_coords 1 1]" "kans (cl_world cl) = (\<lambda>_. 1)"
    using ann_and_bob_step by (elim exE conjE) (rule that)
  have "in_touch 0 5 ''ann'' {''ann'', ''bob''} tiles ((r, w), cl)"
    by (rule playing.runs_inv [OF run(1) playing.inv_init [OF ann_start]])
  then obtain ms where ms: "incoming (sh_conn (cl_sh cl)) (cl_world cl) ms" by (auto simp: in_touch_def)
  have polls: "\<forall>n. kans (cl_world cl) n \<noteq> - 1 \<and> odd (kans (cl_world cl) n)" by (simp add: run(3))
  obtain n cl2 where f: "runs (play_step 0 5 tiles) ((r, w), cl) (replicate n (OfClient Incoming)) ((r, w), cl2)"
      "caught_up cl2" "mirrors_but ''ann'' r (cl_eh cl2)"
    using client_catches_up [OF ann_start run(1) polls ms] by auto
  show ?thesis by (intro exI conjI) (rule run, rule run(2), rule f(1), rule f(2), rule f(3))
qed

end
