(* ===== verification/Spec2Isabelle.thy ===== *)
theory Spec2Isabelle
  imports Launch ReceiveFacts RoomActions ServerLoops ClientPlay
begin

text \<open>
  \<^bold>\<open>A model of Boomberman and its correctness.\<close> Boomberman is a Bomberman for up to four players
  over TCP: one C++ program that is started as a server or as a client. All of it under
  \<open>game/src\<close> is translated here, function by function, and the theorems are about these
  translations. Paths below are relative to \<open>game/src\<close>.

  \<^bold>\<open>The program.\<close> \<open>Main.cpp\<close> reads the command line and starts one of the two.
  The server (\<open>server/\<close>) accepts connections into a lobby, creates rooms and moves connections into
  them, and serves the lobby, the rooms and the bomb timers with one thread each. A room runs
  one game: it waits until four players have joined, then checks and relays their moves and bombs,
  counts their lives and announces the winner. A client (\<open>client/\<close>) shows a menu, joins a
  room and keeps a copy of the players, the bombs and the fire of its room from the messages it receives,
  while it moves its own player ahead of the server. Both sides share the framing of
  messages, the board, the bombs and the clock (\<open>shared/\<close>).

  \<^bold>\<open>Theories.\<close> Each imports those it calls.

  \<^item> \<open>Prelude\<close>: results and errors (\<open>res\<close>, \<open>andThen\<close>, \<open>andThenO\<close>, \<open>iterE\<close>), C++ numbers (the
    conversions to \<open>int\<close>, floats that hold integers), vectors, and the machines \<open>reach\<close>,
    \<open>runs\<close> with the locales \<open>state_machine\<close> and \<open>progress_machine\<close>.
  \<^item> \<open>Launch\<close>: \<open>Main.cpp\<close>. \<open>Proto\<close>: the messages of \<open>proto/messages.proto\<close>. \<open>World\<close>: \<open>shared/Util\<close>
    and what the code uses of the clock, the kernel and the random numbers.
  \<^item> \<open>TileMap\<close>, \<open>Bomb\<close>: \<open>shared/game\<close>. \<open>Connection\<close>, \<open>ConnectionFacts\<close>, \<open>ReceiveFacts\<close>:
    \<open>shared/msg/Connection\<close>, with what sending changes and what receiving means.
  \<^item> \<open>Player\<close>: \<open>server/entities\<close>. \<open>Room\<close>: \<open>server/Room\<close>; its invariant is in \<open>RoomFacts\<close>, explosions in
    \<open>RoomExplosion\<close>, the sweep of marked players in \<open>RoomLeave\<close>, the room as a machine in
    \<open>RoomProps\<close>, the effect of each call in \<open>RoomActions\<close>.
  \<^item> \<open>Server\<close>: \<open>server/Server\<close>; what it may rely on in \<open>ServerFrame\<close>, its invariant in \<open>ServerFacts\<close> and
    \<open>ServerLobby\<close>, the server as a machine in \<open>ServerProps\<close>, its properties in \<open>ServerActions\<close>,
    the loops of its threads in \<open>ServerLoops\<close>.
  \<^item> \<open>Raylib\<close>, \<open>Boomberman\<close>, \<open>RoomBox\<close>, \<open>EntityHandler\<close>, \<open>ServerHandler\<close>, \<open>Client\<close>: the files of
    \<open>client/\<close> with these names. \<open>EntityFacts\<close>: bombs and fire on a client. \<open>ClientNet\<close>: the rounds of the
    receiver and the wait for the game. \<open>ClientFacts\<close>: keys and the client as a machine.
  \<^item> The room and its clients together: \<open>RoomWire\<close>, the bytes the room writes to one of its players;
    \<open>RoomCalls\<close>, explosions, sweeps and joins with what they write, where their effect depends on
    which players can be sent to; \<open>ClientMirror\<close>, the messages of the room and what a client makes of them; \<open>ClientWire\<close>, both over the
    bytes, call by call; \<open>ClientPlay\<close>, the machine of a game and of a client that follows it.
\<close>

text \<open>
  \<^bold>\<open>State and operations.\<close> A class is a record with the fields of the class, a method a function
  that takes the record and returns it updated. Everything that is not in the repository is the
  record \<open>world\<close> (for a client also \<open>ui\<close>), threaded through every operation: its clocks, random numbers, codec
  and the answers of system calls are arbitrary functions, read by a counter; reads and
  writes follow a script that says how many bytes the kernel takes or gives, or that it fails.
  Objects that the code shares by pointer live in maps from addresses (connections in the
  world, rooms and assignments in the server); an access to an address that is no longer
  there, to an index outside an array, or a conversion that does not fit is the value
  \<open>Undefined\<close>, a thrown exception is \<open>RuntimeError\<close>, the end of the process is \<open>Exit\<close>. Integers whose width
  matters are words (\<open>size_t\<close>, bytes) or are checked (\<open>int_result\<close>); the floats of a position
  hold converted integers and are kept as such.

  The threads are machines. \<open>server_step\<close> interleaves the pieces of work of the lobby
  thread, the events of the rooms thread and the explosions; \<open>room_step\<close> is any call on a room;
  \<open>client_step\<close> is a frame, a round of the receiver or the delayed closing. The loops of the
  server's threads over the batches of events are functions of a list of batches, and what the
  rooms thread does is proved to be a run of \<open>server_step\<close>.

  \<^bold>\<open>Loops.\<close> A loop over a vector is \<open>iterE\<close> or a structural recursion. The others are functions with a
  termination proof (\<open>recv_rest\<close>, \<open>send_rest\<close>: each turn uses up script or data; \<open>tryExtinguish_loop\<close>: the
  vector), or, where the code may run forever, \<open>partial_function (option)\<close> with \<open>None\<close> for that
  (\<open>recv_drain\<close>, which does run forever on a length byte of 255, and the client's loops
  that wait for the user or the server). There is no fuel; that such a loop returns is part of the
  conclusion of a theorem about it (\<open>receive_round_in_order\<close>, \<open>wait4Game_until_start\<close>).
\<close>

text \<open>
  \<^bold>\<open>Interfaces.\<close> \<open>tile_grid\<close> is what an explosion needs of a board, interpreted on the tile map;
  \<open>message_sender\<close> what a room needs of the eleven \<open>Send\<close> functions it calls, interpreted on each, and
  \<open>announcement\<close>, which extends it, that such a function writes its one message, a function of the last one
  sent, and answers wherever the connection is open and the message fits, interpreted on ten of them; \<open>message_source\<close> what a
  receiver needs of \<open>Receive\<close>, interpreted on it over the messages that are on their way;
  \<open>polling_thread\<close> what a loop over batches needs of the handling of an event, interpreted on the
  lobby and the rooms; \<open>state_machine\<close> and \<open>progress_machine\<close> an inductive invariant and a measure of
  progress, interpreted on rooms (twice), on the server, on clients and on a game with one of its clients.

  \<^bold>\<open>What is proved.\<close>

  \<^item> Connection: \<open>Receive\<close> implements a queue of messages however the kernel cuts the stream; what
    \<open>send\<close> writes is received; both only within the lengths the sign of \<open>char\<close> leaves, and what
    happens beyond them.
  \<^item> Bombs: the four scans of \<open>boom\<close> burn exactly the tiles of a declarative blast and
    stay inside the board.
  \<^item> Room: in every reachable state there are at most four players, distinct, with at most three
    lives each and on a floor tile; a game only advances; explosions, moves, messages, joins and sweeps change exactly what they should. A sweep
    removes every marked player and, of the others, only some that cannot be sent to. When nobody
    survives an explosion the draw of the winner reads past the end of a vector.
  \<^item> Server: in every reachable state connections, assignments and rooms agree and nothing
    points to a destroyed object; a thread handles its events up to the batch of the interrupt
    signal; the effect of listing and joining rooms; and the calls
    that leave the defined behaviour (a use after free in an orderly leave, a second join, a
    failed answer, the events of the bomb thread).
  \<^item> Client: its invariant; keys keep the local player on the floor; messages are handled
    in the order they were sent and the wait for the game ends with its start; fire goes out; bombs
    can be drawn exactly while none explodes; a client whose player is gone never sends again.
  \<^item> Together: \<open>mirrors\<close> says that the names, tiles and lives a client knows are those of the
    living players of the room, \<open>mirrors_but\<close> that they are but for the tile of the client's own player. Joins
    keep the first, through the messages the room is shown to write: one welcome to the new player, one
    join to each of the others. In a game the second is kept over the
    bytes: whatever the players send and press, what the room writes to the connection of a player, however
    it is cut, makes its client mirror the others again, and a client that keeps receiving gets there. What
    the room answers to a player's own move restores the first if it refuses the move for the board or as
    a diagonal; if it refuses it as too fast, it answers with the tile of an older move, which restores it
    exactly when that is the tile the player has.

  Theorems with assumptions are followed by an instance on concrete data, evaluated in the model.
\<close>

text \<open>
  \<^bold>\<open>Not modelled\<close>, and why.

  \<^item> Threads inside a handler: an event of the rooms thread, an explosion, a frame and a round of the
    receiver are atomic, so the mutex of a room and the data races of a client (its
    threads share the entities without a lock) are outside the model.
  \<^item> \<open>epoll\<close> hands a pointer back as it was given; the one that \<open>arm_bomb\<close> gives dangles, so
    \<open>server_step\<close> lets an explosion come with any descriptor and any room. It assumes that a new
    room draws a name that is not in use, which the code does not check.
  \<^item> The flag \<open>end\<close> is read by the loops of the threads, which are modelled one at a time
    (\<open>runLobby\<close>, \<open>runRooms\<close>, \<open>runBombs\<close>); the machine that interleaves them may go on after it is set.
    \<open>shouldEnd\<close> tells the event of the signal from the others by its descriptor; the model has
    a constructor for it.
  \<^item> The log, prints, and the drawing of texts, buttons and backgrounds; opening the window. The
    rectangles whose place depends on the game are modelled.
  \<^item> The protobuf codec, the kernel and raylib are not part of the repository: they are
    parameters, and what a theorem needs of them is an assumption of it (for instance that
    decoding inverts encoding).
  \<^item> A vector is more permissive than in the C++ standard: an index that is still inside after
    an \<open>erase\<close> is good. What is undefined in the model is undefined in C++ too.
  \<^item> The test client in Go (\<open>test-client\<close>) and the build files.
\<close>

end
